(* ===== verification/Prelude.thy ===== *)
theory Prelude
  imports
    Main
    "HOL-Library.Word"
    "HOL-Library.AList"
    "HOL-Library.Multiset"
    "HOL-Library.Char_ord"
    "HOL-Library.List_Lexorder"
    "HOL-Library.Product_Lexorder"
    "HOL-Library.Option_ord"
begin

text \<open>
  What the components share: the names of the machine types, the saturating and checked
  operations of Rust's unsigned integers with their \<^const>\<open>unat\<close> characterisations, the
  ASCII case and white-space operations of \<^verbatim>\<open>str\<close>, sums over association
  lists (the form in which an iterated \<^verbatim>\<open>HashMap\<close> is modelled), and the
  development's theorem collections.

  Unchecked \<open>+\<close>, \<open>-\<close> and \<open>*\<close> of the source are the wrapping operations of
  \<^typ>\<open>'a word\<close>: the workspace's release profile leaves overflow checks off.
\<close>

section \<open>Names of the machine types\<close>

type_synonym u8 = "8 word"
type_synonym u32 = "32 word"
type_synonym u64 = "64 word"

text \<open>Points in time and spans of time, in nanoseconds.\<close>

type_synonym instant = int
type_synonym duration = int

named_theorems word_nat "unat characterisations of Rust's integer operations"
named_theorems state_defs "definitions of the state-changing operations of a component"

section \<open>Saturating and checked arithmetic\<close>

definition sat_add :: "'a::len word \<Rightarrow> 'a word \<Rightarrow> 'a word" where
  "sat_add a b = (if unat a + unat b < 2 ^ LENGTH('a) then a + b else - 1)"

definition sat_sub :: "'a::len word \<Rightarrow> 'a word \<Rightarrow> 'a word" where
  "sat_sub a b = (if b \<le> a then a - b else 0)"

definition checked_add :: "'a::len word \<Rightarrow> 'a word \<Rightarrow> 'a word option" where
  "checked_add a b = (if unat a + unat b < 2 ^ LENGTH('a) then Some (a + b) else None)"

definition checked_sub :: "'a::len word \<Rightarrow> 'a word \<Rightarrow> 'a word option" where
  "checked_sub a b = (if b \<le> a then Some (a - b) else None)"

lemma unat_lt_pow [simp]: "unat (a :: 'a::len word) < 2 ^ LENGTH('a)"
  by (rule unsigned_less)

lemma unat_le_max: "unat (a :: 'a::len word) \<le> 2 ^ LENGTH('a) - 1"
  using unat_lt_pow [of a] by linarith

lemma unat_add_exact:
  "unat a + unat b < 2 ^ LENGTH('a) \<Longrightarrow> unat (a + b) = unat a + unat (b :: 'a::len word)"
  by (simp add: unat_word_ariths)

lemma unat_max_word: "unat (- 1 :: 'a::len word) = 2 ^ LENGTH('a) - 1"
  by (simp add: unsigned_minus_1_eq_mask mask_eq_exp_minus_1)

lemma unat_plus_one: "a \<noteq> - 1 \<Longrightarrow> unat (a + 1) = unat a + 1"
  for a :: "'a::len word"
proof -
  assume "a \<noteq> - 1"
  then have "unat a \<noteq> 2 ^ LENGTH('a) - 1" by (simp add: word_unat_eq_iff unat_max_word)
  then have "unat a + unat (1 :: 'a word) < 2 ^ LENGTH('a)" using unat_le_max [of a] by simp
  then show ?thesis by (simp add: unat_add_exact)
qed

lemma unat_sat_add [word_nat]:
  "unat (sat_add a b) = min (unat a + unat b) (2 ^ LENGTH('a) - 1)"
  for a b :: "'a::len word"
proof (cases "unat a + unat b < 2 ^ LENGTH('a)")
  case True
  then show ?thesis by (simp add: sat_add_def unat_add_exact)
next
  case False
  then show ?thesis by (simp add: sat_add_def unat_max_word)
qed

lemma unat_sat_sub [word_nat]: "unat (sat_sub a b) = unat a - unat b"
  by (auto simp: sat_sub_def unat_sub word_le_nat_alt)

lemma min_add_left: "min (min a m + b) m = min (a + b) (m :: nat)"
  by simp

lemma unat_ucast_up:
  "LENGTH('a) \<le> LENGTH('b) \<Longrightarrow> unat (ucast (x :: 'a::len word) :: 'b::len word) = unat x"
proof -
  assume "LENGTH('a) \<le> LENGTH('b)"
  then have "unat x < 2 ^ LENGTH('b)"
    by (intro less_le_trans [OF unat_lt_pow power_increasing]) simp_all
  then show "unat (ucast x :: 'b word) = unat x"
    by (simp add: unsigned_ucast_eq take_bit_nat_eq_self_iff)
qed

lemma checked_add_SomeD:
  "checked_add a b = Some c \<Longrightarrow> unat c = unat a + unat b"
  by (auto simp: checked_add_def unat_add_exact split: if_splits)

lemma checked_add_eq_Some:
  "checked_add a b = Some c \<longleftrightarrow> unat c = unat a + unat b"
  for a b c :: "'a::len word"
proof
  assume "unat c = unat a + unat b"
  moreover from this have "unat a + unat b < 2 ^ LENGTH('a)"
    using unat_lt_pow [of c] by simp
  ultimately show "checked_add a b = Some c"
    by (simp add: checked_add_def word_unat_eq_iff unat_add_exact)
qed (rule checked_add_SomeD)

lemma checked_sub_eq_Some:
  "checked_sub a b = Some c \<longleftrightarrow> unat b \<le> unat a \<and> unat c = unat a - unat b"
  by (auto simp: checked_sub_def word_le_nat_alt unat_sub word_unat_eq_iff)

text \<open>A sum that fits is the sum of the naturals, whatever the order of saturation.\<close>

lemma sat_add_le_iff:
  "sat_add (sat_add a b) c \<le> d \<longleftrightarrow>
     unat d = 2 ^ LENGTH('a) - 1 \<or> unat a + unat b + unat c \<le> unat d"
  for a b c d :: "'a::len word"
  using unat_le_max [of d] by (auto simp: word_le_nat_alt word_nat)

lemma sat_add_commute: "sat_add a b = sat_add b a"
  by (simp add: word_unat_eq_iff word_nat add.commute)

lemma sat_add_assoc: "sat_add (sat_add a b) c = sat_add a (sat_add b c)"
  by (simp add: word_unat_eq_iff word_nat)

lemma sat_add_0 [simp]: "sat_add a 0 = a" "sat_add 0 a = a"
  by (simp_all add: sat_add_def)

lemma sat_add_mono: "a \<le> a' \<Longrightarrow> b \<le> b' \<Longrightarrow> sat_add a b \<le> sat_add a' b'"
  by (auto simp: word_le_nat_alt word_nat)

lemma sat_add_ge1: "a \<le> sat_add a b"
  using unat_le_max [of a] by (auto simp: word_le_nat_alt word_nat)

section \<open>Association lists\<close>

lemma alist_update_fresh:
  "map_of xs k = None \<Longrightarrow> AList.update k v xs = xs @ [(k, v)]"
  by (induction xs) (auto split: if_splits)

lemma sum_list_alist_delete:
  fixes f :: "'k \<times> 'v \<Rightarrow> nat"
  assumes "distinct (map fst xs)" and "map_of xs k = Some v"
  shows "sum_list (map f xs) = f (k, v) + sum_list (map f (AList.delete k xs))"
  using assms
proof (induction xs)
  case Nil
  then show ?case by simp
next
  case (Cons p xs)
  show ?case
  proof (cases "fst p = k")
    case True
    with Cons.prems have "AList.delete k xs = xs" and "p = (k, v)"
      by (cases p, force intro!: delete_idem)+
    with True show ?thesis by (simp add: delete_simps split: prod.splits)
  next
    case False
    with Cons show ?thesis by (cases p) (auto simp: delete_simps)
  qed
qed

lemma map_of_alist_delete:
  "map_of (AList.delete k xs) j = (if j = k then None else map_of xs j)"
  by (simp add: delete_conv')

lemma sum_list_map_perm: "mset xs = mset ys \<Longrightarrow> sum_list (map f xs) = sum_list (map f ys)"
  for f :: "'a \<Rightarrow> nat"
  by (metis mset_map sum_mset_sum_list)

section \<open>Strings\<close>

text \<open>
  A Rust string is its UTF-8 bytes. \<open>ascii_lower\<close> is \<^verbatim>\<open>to_ascii_lowercase\<close>,
  \<open>eq_ignore_ascii_case\<close> the method of that name; both leave the bytes of multi-byte characters
  alone.
\<close>

definition ascii_lower_char :: "char \<Rightarrow> char" where
  "ascii_lower_char c =
     (if CHR ''A'' \<le> c \<and> c \<le> CHR ''Z'' then char_of (of_char c + 32 :: nat) else c)"

definition ascii_lower :: "string \<Rightarrow> string" where
  "ascii_lower = map ascii_lower_char"

definition eq_ignore_ascii_case :: "string \<Rightarrow> string \<Rightarrow> bool" where
  "eq_ignore_ascii_case a b = (ascii_lower a = ascii_lower b)"

lemma length_ascii_lower [simp]: "length (ascii_lower s) = length s"
  by (simp add: ascii_lower_def)

lemma ascii_lower_char_idem [simp]: "ascii_lower_char (ascii_lower_char c) = ascii_lower_char c"
proof (cases "CHR ''A'' \<le> c \<and> c \<le> CHR ''Z''")
  case True
  then have "65 \<le> (of_char c :: nat)" "(of_char c :: nat) \<le> 90"
    by (simp_all add: less_eq_char_def)
  then show ?thesis
    by (simp add: ascii_lower_char_def less_eq_char_def)
next
  case False
  then show ?thesis by (auto simp: ascii_lower_char_def)
qed

lemma ascii_lower_idem [simp]: "ascii_lower (ascii_lower s) = ascii_lower s"
  by (simp add: ascii_lower_def)

section \<open>Searching a list\<close>

text \<open>\<^verbatim>\<open>Iterator::position\<close>: the index of the first element with a property.\<close>

fun position :: "('a \<Rightarrow> bool) \<Rightarrow> 'a list \<Rightarrow> nat option" where
  "position P [] = None"
| "position P (x # xs) = (if P x then Some 0 else map_option Suc (position P xs))"

lemma position_None_iff: "position P xs = None \<longleftrightarrow> (\<forall>x \<in> set xs. \<not> P x)"
  by (induction xs) auto

lemma position_SomeD:
  "position P xs = Some k \<Longrightarrow>
     k < length xs \<and> P (xs ! k) \<and> (\<forall>x \<in> set (take k xs). \<not> P x)"
proof (induction xs arbitrary: k)
  case Nil
  then show ?case by simp
next
  case (Cons x xs)
  then show ?case by (cases k) (auto split: if_splits)
qed

lemma position_split:
  assumes "position P xs = Some k"
  shows "xs = take k xs @ xs ! k # drop (Suc k) xs"
  using position_SomeD [OF assms] by (simp add: id_take_nth_drop)

section \<open>Trimming and decimal numbers\<close>

text \<open>
  \<^verbatim>\<open>str::trim\<close> on UTF-8 bytes: the encodings of the characters with the White\_Space
  property, stripped from both ends.
\<close>

definition white_space :: "string list" where
  "white_space =
    [[CHR 0x09], [CHR 0x0A], [CHR 0x0B], [CHR 0x0C], [CHR 0x0D], [CHR 0x20],
     [CHR 0xC2, CHR 0x85], [CHR 0xC2, CHR 0xA0], [CHR 0xE1, CHR 0x9A, CHR 0x80],
     [CHR 0xE2, CHR 0x80, CHR 0x80], [CHR 0xE2, CHR 0x80, CHR 0x81],
     [CHR 0xE2, CHR 0x80, CHR 0x82], [CHR 0xE2, CHR 0x80, CHR 0x83],
     [CHR 0xE2, CHR 0x80, CHR 0x84], [CHR 0xE2, CHR 0x80, CHR 0x85],
     [CHR 0xE2, CHR 0x80, CHR 0x86], [CHR 0xE2, CHR 0x80, CHR 0x87],
     [CHR 0xE2, CHR 0x80, CHR 0x88], [CHR 0xE2, CHR 0x80, CHR 0x89],
     [CHR 0xE2, CHR 0x80, CHR 0x8A], [CHR 0xE2, CHR 0x80, CHR 0xA8],
     [CHR 0xE2, CHR 0x80, CHR 0xA9], [CHR 0xE2, CHR 0x80, CHR 0xAF],
     [CHR 0xE2, CHR 0x81, CHR 0x9F], [CHR 0xE3, CHR 0x80, CHR 0x80]]"

function strip_start :: "string list \<Rightarrow> string \<Rightarrow> string" where
  "strip_start seqs s =
     (case find (\<lambda>w. w \<noteq> [] \<and> take (length w) s = w) seqs of
        Some w \<Rightarrow> strip_start seqs (drop (length w) s)
      | None \<Rightarrow> s)"
  by pat_completeness auto
termination
proof (relation "measure (length \<circ> snd)")
  fix seqs :: "string list" and s w
  assume "find (\<lambda>w. w \<noteq> [] \<and> take (length w) s = w) seqs = Some w"
  then have "w \<noteq> []" "take (length w) s = w" by (auto simp: find_Some_iff)
  then show "((seqs, drop (length w) s), seqs, s) \<in> measure (length \<circ> snd)"
    by (cases s) auto
qed simp

declare strip_start.simps [simp del]

definition trim_start :: "string \<Rightarrow> string" where
  "trim_start = strip_start white_space"

definition trim_end :: "string \<Rightarrow> string" where
  "trim_end s = rev (strip_start (map rev white_space) (rev s))"

definition trim :: "string \<Rightarrow> string" where
  "trim s = trim_end (trim_start s)"

lemma strip_start_suffix: "\<exists>k. strip_start seqs s = drop k s"
proof (induction seqs s rule: strip_start.induct)
  case (1 seqs s)
  show ?case
  proof (cases "find (\<lambda>w. w \<noteq> [] \<and> take (length w) s = w) seqs")
    case None
    then have "strip_start seqs s = drop 0 s" by (simp add: strip_start.simps [of seqs s])
    then show ?thesis by blast
  next
    case (Some w)
    from 1 [OF Some] obtain k where "strip_start seqs (drop (length w) s) = drop (k + length w) s"
      by (auto simp: drop_drop)
    with Some have "strip_start seqs s = drop (k + length w) s"
      by (simp add: strip_start.simps [of seqs s])
    then show ?thesis by blast
  qed
qed

lemma strip_start_length: "length (strip_start seqs s) \<le> length s"
  using strip_start_suffix [of seqs s] by auto

lemma strip_start_fix:
  "strip_start seqs s = s \<longleftrightarrow> (\<forall>w \<in> set seqs. w = [] \<or> take (length w) s \<noteq> w)"
proof (cases "find (\<lambda>w. w \<noteq> [] \<and> take (length w) s = w) seqs")
  case None
  then have "strip_start seqs s = s" by (simp add: strip_start.simps [of seqs s])
  with None show ?thesis by (auto simp: find_None_iff)
next
  case (Some w)
  then have w: "w \<in> set seqs" "w \<noteq> []" "take (length w) s = w" by (auto simp: find_Some_iff)
  then have "length (drop (length w) s) < length s" by (cases s) auto
  then have "length (strip_start seqs (drop (length w) s)) < length s"
    using strip_start_length [of seqs "drop (length w) s"] by simp
  moreover from Some have "strip_start seqs s = strip_start seqs (drop (length w) s)"
    by (simp add: strip_start.simps [of seqs s])
  ultimately have "strip_start seqs s \<noteq> s" by auto
  with w show ?thesis by auto
qed

lemma trim_fixD:
  assumes "trim s = s"
  shows "trim_start s = s" and "trim_end s = s"
proof -
  have "length s \<le> length (trim_start s)"
    using assms strip_start_length [of "map rev white_space" "rev (trim_start s)"]
    by (simp add: trim_def trim_end_def) (metis length_rev)
  moreover obtain k where "trim_start s = drop k s"
    using strip_start_suffix [of white_space s] by (auto simp: trim_start_def)
  ultimately show *: "trim_start s = s" by (cases "k = 0"; cases s) auto
  show "trim_end s = s" using assms by (simp add: trim_def *)
qed

text \<open>A printable ASCII character in front of a trimmed, non-empty string keeps it trimmed.\<close>

definition printable :: "char \<Rightarrow> bool" where
  "printable c \<longleftrightarrow> (0x21 :: nat) \<le> of_char c \<and> of_char c < (0x80 :: nat)"

lemma white_space_not_printable:
  assumes "w \<in> set white_space"
  shows "w \<noteq> []" and "c \<in> set w \<Longrightarrow> \<not> printable c"
proof -
  have "list_all (\<lambda>w. w \<noteq> [] \<and> list_all (\<lambda>c. \<not> printable c) w) white_space"
    by (simp add: white_space_def printable_def)
  with assms show "w \<noteq> []" and "c \<in> set w \<Longrightarrow> \<not> printable c"
    by (auto simp: list_all_iff)
qed

lemma trim_Cons:
  assumes "printable c" and "trim_end s = s" "s \<noteq> []"
  shows "trim (c # s) = c # s" and "trim_end (c # s) = c # s"
proof -
  have start: "trim_start (c # s) = c # s"
    unfolding trim_start_def strip_start_fix
  proof (intro ballI)
    fix w assume w: "w \<in> set white_space"
    then have "w \<noteq> []" "hd w \<noteq> c" using white_space_not_printable [OF w] assms(1) by auto
    then show "w = [] \<or> take (length w) (c # s) \<noteq> w" by (cases w) auto
  qed
  have s: "strip_start (map rev white_space) (rev s) = rev s"
    using assms(2) by (simp add: trim_end_def rev_swap)
  have "strip_start (map rev white_space) (rev s @ [c]) = rev s @ [c]"
    unfolding strip_start_fix
  proof (intro ballI)
    fix w assume w: "w \<in> set (map rev white_space)"
    have old: "w = [] \<or> take (length w) (rev s) \<noteq> w"
      using s [unfolded strip_start_fix] w by blast
    have "c \<notin> set w" using w white_space_not_printable(2) [of "rev w" c] assms(1) by auto
    then show "w = [] \<or> take (length w) (rev s @ [c]) \<noteq> w"
    proof (cases "length w \<le> length s")
      case True
      with old show ?thesis by simp
    next
      case False
      then have "c \<in> set (take (length w) (rev s @ [c]))"
        by (simp add: take_Cons')
      moreover have "c \<in> set w" if "take (length w) (rev s @ [c]) = w"
        using calculation unfolding that .
      ultimately show ?thesis using \<open>c \<notin> set w\<close> by blast
    qed
  qed
  then show e: "trim_end (c # s) = c # s" by (simp add: trim_end_def)
  show "trim (c # s) = c # s" by (simp add: trim_def start e)
qed

text \<open>\<^verbatim>\<open>Display\<close> of an unsigned integer.\<close>

fun decimal :: "nat \<Rightarrow> string" where
  "decimal n = (if n < 10 then [char_of (48 + n)] else decimal (n div 10) @ [char_of (48 + n mod 10)])"

declare decimal.simps [simp del]

section \<open>Options and results\<close>

definition unwrap_or :: "'a option \<Rightarrow> 'a \<Rightarrow> 'a" where
  "unwrap_or x d = (case x of Some v \<Rightarrow> v | None \<Rightarrow> d)"

lemma unwrap_or_simps [simp]: "unwrap_or (Some v) d = v" "unwrap_or None d = d"
  by (simp_all add: unwrap_or_def)

definition then_some :: "bool \<Rightarrow> 'a \<Rightarrow> 'a option" where
  "then_some b v = (if b then Some v else None)"

definition bind_res :: "'e + 'a \<Rightarrow> ('a \<Rightarrow> 'e + 'b) \<Rightarrow> 'e + 'b" where
  "bind_res r f = (case r of Inl e \<Rightarrow> Inl e | Inr v \<Rightarrow> f v)"

definition is_some_and :: "'a option \<Rightarrow> ('a \<Rightarrow> bool) \<Rightarrow> bool" where
  "is_some_and x f = (case x of Some v \<Rightarrow> f v | None \<Rightarrow> False)"

definition is_none_or :: "'a option \<Rightarrow> ('a \<Rightarrow> bool) \<Rightarrow> bool" where
  "is_none_or x f = (case x of Some v \<Rightarrow> f v | None \<Rightarrow> True)"

lemma bind_res_simps [simp]:
  "bind_res (Inl e) f = Inl e" "bind_res (Inr v) f = f v"
  by (simp_all add: bind_res_def)

lemma bind_res_Inr: "bind_res r f = Inr y \<longleftrightarrow> (\<exists>v. r = Inr v \<and> f v = Inr y)"
  by (cases r) simp_all

end
