(* ===== verification/Lease_Interface.thy ===== *)
theory Lease_Interface
  imports Prelude
begin

text \<open>
  \<^verbatim>\<open>crates/sandhi-core/src/ledger.rs\<close>, the data and the two traits: a reservation
  holds a ceiling of tokens in a scope until it is settled by id or reclaimed after its expiry.
  The contract of \<^verbatim>\<open>LedgerView\<close> and \<^verbatim>\<open>EnforcementLedger\<close> is the locale
  \<open>lease_ledger\<close>. What follows from the contract alone, for one operation and for every sequence
  of operations, is proved here once; the in-memory ledger and the SQLite ledger interpret it.
\<close>

section \<open>Data\<close>

record reservation =
  r_id :: u64
  r_scope :: string
  r_ceiling :: u64
  r_expires_at :: instant

record denied =
  d_scope :: string
  d_limit :: u64
  d_spent :: u64
  d_reserved :: u64
  d_requested_ceiling :: u64

text \<open>The default method of \<^verbatim>\<open>LedgerView\<close>, over the three methods it calls.\<close>

definition available :: "u64 option \<Rightarrow> u64 \<Rightarrow> u64 \<Rightarrow> u64" where
  "available limit spent reserved =
     (case limit of
        None \<Rightarrow> - 1
      | Some limit \<Rightarrow> sat_sub limit (sat_add spent reserved))"

section \<open>Sequences of operations\<close>

text \<open>
  The three operations of the write side, as the calls of a history; \<open>ledger_run\<close> performs a
  history on any implementation.
\<close>

datatype ledger_op =
    Reserve string u64 instant duration
  | Settle u64 u64
  | ReclaimExpired instant

type_synonym 's reserve_fn =
  "'s \<Rightarrow> string \<Rightarrow> u64 \<Rightarrow> instant \<Rightarrow> duration \<Rightarrow> (denied + reservation) \<times> 's"
type_synonym 's settle_fn = "'s \<Rightarrow> u64 \<Rightarrow> u64 \<Rightarrow> 's"
type_synonym 's reclaim_fn = "'s \<Rightarrow> instant \<Rightarrow> nat \<times> 's"

fun ledger_step ::
  "'s reserve_fn \<Rightarrow> 's settle_fn \<Rightarrow> 's reclaim_fn \<Rightarrow> 's \<Rightarrow> ledger_op \<Rightarrow> 's" where
  "ledger_step reserve settle reclaim L (Reserve s c now ttl) = snd (reserve L s c now ttl)"
| "ledger_step reserve settle reclaim L (Settle i a) = settle L i a"
| "ledger_step reserve settle reclaim L (ReclaimExpired now) = snd (reclaim L now)"

definition ledger_run ::
  "'s reserve_fn \<Rightarrow> 's settle_fn \<Rightarrow> 's reclaim_fn \<Rightarrow> 's \<Rightarrow> ledger_op list \<Rightarrow> 's" where
  "ledger_run reserve settle reclaim = foldl (ledger_step reserve settle reclaim)"

text \<open>
  How much the settlements of a history charge to scope \<open>s\<close> beyond what the settled leases
  held: the sum of \<open>actual - ceiling\<close> over the settlements of leases of \<open>s\<close> that exceed their
  ceiling. \<open>lease\<close> reads the scope and ceiling of an outstanding lease.
\<close>

fun step_overshoot ::
  "('s \<Rightarrow> u64 \<Rightarrow> (string \<times> u64) option) \<Rightarrow> 's \<Rightarrow> string \<Rightarrow> ledger_op \<Rightarrow> nat" where
  "step_overshoot lease L s (Settle i a) =
     (case lease L i of
        None \<Rightarrow> 0
      | Some (t, c) \<Rightarrow> if t = s then unat a - unat c else 0)"
| "step_overshoot lease L s _ = 0"

fun overshoot ::
  "('s \<Rightarrow> u64 \<Rightarrow> (string \<times> u64) option) \<Rightarrow> ('s \<Rightarrow> ledger_op \<Rightarrow> 's) \<Rightarrow>
     's \<Rightarrow> string \<Rightarrow> ledger_op list \<Rightarrow> nat" where
  "overshoot lease step L s [] = 0"
| "overshoot lease step L s (x # xs) =
     step_overshoot lease L s x + overshoot lease step (step L x) s xs"

text \<open>
  Every operation of a history stays within the range of the implementation's counters:
  \<open>fits\<close> for the ceiling of a reservation, \<open>chargeable\<close> for the amount of a settlement.
\<close>

fun step_in_range ::
  "('s \<Rightarrow> u64 \<Rightarrow> (string \<times> u64) option) \<Rightarrow> ('s \<Rightarrow> string \<Rightarrow> u64 \<Rightarrow> bool) \<Rightarrow>
     ('s \<Rightarrow> string \<Rightarrow> u64 \<Rightarrow> bool) \<Rightarrow> 's \<Rightarrow> ledger_op \<Rightarrow> bool" where
  "step_in_range lease fits chargeable L (Reserve s c now ttl) = fits L s c"
| "step_in_range lease fits chargeable L (Settle i a) =
     (case lease L i of None \<Rightarrow> True | Some (t, c) \<Rightarrow> chargeable L t a)"
| "step_in_range lease fits chargeable L (ReclaimExpired now) = True"

fun in_range ::
  "('s \<Rightarrow> u64 \<Rightarrow> (string \<times> u64) option) \<Rightarrow> ('s \<Rightarrow> string \<Rightarrow> u64 \<Rightarrow> bool) \<Rightarrow>
     ('s \<Rightarrow> string \<Rightarrow> u64 \<Rightarrow> bool) \<Rightarrow> ('s \<Rightarrow> ledger_op \<Rightarrow> 's) \<Rightarrow>
     's \<Rightarrow> ledger_op list \<Rightarrow> bool" where
  "in_range lease fits chargeable step L [] = True"
| "in_range lease fits chargeable step L (x # xs) =
     (step_in_range lease fits chargeable L x \<and>
      in_range lease fits chargeable step (step L x) xs)"

lemma ledger_run_simps [simp]:
  "ledger_run reserve settle reclaim L [] = L"
  "ledger_run reserve settle reclaim L (x # xs) =
     ledger_run reserve settle reclaim (ledger_step reserve settle reclaim L x) xs"
  by (simp_all add: ledger_run_def)

section \<open>The contract\<close>

locale lease_ledger =
  fixes inv :: "'s \<Rightarrow> bool"
    and limit :: "'s \<Rightarrow> string \<Rightarrow> u64 option"
    and spent :: "'s \<Rightarrow> string \<Rightarrow> u64"
    and reserved :: "'s \<Rightarrow> string \<Rightarrow> u64"
    and lease :: "'s \<Rightarrow> u64 \<Rightarrow> (string \<times> u64) option"
    and fits :: "'s \<Rightarrow> string \<Rightarrow> u64 \<Rightarrow> bool"
    and chargeable :: "'s \<Rightarrow> string \<Rightarrow> u64 \<Rightarrow> bool"
    and reserve :: "'s reserve_fn"
    and settle :: "'s settle_fn"
    and reclaim :: "'s reclaim_fn"
  assumes reserve_denied: "reserve L s c now ttl = (Inl d, L') \<Longrightarrow> L' = L"
    and reserve_inv:
      "\<lbrakk>inv L; fits L s c; reserve L s c now ttl = (Inr r, L')\<rbrakk> \<Longrightarrow> inv L'"
    and reserve_view:
      "\<lbrakk>inv L; fits L s c; reserve L s c now ttl = (Inr r, L')\<rbrakk> \<Longrightarrow>
         limit L' = limit L \<and> spent L' = spent L \<and>
         (\<forall>t. t \<noteq> s \<longrightarrow> reserved L' t = reserved L t)"
    and reserve_lease:
      "\<lbrakk>inv L; fits L s c; reserve L s c now ttl = (Inr r, L')\<rbrakk> \<Longrightarrow>
         lease L' (r_id r) = Some (s, c) \<and> unat c \<le> unat (reserved L' s)"
    and reserve_within:
      "\<lbrakk>inv L; fits L s c; reserve L s c now ttl = (Inr r, L'); limit L s = Some l\<rbrakk> \<Longrightarrow>
         unat (spent L s) + unat (reserved L' s) \<le> unat l"
    and settle_inv: "\<lbrakk>inv L; lease L i = Some (s, c); chargeable L s a\<rbrakk> \<Longrightarrow> inv (settle L i a)"
    and settle_limit: "limit (settle L i a) = limit L"
    and settle_charges:
      "\<lbrakk>inv L; lease L i = Some (s, c); chargeable L s a\<rbrakk> \<Longrightarrow>
         unat (spent (settle L i a) s) = unat (spent L s) + unat a \<and>
         unat (reserved (settle L i a) s) + unat c = unat (reserved L s) \<and>
         lease (settle L i a) i = None"
    and settle_frame:
      "\<lbrakk>inv L; lease L i = Some (s, c); t \<noteq> s\<rbrakk> \<Longrightarrow>
         spent (settle L i a) t = spent L t \<and> reserved (settle L i a) t = reserved L t"
    and settle_unknown: "lease L i = None \<Longrightarrow> settle L i a = L"
    and reclaim_inv: "inv L \<Longrightarrow> inv (snd (reclaim L now))"
    and reclaim_view:
      "inv L \<Longrightarrow> limit (snd (reclaim L now)) = limit L \<and> spent (snd (reclaim L now)) = spent L"
    and reclaim_releases: "inv L \<Longrightarrow> unat (reserved (snd (reclaim L now)) s) \<le> unat (reserved L s)"
begin

abbreviation step where
  "step \<equiv> ledger_step reserve settle reclaim"

lemma reserve_cases:
  obtains (Denied) d where "reserve L s c now ttl = (Inl d, L)"
    | (Admitted) r L' where "reserve L s c now ttl = (Inr r, L')"
proof (cases "reserve L s c now ttl")
  case (Pair res L')
  with that reserve_denied show thesis by (cases res) blast+
qed

lemma settle_idempotent:
  assumes "inv L" and "step_in_range lease fits chargeable L (Settle i a)"
  shows "settle (settle L i a) i b = settle L i a"
proof (cases "lease L i")
  case None
  then show ?thesis by (simp add: settle_unknown)
next
  case (Some p)
  then obtain t c where "lease L i = Some (t, c)" by (cases p) auto
  with assms have "lease (settle L i a) i = None" by (auto dest: settle_charges)
  then show ?thesis by (rule settle_unknown)
qed

lemma step_inv:
  assumes "inv L" and "step_in_range lease fits chargeable L x"
  shows "inv (step L x)"
proof (cases x)
  case (Reserve s c now ttl)
  with assms reserve_inv [of L s c now ttl] show ?thesis
    by (cases rule: reserve_cases [of L s c now ttl]) auto
next
  case (Settle i a)
  then show ?thesis
    using assms by (cases "lease L i") (auto simp: settle_unknown settle_inv)
next
  case (ReclaimExpired now)
  then show ?thesis using assms by (simp add: reclaim_inv)
qed

lemma step_limit:
  assumes "inv L" and "step_in_range lease fits chargeable L x"
  shows "limit (step L x) = limit L"
proof (cases x)
  case (Reserve s c now ttl)
  with assms reserve_view [of L s c now ttl] show ?thesis
    by (cases rule: reserve_cases [of L s c now ttl]) auto
qed (use assms in \<open>simp_all add: settle_limit reclaim_view\<close>)

text \<open>
  One operation moves the committed tokens of a capped scope, settled and held, to at most the
  larger of the cap and what was committed plus the operation's overshoot.
\<close>

lemma step_committed:
  assumes "inv L" and "step_in_range lease fits chargeable L x" and "limit L s = Some l"
    and "unat (spent L s) + unat (reserved L s) \<le> unat l + k"
  shows "unat (spent (step L x) s) + unat (reserved (step L x) s)
       \<le> unat l + k + step_overshoot lease L s x"
proof (cases x)
  case (Reserve t c now ttl)
  show ?thesis
  proof (cases rule: reserve_cases [of L t c now ttl])
    case (Denied d)
    with Reserve assms(4) show ?thesis by simp
  next
    case (Admitted r L')
    have "t = s \<Longrightarrow> unat (spent L s) + unat (reserved L' s) \<le> unat l"
      using reserve_within [of L t c now ttl r L' l] assms(1-3) Reserve Admitted by simp
    moreover have "spent L' = spent L" and "t \<noteq> s \<Longrightarrow> reserved L' s = reserved L s"
      using reserve_view [of L t c now ttl r L'] assms(1,2) Reserve Admitted by auto
    ultimately show ?thesis using Admitted Reserve assms(4) by (cases "t = s") auto
  qed
next
  case (Settle i a)
  show ?thesis
  proof (cases "lease L i")
    case None
    with Settle assms show ?thesis by (simp add: settle_unknown)
  next
    case (Some p)
    then obtain t c where p: "lease L i = Some (t, c)" by (cases p) auto
    show ?thesis
    proof (cases "t = s")
      case True
      have "unat (spent (settle L i a) s) = unat (spent L s) + unat a"
        and "unat (reserved (settle L i a) s) + unat c = unat (reserved L s)"
        using settle_charges [of L i s c a] p True Settle assms(1,2) by auto
      with True p Settle assms(4) show ?thesis by simp
    next
      case False
      with settle_frame [of L i t c s a] p Settle assms show ?thesis by auto
    qed
  qed
next
  case (ReclaimExpired now)
  then show ?thesis
    using reclaim_view [of L now] reclaim_releases [of L now s] assms by simp
qed

theorem run_committed:
  assumes "inv L" and "in_range lease fits chargeable step L xs" and "limit L s = Some l"
    and "unat (spent L s) + unat (reserved L s) \<le> unat l + k"
  shows "unat (spent (ledger_run reserve settle reclaim L xs) s)
       + unat (reserved (ledger_run reserve settle reclaim L xs) s)
       \<le> unat l + k + overshoot lease step L s xs"
  using assms
proof (induction xs arbitrary: L k)
  case Nil
  then show ?case by simp
next
  case (Cons x xs)
  have step: "step_in_range lease fits chargeable L x" using Cons.prems(2) by simp
  have "unat (spent (ledger_run reserve settle reclaim (step L x) xs) s)
      + unat (reserved (ledger_run reserve settle reclaim (step L x) xs) s)
      \<le> unat l + (k + step_overshoot lease L s x) + overshoot lease step (step L x) s xs"
  proof (rule Cons.IH)
    show "inv (step L x)" using Cons.prems(1) step by (rule step_inv)
    show "limit (step L x) s = Some l"
      using step_limit [OF Cons.prems(1) step] Cons.prems(3) by simp
    show "unat (spent (step L x) s) + unat (reserved (step L x) s)
        \<le> unat l + (k + step_overshoot lease L s x)"
      using step_committed [OF Cons.prems(1) step Cons.prems(3,4)] by simp
  qed (use Cons.prems(2) in simp)
  then show ?case by (simp add: add.assoc)
qed

text \<open>A scope whose settled spend passed its cap admits no reservation.\<close>

lemma overspent_refuses:
  assumes "inv L" and "fits L s c" and "limit L s = Some l" and "unat l < unat (spent L s)"
  shows "\<exists>d. reserve L s c now ttl = (Inl d, L)"
proof (cases rule: reserve_cases [of L s c now ttl])
  case (Admitted r L')
  with reserve_within [of L s c now ttl r L' l] assms show ?thesis by simp
qed blast

end

end
