(* ===== verification/Core_Ledger.thy ===== *)
theory Core_Ledger
  imports Lease_Interface
begin

text \<open>
  \<^verbatim>\<open>crates/sandhi-core/src/ledger.rs\<close>: the lease ledger. A reservation holds a
  ceiling of tokens in a scope until it is settled by id or reclaimed after its expiry. The
  traits \<^verbatim>\<open>LedgerView\<close> and \<^verbatim>\<open>EnforcementLedger\<close> are the locale
  \<open>lease_ledger\<close>; \<^verbatim>\<open>InMemoryLedger\<close> is the record \<open>in_memory_ledger\<close> with
  one definition per method, and interprets the locale.

  A \<^verbatim>\<open>HashMap\<close> that is only read and written by key is a map; the lease table, which
  \<^verbatim>\<open>reclaim_expired\<close> iterates, is an association list in the order of that iteration,
  which the source leaves open.
\<close>

section \<open>Data\<close>

record in_memory_ledger =
  l_limits :: "string \<rightharpoonup> u64 option"
  l_spent :: "string \<rightharpoonup> u64"
  l_reserved :: "string \<rightharpoonup> u64"
  l_leases :: "(u64 \<times> reservation) list"
  l_next_id :: u64

section \<open>Operations\<close>

definition mem_new :: in_memory_ledger where
  "mem_new = \<lparr>l_limits = Map.empty, l_spent = Map.empty, l_reserved = Map.empty,
              l_leases = [], l_next_id = 0\<rparr>"

definition active_leases :: "in_memory_ledger \<Rightarrow> nat" where
  "active_leases L = length (l_leases L)"

definition mem_limit :: "in_memory_ledger \<Rightarrow> string \<Rightarrow> u64 option" where
  "mem_limit L scope = (case l_limits L scope of None \<Rightarrow> None | Some limit \<Rightarrow> limit)"

definition mem_spent :: "in_memory_ledger \<Rightarrow> string \<Rightarrow> u64" where
  "mem_spent L scope = (case l_spent L scope of None \<Rightarrow> 0 | Some n \<Rightarrow> n)"

definition mem_reserved :: "in_memory_ledger \<Rightarrow> string \<Rightarrow> u64" where
  "mem_reserved L scope = (case l_reserved L scope of None \<Rightarrow> 0 | Some n \<Rightarrow> n)"

definition add_reserved :: "in_memory_ledger \<Rightarrow> string \<Rightarrow> u64 \<Rightarrow> in_memory_ledger" where
  "add_reserved L scope delta =
     L\<lparr>l_reserved := (l_reserved L)(scope \<mapsto> mem_reserved L scope + delta)\<rparr>"

definition sub_reserved :: "in_memory_ledger \<Rightarrow> string \<Rightarrow> u64 \<Rightarrow> in_memory_ledger" where
  "sub_reserved L scope delta =
     L\<lparr>l_reserved := (l_reserved L)(scope \<mapsto> sat_sub (mem_reserved L scope) delta)\<rparr>"

definition mem_set_limit :: "in_memory_ledger \<Rightarrow> string \<Rightarrow> u64 option \<Rightarrow> in_memory_ledger" where
  "mem_set_limit L scope limit = L\<lparr>l_limits := (l_limits L)(scope \<mapsto> limit)\<rparr>"

definition mem_reserve ::
  "in_memory_ledger \<Rightarrow> string \<Rightarrow> u64 \<Rightarrow> instant \<Rightarrow> duration \<Rightarrow>
     (denied + reservation) \<times> in_memory_ledger" where
  "mem_reserve L scope ceiling now ttl =
     (let refused =
        (case mem_limit L scope of
           None \<Rightarrow> None
         | Some limit \<Rightarrow>
             (let spent = mem_spent L scope; reserved = mem_reserved L scope in
              if sat_add (sat_add spent reserved) ceiling > limit
              then Some \<lparr>d_scope = scope, d_limit = limit, d_spent = spent,
                         d_reserved = reserved, d_requested_ceiling = ceiling\<rparr>
              else None))
      in case refused of
           Some denied \<Rightarrow> (Inl denied, L)
         | None \<Rightarrow>
             (let lid = l_next_id L;
                  L = L\<lparr>l_next_id := lid + 1\<rparr>;
                  reservation = \<lparr>r_id = lid, r_scope = scope, r_ceiling = ceiling,
                                 r_expires_at = now + ttl\<rparr>;
                  L = L\<lparr>l_leases := AList.update lid reservation (l_leases L)\<rparr>
              in (Inr reservation, add_reserved L scope ceiling)))"

definition mem_settle :: "in_memory_ledger \<Rightarrow> u64 \<Rightarrow> u64 \<Rightarrow> in_memory_ledger" where
  "mem_settle L reservation_id actual =
     (case map_of (l_leases L) reservation_id of
        None \<Rightarrow> L
      | Some lease \<Rightarrow>
          (let L = L\<lparr>l_leases := AList.delete reservation_id (l_leases L)\<rparr>;
               L = sub_reserved L (r_scope lease) (r_ceiling lease)
           in L\<lparr>l_spent := (l_spent L)(r_scope lease \<mapsto> mem_spent L (r_scope lease) + actual)\<rparr>))"

text \<open>One pass of the loop of \<^verbatim>\<open>reclaim_expired\<close>, and the whole method.\<close>

definition mem_release :: "u64 \<Rightarrow> in_memory_ledger \<Rightarrow> in_memory_ledger" where
  "mem_release lid L =
     (case map_of (l_leases L) lid of
        None \<Rightarrow> L
      | Some lease \<Rightarrow>
          sub_reserved (L\<lparr>l_leases := AList.delete lid (l_leases L)\<rparr>)
            (r_scope lease) (r_ceiling lease))"

definition mem_reclaim_expired :: "in_memory_ledger \<Rightarrow> instant \<Rightarrow> nat \<times> in_memory_ledger" where
  "mem_reclaim_expired L now =
     (let expired = map fst (filter (\<lambda>(_, l). r_expires_at l \<le> now) (l_leases L))
      in (length expired, fold mem_release expired L))"

section \<open>The accounting invariant\<close>

text \<open>What the outstanding leases of a scope hold together.\<close>

definition held :: "in_memory_ledger \<Rightarrow> string \<Rightarrow> nat" where
  "held L s =
     sum_list (map (\<lambda>(_, r). if r_scope r = s then unat (r_ceiling r) else 0) (l_leases L))"

definition mem_inv :: "in_memory_ledger \<Rightarrow> bool" where
  "mem_inv L \<longleftrightarrow>
     distinct (map fst (l_leases L)) \<and>
     (\<forall>(i, r) \<in> set (l_leases L). r_id r = i \<and> i < l_next_id L) \<and>
     (\<forall>s. unat (mem_reserved L s) = held L s)"

definition mem_lease :: "in_memory_ledger \<Rightarrow> u64 \<Rightarrow> (string \<times> u64) option" where
  "mem_lease L i = map_option (\<lambda>r. (r_scope r, r_ceiling r)) (map_of (l_leases L) i)"

text \<open>
  The range of the counters: the id counter has not reached its last value, and a scope with no
  cap (or with the largest cap there is, which the saturating check can never refuse) holds its
  tokens without wrapping around.
\<close>

definition mem_fits :: "in_memory_ledger \<Rightarrow> string \<Rightarrow> u64 \<Rightarrow> bool" where
  "mem_fits L s c \<longleftrightarrow>
     l_next_id L \<noteq> - 1 \<and>
     (mem_limit L s \<in> {None, Some (- 1)} \<longrightarrow>
        unat (mem_spent L s) + unat (mem_reserved L s) + unat c < 2 ^ 64)"

definition mem_chargeable :: "in_memory_ledger \<Rightarrow> string \<Rightarrow> u64 \<Rightarrow> bool" where
  "mem_chargeable L s a \<longleftrightarrow> unat (mem_spent L s) + unat a < 2 ^ 64"

lemmas mem_read_defs = mem_limit_def mem_spent_def mem_reserved_def mem_lease_def held_def

lemma mem_new_inv: "mem_inv mem_new"
  by (simp add: mem_inv_def mem_new_def held_def mem_reserved_def)

lemma mem_set_limit_inv: "mem_inv L \<Longrightarrow> mem_inv (mem_set_limit L s l)"
  by (simp add: mem_inv_def mem_set_limit_def mem_reserved_def held_def)

text \<open>The state after an admission, with the conditions under which there is one.\<close>

definition admit :: "in_memory_ledger \<Rightarrow> reservation \<Rightarrow> in_memory_ledger" where
  "admit L r =
     L\<lparr>l_next_id := l_next_id L + 1,
       l_leases := AList.update (l_next_id L) r (l_leases L),
       l_reserved := (l_reserved L)(r_scope r \<mapsto> mem_reserved L (r_scope r) + r_ceiling r)\<rparr>"

lemma mem_reserve_admitted:
  assumes "mem_reserve L s c now ttl = (Inr r, L')"
  shows "L' = admit L r"
    and "r = \<lparr>r_id = l_next_id L, r_scope = s, r_ceiling = c, r_expires_at = now + ttl\<rparr>"
    and "mem_limit L s = Some l \<Longrightarrow> sat_add (sat_add (mem_spent L s) (mem_reserved L s)) c \<le> l"
  using assms
  by (auto simp: mem_reserve_def admit_def add_reserved_def mem_reserved_def Let_def not_less
      split: option.splits if_splits)

lemma mem_reserve_denied: "mem_reserve L s c now ttl = (Inl d, L') \<Longrightarrow> L' = L"
  by (auto simp: mem_reserve_def Let_def split: option.splits if_splits)

lemma mem_inv_fresh: "mem_inv L \<Longrightarrow> map_of (l_leases L) (l_next_id L) = None"
  by (force simp: mem_inv_def map_of_eq_None_iff)

lemma mem_reserve_fits:
  assumes "mem_fits L s c" and "mem_reserve L s c now ttl = (Inr r, L')"
  shows "unat (mem_reserved L s) + unat c < 2 ^ 64"
    and "mem_limit L s = Some l \<Longrightarrow> unat (mem_spent L s) + unat (mem_reserved L s) + unat c \<le> unat l"
proof -
  have cap: "unat (mem_spent L s) + unat (mem_reserved L s) + unat c \<le> unat l"
    if l: "mem_limit L s = Some l" for l
  proof (cases "l = - 1")
    case True
    with assms(1) l have "unat (mem_spent L s) + unat (mem_reserved L s) + unat c < 2 ^ 64"
      by (simp add: mem_fits_def)
    with True show ?thesis by (simp add: unat_max_word)
  next
    case False
    then have "unat l \<noteq> 2 ^ 64 - 1"
      by (simp add: word_unat_eq_iff unat_max_word)
    with mem_reserve_admitted(3) [OF assms(2) l] show ?thesis by (simp add: sat_add_le_iff)
  qed
  then show "mem_limit L s = Some l \<Longrightarrow>
      unat (mem_spent L s) + unat (mem_reserved L s) + unat c \<le> unat l" .
  show "unat (mem_reserved L s) + unat c < 2 ^ 64"
  proof (cases "mem_limit L s")
    case None
    with assms(1) show ?thesis by (simp add: mem_fits_def)
  next
    case (Some l)
    with cap [OF Some] unat_lt_pow [of l] show ?thesis by simp
  qed
qed

lemma mem_reserved_admit:
  "mem_reserved (admit L r) t =
     (if t = r_scope r then mem_reserved L t + r_ceiling r else mem_reserved L t)"
  by (simp add: admit_def mem_reserved_def)

lemma held_admit:
  assumes "mem_inv L"
  shows "held (admit L r) t = held L t + (if r_scope r = t then unat (r_ceiling r) else 0)"
  using mem_inv_fresh [OF assms] by (simp add: held_def admit_def alist_update_fresh)

lemma mem_reserve_inv:
  assumes inv: "mem_inv L" and fits: "mem_fits L s c"
    and res: "mem_reserve L s c now ttl = (Inr r, L')"
  shows "mem_inv L'"
proof -
  note r = mem_reserve_admitted(2) [OF res]
  have room: "unat (mem_reserved L s) + unat c < 2 ^ 64" by (rule mem_reserve_fits(1) [OF fits res])
  have succ: "unat (l_next_id L + 1) = unat (l_next_id L) + 1"
    using fits by (simp add: mem_fits_def unat_plus_one)
  have "unat (mem_reserved (admit L r) t) = held (admit L r) t" for t
    using inv room unat_add_exact [of "mem_reserved L s" c]
    by (auto simp: held_admit mem_reserved_admit r mem_inv_def)
  moreover have "distinct (map fst (l_leases (admit L r)))"
    using inv by (simp add: admit_def mem_inv_def distinct_update)
  moreover have "r_id q = i \<and> i < l_next_id (admit L r)" if "(i, q) \<in> set (l_leases (admit L r))" for i q
    using that inv succ mem_inv_fresh [OF inv]
    by (auto simp: admit_def mem_inv_def alist_update_fresh r word_less_nat_alt)
  ultimately show ?thesis
    unfolding mem_reserve_admitted(1) [OF res] by (auto simp: mem_inv_def)
qed

subsection \<open>Settling and reclaiming\<close>

text \<open>Both remove a lease and give its ceiling back; settling also records the charge.\<close>

lemma mem_settle_known:
  assumes "map_of (l_leases L) i = Some r"
  shows "mem_settle L i a =
    (mem_release i L)\<lparr>l_spent := (l_spent L)(r_scope r \<mapsto> mem_spent L (r_scope r) + a)\<rparr>"
  using assms by (simp add: mem_settle_def mem_release_def sub_reserved_def mem_spent_def Let_def)

lemma mem_release_unknown: "map_of (l_leases L) i = None \<Longrightarrow> mem_release i L = L"
  by (simp add: mem_release_def)

lemma mem_release_fields [simp]:
  "l_limits (mem_release i L) = l_limits L"
  "l_spent (mem_release i L) = l_spent L"
  "l_next_id (mem_release i L) = l_next_id L"
  "l_leases (mem_release i L) = AList.delete i (l_leases L)"
proof -
  show "l_leases (mem_release i L) = AList.delete i (l_leases L)"
  proof (cases "map_of (l_leases L) i")
    case None
    then have "i \<notin> fst ` set (l_leases L)" by (simp only: map_of_eq_None_iff not_False_eq_True)
    with None show ?thesis by (simp add: mem_release_def)
  qed (simp add: mem_release_def sub_reserved_def)
qed (auto simp: mem_release_def sub_reserved_def split: option.splits)

lemma mem_reserved_release:
  assumes "map_of (l_leases L) i = Some r"
  shows "mem_reserved (mem_release i L) t =
    (if t = r_scope r then sat_sub (mem_reserved L t) (r_ceiling r) else mem_reserved L t)"
  using assms by (simp add: mem_release_def sub_reserved_def mem_reserved_def)

lemma held_release:
  assumes "mem_inv L" and "map_of (l_leases L) i = Some r"
  shows "held L t = (if r_scope r = t then unat (r_ceiling r) else 0) + held (mem_release i L) t"
  using sum_list_alist_delete [OF _ assms(2),
      of "\<lambda>(_, r). if r_scope r = t then unat (r_ceiling r) else 0"] assms(1)
  by (simp add: held_def mem_inv_def)

lemma mem_release_inv:
  assumes inv: "mem_inv L"
  shows "mem_inv (mem_release i L)"
proof (cases "map_of (l_leases L) i")
  case None
  with inv show ?thesis by (simp add: mem_release_unknown)
next
  case (Some r)
  have "unat (mem_reserved (mem_release i L) t) = held (mem_release i L) t" for t
    using inv held_release [OF inv Some, of t] mem_reserved_release [OF Some, of t]
    by (auto simp: mem_inv_def word_nat)
  moreover have "set (AList.delete i (l_leases L)) \<subseteq> set (l_leases L)"
    by (auto simp: AList.delete_eq)
  ultimately show ?thesis
    using inv by (auto simp: mem_inv_def distinct_delete)
qed

lemma mem_inv_spent [simp]: "mem_inv (L\<lparr>l_spent := f\<rparr>) = mem_inv L"
  by (simp add: mem_inv_def mem_reserved_def held_def)

lemma mem_settle_inv: "mem_inv L \<Longrightarrow> mem_inv (mem_settle L i a)"
  by (cases "map_of (l_leases L) i")
     (simp_all add: mem_settle_known mem_release_inv, simp add: mem_settle_def)

lemma mem_settle_unknown: "mem_lease L i = None \<Longrightarrow> mem_settle L i a = L"
  by (simp add: mem_lease_def mem_settle_def)

lemma mem_settle_charges:
  assumes inv: "mem_inv L" and lease: "mem_lease L i = Some (s, c)" and room: "mem_chargeable L s a"
  shows "unat (mem_spent (mem_settle L i a) s) = unat (mem_spent L s) + unat a"
    and "unat (mem_reserved (mem_settle L i a) s) + unat c = unat (mem_reserved L s)"
    and "mem_lease (mem_settle L i a) i = None"
proof -
  obtain r where r: "map_of (l_leases L) i = Some r" "r_scope r = s" "r_ceiling r = c"
    using lease by (auto simp: mem_lease_def)
  note settle = mem_settle_known [OF r(1), of a]
  show "unat (mem_spent (mem_settle L i a) s) = unat (mem_spent L s) + unat a"
    using room by (simp add: settle mem_spent_def mem_chargeable_def unat_add_exact r(2))
  show "mem_lease (mem_settle L i a) i = None"
    by (simp add: settle mem_lease_def map_of_alist_delete)
  have "unat c \<le> unat (mem_reserved L s)"
    using inv held_release [OF inv r(1), of s] r by (simp add: mem_inv_def)
  then show "unat (mem_reserved (mem_settle L i a) s) + unat c = unat (mem_reserved L s)"
    using mem_reserved_release [OF r(1), of s] r
    by (simp add: settle mem_reserved_def word_nat)
qed

lemma mem_settle_frame:
  assumes "mem_lease L i = Some (s, c)" and "t \<noteq> s"
  shows "mem_spent (mem_settle L i a) t = mem_spent L t"
    and "mem_reserved (mem_settle L i a) t = mem_reserved L t"
proof -
  obtain r where r: "map_of (l_leases L) i = Some r" "r_scope r = s"
    using assms(1) by (auto simp: mem_lease_def)
  show "mem_spent (mem_settle L i a) t = mem_spent L t"
    using assms(2) by (simp add: mem_settle_known [OF r(1)] mem_spent_def r(2))
  show "mem_reserved (mem_settle L i a) t = mem_reserved L t"
    using assms(2) mem_reserved_release [OF r(1), of t]
    by (simp add: mem_settle_known [OF r(1)] mem_reserved_def r(2))
qed

lemma fold_release_fields:
  "l_limits (fold mem_release is L) = l_limits L"
  "l_spent (fold mem_release is L) = l_spent L"
  "l_leases (fold mem_release is L) = filter (\<lambda>(i, _). i \<notin> set is) (l_leases L)"
  by (induction "is" arbitrary: L) (auto simp: AList.delete_eq intro!: filter_cong)

lemma fold_release_inv: "mem_inv L \<Longrightarrow> mem_inv (fold mem_release is L)"
  by (induction "is" arbitrary: L) (simp_all add: mem_release_inv)

section \<open>The in-memory ledger keeps the contract\<close>

lemma mem_reclaim_inv: "mem_inv L \<Longrightarrow> mem_inv (snd (mem_reclaim_expired L now))"
  by (simp add: mem_reclaim_expired_def fold_release_inv Let_def)

lemma mem_reclaim_fields:
  "l_limits (snd (mem_reclaim_expired L now)) = l_limits L"
  "l_spent (snd (mem_reclaim_expired L now)) = l_spent L"
  by (simp_all add: mem_reclaim_expired_def fold_release_fields Let_def)

lemma mem_reclaim_leases:
  assumes "mem_inv L"
  shows "l_leases (snd (mem_reclaim_expired L now)) =
    filter (\<lambda>(_, r). now < r_expires_at r) (l_leases L)"
proof -
  have "distinct (map fst (l_leases L))" using assms by (simp add: mem_inv_def)
  then have key: "i \<notin> set (map fst (filter (\<lambda>(_, r). r_expires_at r \<le> now) (l_leases L)))
      \<longleftrightarrow> now < r_expires_at r" if "(i, r) \<in> set (l_leases L)" for i r
    using that by (force dest: eq_key_imp_eq_value)
  show ?thesis
    unfolding mem_reclaim_expired_def Let_def snd_conv fold_release_fields
    by (rule filter_cong [OF refl]) (use key in \<open>auto simp del: set_map\<close>)
qed

lemma mem_reclaim_count:
  assumes "mem_inv L"
  shows "fst (mem_reclaim_expired L now) + active_leases (snd (mem_reclaim_expired L now))
    = active_leases L"
  using sum_length_filter_compl [of "\<lambda>(_, r). r_expires_at r \<le> now" "l_leases L"]
  by (simp add: active_leases_def mem_reclaim_leases [OF assms] not_le case_prod_unfold)
     (simp add: mem_reclaim_expired_def Let_def case_prod_unfold)

lemma mem_inv_held: "mem_inv L \<Longrightarrow> unat (mem_reserved L s) = held L s"
  by (simp add: mem_inv_def)

lemma held_perm: "mset (l_leases L) = mset (l_leases M) \<Longrightarrow> held L s = held M s"
  unfolding held_def by (rule sum_list_map_perm)

lemma mem_inv_perm:
  assumes "mem_inv L" and "mset xs = mset (l_leases L)"
  shows "mem_inv (L\<lparr>l_leases := xs\<rparr>)"
proof -
  have "distinct (map fst xs)" and "set xs = set (l_leases L)"
    using assms mset_eq_imp_distinct_iff [of "map fst xs" "map fst (l_leases L)"]
    by (auto simp: mem_inv_def dest: mset_eq_setD)
  moreover have "held (L\<lparr>l_leases := xs\<rparr>) s = held L s" for s
    using assms(2) by (intro held_perm) simp
  ultimately show ?thesis using assms(1) by (simp add: mem_inv_def mem_reserved_def)
qed

lemma held_filter_le:
  "held (L\<lparr>l_leases := filter P (l_leases L)\<rparr>) s \<le> held L s"
proof -
  have "sum_list (map f (filter P xs)) \<le> sum_list (map f xs)" for f :: "_ \<Rightarrow> nat" and xs
    by (induction xs) auto
  then show ?thesis by (simp add: held_def)
qed

lemma mem_reclaim_releases:
  assumes "mem_inv L"
  shows "unat (mem_reserved (snd (mem_reclaim_expired L now)) s) \<le> unat (mem_reserved L s)"
proof -
  have "held (snd (mem_reclaim_expired L now)) s \<le> held L s"
    using held_filter_le [of _ L s] mem_reclaim_leases [OF assms, of now]
    by (simp add: held_def)
  then show ?thesis
    using mem_reclaim_inv [OF assms, of now] assms by (simp add: mem_inv_def)
qed

interpretation mem: lease_ledger mem_inv mem_limit mem_spent mem_reserved mem_lease
  mem_fits mem_chargeable mem_reserve mem_settle mem_reclaim_expired
proof unfold_locales
  fix L s c now ttl r L' l i a t d
  show "mem_reserve L s c now ttl = (Inl d, L') \<Longrightarrow> L' = L"
    by (rule mem_reserve_denied)
  show "mem_limit (mem_settle L i a) = mem_limit L"
    by (cases "map_of (l_leases L) i")
       (auto simp: mem_limit_def mem_settle_def sub_reserved_def Let_def)
  show "mem_lease L i = None \<Longrightarrow> mem_settle L i a = L"
    by (rule mem_settle_unknown)
  assume inv: "mem_inv L"
  show "mem_inv (snd (mem_reclaim_expired L now))"
    using inv by (rule mem_reclaim_inv)
  show "mem_limit (snd (mem_reclaim_expired L now)) = mem_limit L \<and>
    mem_spent (snd (mem_reclaim_expired L now)) = mem_spent L"
    by (simp add: fun_eq_iff mem_limit_def mem_spent_def mem_reclaim_fields)
  show "unat (mem_reserved (snd (mem_reclaim_expired L now)) s) \<le> unat (mem_reserved L s)"
    using inv by (rule mem_reclaim_releases)
  show "mem_lease L i = Some (s, c) \<Longrightarrow> mem_chargeable L s a \<Longrightarrow> mem_inv (mem_settle L i a)"
    using inv by (rule mem_settle_inv)
  show "mem_lease L i = Some (s, c) \<Longrightarrow> mem_chargeable L s a \<Longrightarrow>
    unat (mem_spent (mem_settle L i a) s) = unat (mem_spent L s) + unat a \<and>
    unat (mem_reserved (mem_settle L i a) s) + unat c = unat (mem_reserved L s) \<and>
    mem_lease (mem_settle L i a) i = None"
    using mem_settle_charges [OF inv] by blast
  show "mem_lease L i = Some (s, c) \<Longrightarrow> t \<noteq> s \<Longrightarrow>
    mem_spent (mem_settle L i a) t = mem_spent L t \<and>
    mem_reserved (mem_settle L i a) t = mem_reserved L t"
    using mem_settle_frame by blast
  assume fits: "mem_fits L s c" and res: "mem_reserve L s c now ttl = (Inr r, L')"
  note L' = mem_reserve_admitted(1,2) [OF res]
  have grow: "unat (mem_reserved L' s) = unat (mem_reserved L s) + unat c"
    using mem_reserve_fits(1) [OF fits res] by (simp add: L' mem_reserved_admit unat_add_exact)
  show "mem_inv L'"
    using inv fits res by (rule mem_reserve_inv)
  show "mem_limit L' = mem_limit L \<and> mem_spent L' = mem_spent L \<and>
    (\<forall>t. t \<noteq> s \<longrightarrow> mem_reserved L' t = mem_reserved L t)"
    by (simp add: L' fun_eq_iff mem_limit_def mem_spent_def mem_reserved_admit admit_def)
       (simp add: mem_reserved_def)
  show "mem_lease L' (r_id r) = Some (s, c) \<and> unat c \<le> unat (mem_reserved L' s)"
    using grow by (simp add: L' mem_lease_def admit_def update_conv')
  show "mem_limit L s = Some l \<Longrightarrow> unat (mem_spent L s) + unat (mem_reserved L' s) \<le> unat l"
    using mem_reserve_fits(2) [OF fits res] grow by simp
qed

section \<open>Properties\<close>

text \<open>The operations of a history on the in-memory ledger.\<close>

abbreviation mem_step :: "in_memory_ledger \<Rightarrow> ledger_op \<Rightarrow> in_memory_ledger" where
  "mem_step \<equiv> ledger_step mem_reserve mem_settle mem_reclaim_expired"

abbreviation mem_run :: "in_memory_ledger \<Rightarrow> ledger_op list \<Rightarrow> in_memory_ledger" where
  "mem_run \<equiv> ledger_run mem_reserve mem_settle mem_reclaim_expired"

text \<open>
  C5: in every history of reservations, settlements and reclaims, what a capped scope has settled
  and holds together exceeds the cap by at most what the settlements charged above the ceilings of
  their leases; when no settlement exceeds its ceiling, the cap is never exceeded.
\<close>

theorem mem_run_committed:
  assumes "mem_inv L"
    and "in_range mem_lease mem_fits mem_chargeable mem_step L ops"
    and "mem_limit L s = Some l"
    and "unat (mem_spent L s) + unat (mem_reserved L s) \<le> unat l"
  shows "unat (mem_spent (mem_run L ops) s) + unat (mem_reserved (mem_run L ops) s)
       \<le> unat l + overshoot mem_lease mem_step L s ops"
  using mem.run_committed [of L ops s l 0] assms by simp

text \<open>A ledger with a cap of 100 on one scope, and a history in which one settlement overshoots.\<close>

definition ex_ledger :: in_memory_ledger where
  "ex_ledger = mem_set_limit mem_new ''team'' (Some 100)"

definition ex_ops :: "ledger_op list" where
  "ex_ops = [Reserve ''team'' 60 0 900, Reserve ''team'' 60 1 900, Settle 0 70,
             Reserve ''team'' 30 2 900, ReclaimExpired 901]"

lemma ex_ledger_inv: "mem_inv ex_ledger"
  by (simp add: ex_ledger_def mem_set_limit_inv mem_new_inv)

lemmas mem_eval_defs = ex_ledger_def ex_ops_def mem_new_def mem_set_limit_def mem_reserve_def
  mem_settle_def mem_reclaim_expired_def mem_release_def add_reserved_def sub_reserved_def
  mem_limit_def mem_spent_def mem_reserved_def mem_lease_def mem_fits_def mem_chargeable_def
  sat_add_def sat_sub_def Let_def

theorem mem_run_committed_witness:
  "mem_spent (mem_run ex_ledger ex_ops) ''team'' = 70 \<and>
   overshoot mem_lease mem_step ex_ledger ''team'' ex_ops = 10 \<and>
   unat (mem_spent (mem_run ex_ledger ex_ops) ''team'')
     + unat (mem_reserved (mem_run ex_ledger ex_ops) ''team'') \<le> unat (100 :: u64) + 10"
proof -
  have range: "in_range mem_lease mem_fits mem_chargeable mem_step ex_ledger ex_ops"
    by (simp add: mem_eval_defs)
  have over: "overshoot mem_lease mem_step ex_ledger ''team'' ex_ops = 10"
    by (simp add: mem_eval_defs)
  have cap: "mem_limit ex_ledger ''team'' = Some 100"
    "unat (mem_spent ex_ledger ''team'') + unat (mem_reserved ex_ledger ''team'') \<le> unat (100 :: u64)"
    by (simp_all add: mem_eval_defs)
  have "mem_spent (mem_run ex_ledger ex_ops) ''team'' = 70"
    by (simp add: mem_eval_defs)
  with mem_run_committed [OF ex_ledger_inv range cap] over show ?thesis by simp
qed



text \<open>
  C15: settling a reservation a second time changes nothing, whatever amount the repetition
  carries; so does settling an id that was never issued or was reclaimed.
\<close>

theorem mem_settle_idempotent:
  "mem_settle (mem_settle L i a) i b = mem_settle L i a \<and>
   (map_of (l_leases L) i = None \<longrightarrow> mem_settle L i a = L)"
proof -
  have "map_of (l_leases (mem_settle L i a)) i = None"
    by (cases "map_of (l_leases L) i")
       (simp_all add: mem_settle_known map_of_alist_delete, simp add: mem_settle_def)
  then show ?thesis using mem_settle_unknown by (simp add: mem_lease_def)
qed

theorem mem_settle_idempotent_witness:
  "mem_settle (mem_settle (mem_run ex_ledger ex_ops) 5 7) 5 9 = mem_run ex_ledger ex_ops"
proof -
  have "map_of (l_leases (mem_run ex_ledger ex_ops)) 5 = None"
    by (simp add: mem_eval_defs)
  then show ?thesis using mem_settle_idempotent [of "mem_run ex_ledger ex_ops" 5 7 9] by metis
qed

lemma mem_reclaim_expired_facts:
  assumes "mem_inv L" and "mem_reclaim_expired L now = (n, L')"
  shows "l_leases L' = filter (\<lambda>(_, r). now < r_expires_at r) (l_leases L)"
    and "n + active_leases L' = active_leases L"
    and "unat (mem_reserved L' s) =
      sum_list (map (\<lambda>(_, r). if r_scope r = s then unat (r_ceiling r) else 0)
        (filter (\<lambda>(_, r). now < r_expires_at r) (l_leases L)))"
    and "mem_spent L' = mem_spent L"
    and "mem_inv L'"
proof -
  have L': "L' = snd (mem_reclaim_expired L now)" by (simp add: assms(2))
  show leases: "l_leases L' = filter (\<lambda>(_, r). now < r_expires_at r) (l_leases L)"
    unfolding L' using assms(1) by (rule mem_reclaim_leases)
  show "n + active_leases L' = active_leases L"
    using mem_reclaim_count [OF assms(1), of now] by (simp add: assms(2))
  show inv: "mem_inv L'" unfolding L' using assms(1) by (rule mem_reclaim_inv)
  show "unat (mem_reserved L' s) =
      sum_list (map (\<lambda>(_, r). if r_scope r = s then unat (r_ceiling r) else 0)
        (filter (\<lambda>(_, r). now < r_expires_at r) (l_leases L)))"
    by (simp add: mem_inv_held [OF inv] held_def leases)
  show "mem_spent L' = mem_spent L"
    by (simp add: L' fun_eq_iff mem_spent_def mem_reclaim_fields)
qed

text \<open>
  C16: a reclaim removes exactly the leases whose expiry has been reached and reports their number;
  afterwards each scope holds the ceilings of its remaining leases, and no spend is recorded.
\<close>

theorem mem_reclaim_expired_correct:
  assumes "mem_inv L" and "mem_reclaim_expired L now = (n, L')"
  shows "l_leases L' = filter (\<lambda>(_, r). now < r_expires_at r) (l_leases L) \<and>
    n + active_leases L' = active_leases L \<and>
    unat (mem_reserved L' s) =
      sum_list (map (\<lambda>(_, r). if r_scope r = s then unat (r_ceiling r) else 0)
        (filter (\<lambda>(_, r). now < r_expires_at r) (l_leases L))) \<and>
    mem_spent L' = mem_spent L \<and> mem_inv L'"
  by (intro conjI mem_reclaim_expired_facts [OF assms])

text \<open>Two leases of the example scope, one of which expires at 900.\<close>

definition ex_two :: in_memory_ledger where
  "ex_two = mem_run ex_ledger [Reserve ''team'' 60 0 900, Reserve ''team'' 30 50 900]"

lemma ex_two_inv: "mem_inv ex_two"
proof -
  have "mem_inv (mem_step ex_ledger (Reserve ''team'' 60 0 900))"
    by (rule mem.step_inv [OF ex_ledger_inv]) (simp add: mem_eval_defs)
  then have "mem_inv (mem_step (mem_step ex_ledger (Reserve ''team'' 60 0 900))
      (Reserve ''team'' 30 50 900))"
    by (rule mem.step_inv) (simp add: mem_eval_defs)
  then show ?thesis by (simp add: ex_two_def)
qed

lemma ex_two_leases:
  "l_leases ex_two =
     [(0, \<lparr>r_id = 0, r_scope = ''team'', r_ceiling = 60, r_expires_at = 900\<rparr>),
      (1, \<lparr>r_id = 1, r_scope = ''team'', r_ceiling = 30, r_expires_at = 950\<rparr>)]"
  by (simp add: ex_two_def mem_eval_defs)

theorem mem_reclaim_expired_witness:
  "mem_reclaim_expired ex_two 900 = (1, snd (mem_reclaim_expired ex_two 900)) \<and>
   unat (mem_reserved (snd (mem_reclaim_expired ex_two 900)) ''team'') = 30 \<and>
   1 + active_leases (snd (mem_reclaim_expired ex_two 900)) = active_leases ex_two"
proof -
  have eq: "mem_reclaim_expired ex_two 900 = (1, snd (mem_reclaim_expired ex_two 900))"
    by (simp add: mem_reclaim_expired_def ex_two_leases Let_def)
  with mem_reclaim_expired_correct [OF ex_two_inv eq, of "''team''"] show ?thesis
    by (simp add: ex_two_leases)
qed

text \<open>
  The order in which the hash map yields its entries does not matter to a reclaim: from two
  ledgers that list the same leases in any two orders it reports the same count and leaves the same
  leases, caps, spend and held amounts.
\<close>

theorem mem_reclaim_order_irrelevant:
  assumes "mem_inv L" and "mset xs = mset (l_leases L)"
    and "mem_reclaim_expired L now = (n, L1)"
    and "mem_reclaim_expired (L\<lparr>l_leases := xs\<rparr>) now = (m, L2)"
  shows "n = m \<and> mset (l_leases L1) = mset (l_leases L2) \<and> l_limits L1 = l_limits L2 \<and>
    l_spent L1 = l_spent L2 \<and> mem_reserved L1 = mem_reserved L2"
proof -
  let ?M = "L\<lparr>l_leases := xs\<rparr>"
  have inv: "mem_inv ?M" using assms(1,2) by (rule mem_inv_perm)
  have leases: "mset (l_leases L1) = mset (l_leases L2)"
    using mem_reclaim_leases [OF assms(1), of now] mem_reclaim_leases [OF inv, of now] assms(2-4)
    by simp
  have "length (l_leases L1) = length (l_leases L2)" "length xs = length (l_leases L)"
    using leases assms(2) by (metis size_mset)+
  then have "n = m"
    using mem_reclaim_count [OF assms(1), of now] mem_reclaim_count [OF inv, of now] assms(3,4)
    by (simp add: active_leases_def)
  moreover have "mem_reserved L1 s = mem_reserved L2 s" for s
    using mem_reclaim_inv [OF assms(1), of now] mem_reclaim_inv [OF inv, of now] assms(3,4)
      held_perm [OF leases, of s]
    by (simp add: mem_inv_held word_unat_eq_iff)
  ultimately show ?thesis
    using leases mem_reclaim_fields [of L now] mem_reclaim_fields [of ?M now] assms(3,4)
    by (auto simp: fun_eq_iff)
qed

theorem mem_reclaim_order_irrelevant_witness:
  "fst (mem_reclaim_expired ex_two 900) =
     fst (mem_reclaim_expired (ex_two\<lparr>l_leases := rev (l_leases ex_two)\<rparr>) 900)"
  using mem_reclaim_order_irrelevant
    [OF ex_two_inv, of "rev (l_leases ex_two)" 900
      "fst (mem_reclaim_expired ex_two 900)" "snd (mem_reclaim_expired ex_two 900)"
      "fst (mem_reclaim_expired (ex_two\<lparr>l_leases := rev (l_leases ex_two)\<rparr>) 900)"
      "snd (mem_reclaim_expired (ex_two\<lparr>l_leases := rev (l_leases ex_two)\<rparr>) 900)"]
  by simp

text \<open>
  Concurrent leases overshoot independently. With a cap of 100, two admitted calls of 50 that
  each report 90 leave a settled spend of 180: above the cap by the overshoot of both calls, not of
  one.
\<close>

theorem mem_two_overshoots:
  "mem_spent (mem_run ex_ledger [Reserve ''team'' 50 0 900, Reserve ''team'' 50 0 900,
                                 Settle 0 90, Settle 1 90]) ''team'' = 180"
  by (simp add: mem_eval_defs)

text \<open>
  The held amount of a scope with no cap is added without saturation: two leases whose ceilings
  sum to \<open>2 ^ 64\<close> leave the counter at zero while both are outstanding.
\<close>

theorem mem_reserved_wraps_uncapped:
  "mem_reserved (mem_run mem_new [Reserve ''free'' (- 1) 0 900, Reserve ''free'' 1 0 900]) ''free'' = 0 \<and>
   active_leases (mem_run mem_new [Reserve ''free'' (- 1) 0 900, Reserve ''free'' 1 0 900]) = 2"
  by (simp add: mem_eval_defs active_leases_def)

end
