(* ===== verification/Budget.thy ===== *)
theory Budget
  imports Prelude
begin

text \<open>
  \<^verbatim>\<open>crates/sandhi-core/src/budget.rs\<close>: windows, policies and the rolling-window
  \<^verbatim>\<open>BudgetLedger\<close>. Every method that reads the wall clock takes the instant it read as the
  argument \<open>now\<close>.
\<close>

section \<open>Windows and policies\<close>

datatype window = Daily | Monthly | Total

definition window_default :: window where
  "window_default = Total"

definition window_parse :: "string \<Rightarrow> window" where
  "window_parse s =
     (let t = ascii_lower s in
      if t = ''daily'' then Daily else if t = ''monthly'' then Monthly else Total)"

text \<open>Spans are in nanoseconds, as instants are.\<close>

definition seconds :: "int \<Rightarrow> duration" where
  "seconds n = n * 1000000000"

fun window_duration :: "window \<Rightarrow> duration option" where
  "window_duration Daily = Some (seconds 86400)"
| "window_duration Monthly = Some (seconds (86400 * 30))"
| "window_duration Total = None"

fun window_as_str :: "window \<Rightarrow> string" where
  "window_as_str Daily = ''daily''"
| "window_as_str Monthly = ''monthly''"
| "window_as_str Total = ''total''"

datatype policy = Block | Warn

definition policy_default :: policy where
  "policy_default = Block"

definition policy_parse :: "string \<Rightarrow> policy" where
  "policy_parse s = (if ascii_lower s = ''warn'' then Warn else Block)"

fun policy_as_str :: "policy \<Rightarrow> string" where
  "policy_as_str Block = ''block''"
| "policy_as_str Warn = ''warn''"

section \<open>The ledger\<close>

record budget =
  b_token_limit :: "u64 option"
  b_window :: window
  b_policy :: policy

definition budget_tokens :: "u64 \<Rightarrow> budget" where
  "budget_tokens limit = \<lparr>b_token_limit = Some limit, b_window = Total, b_policy = Block\<rparr>"

definition budget_with :: "u64 \<Rightarrow> window \<Rightarrow> policy \<Rightarrow> budget" where
  "budget_with limit window policy =
     \<lparr>b_token_limit = Some limit, b_window = window, b_policy = policy\<rparr>"

record budget_exceeded =
  x_scope :: string
  x_limit :: u64
  x_spent :: u64
  x_requested :: u64

record budget_ledger =
  bl_limits :: "string \<rightharpoonup> budget"
  bl_spent :: "string \<rightharpoonup> u64"
  bl_reserved :: "string \<rightharpoonup> u64"
  bl_window_started_at :: "string \<rightharpoonup> instant"

definition budget_new :: budget_ledger where
  "budget_new = \<lparr>bl_limits = Map.empty, bl_spent = Map.empty, bl_reserved = Map.empty,
                 bl_window_started_at = Map.empty\<rparr>"

definition budget_set_limit :: "instant \<Rightarrow> budget_ledger \<Rightarrow> string \<Rightarrow> budget \<Rightarrow> budget_ledger" where
  "budget_set_limit now B scope budget =
     B\<lparr>bl_window_started_at := (bl_window_started_at B)(scope \<mapsto> now),
       bl_limits := (bl_limits B)(scope \<mapsto> budget)\<rparr>"

definition limit_of :: "budget_ledger \<Rightarrow> string \<Rightarrow> u64 option" where
  "limit_of B scope = (case bl_limits B scope of None \<Rightarrow> None | Some b \<Rightarrow> b_token_limit b)"

definition window_of :: "budget_ledger \<Rightarrow> string \<Rightarrow> window" where
  "window_of B scope =
     (case bl_limits B scope of None \<Rightarrow> window_default | Some b \<Rightarrow> b_window b)"

definition policy_of :: "budget_ledger \<Rightarrow> string \<Rightarrow> policy" where
  "policy_of B scope =
     (case bl_limits B scope of None \<Rightarrow> policy_default | Some b \<Rightarrow> b_policy b)"

text \<open>A counter map read with the default of an absent entry.\<close>

definition counter :: "(string \<rightharpoonup> u64) \<Rightarrow> string \<Rightarrow> u64" where
  "counter m scope = (case m scope of None \<Rightarrow> 0 | Some n \<Rightarrow> n)"

definition budget_refresh :: "instant \<Rightarrow> budget_ledger \<Rightarrow> string \<Rightarrow> budget_ledger" where
  "budget_refresh now B scope =
     (case bl_limits B scope of
        None \<Rightarrow> B
      | Some budget \<Rightarrow>
          (case window_duration (b_window budget) of
             None \<Rightarrow> B
           | Some duration \<Rightarrow>
               (let started = (case bl_window_started_at B scope of None \<Rightarrow> now | Some t \<Rightarrow> t);
                    B = B\<lparr>bl_window_started_at := (bl_window_started_at B)(scope \<mapsto> started)\<rparr>
                in if now - started \<ge> duration
                   then B\<lparr>bl_spent := (bl_spent B)(scope \<mapsto> 0),
                          bl_window_started_at := (bl_window_started_at B)(scope \<mapsto> now)\<rparr>
                   else B)))"

definition budget_spent :: "instant \<Rightarrow> budget_ledger \<Rightarrow> string \<Rightarrow> u64 \<times> budget_ledger" where
  "budget_spent now B scope =
     (let B = budget_refresh now B scope in (counter (bl_spent B) scope, B))"

definition budget_reserved :: "budget_ledger \<Rightarrow> string \<Rightarrow> u64" where
  "budget_reserved B scope = counter (bl_reserved B) scope"

definition budget_check ::
  "instant \<Rightarrow> budget_ledger \<Rightarrow> string \<Rightarrow> u64 \<Rightarrow> (budget_exceeded + unit) \<times> budget_ledger" where
  "budget_check now B scope add =
     (let B = budget_refresh now B scope in
      case bl_limits B scope of
        None \<Rightarrow> (Inr (), B)
      | Some budget \<Rightarrow>
          (case b_token_limit budget of
             None \<Rightarrow> (Inr (), B)
           | Some limit \<Rightarrow>
               (let spent = counter (bl_spent B) scope;
                    reserved = counter (bl_reserved B) scope;
                    projected = sat_add (sat_add spent reserved) add
                in if projected > limit \<and> b_policy budget = Block
                   then (Inl \<lparr>x_scope = scope, x_limit = limit, x_spent = spent,
                              x_requested = add\<rparr>, B)
                   else (Inr (), B))))"

definition budget_reserve ::
  "instant \<Rightarrow> budget_ledger \<Rightarrow> string \<Rightarrow> u64 \<Rightarrow> (budget_exceeded + unit) \<times> budget_ledger" where
  "budget_reserve now B scope tokens =
     (case budget_check now B scope tokens of
        (Inl e, B) \<Rightarrow> (Inl e, B)
      | (Inr _, B) \<Rightarrow>
          (Inr (), B\<lparr>bl_reserved :=
             (bl_reserved B)(scope \<mapsto> counter (bl_reserved B) scope + tokens)\<rparr>))"

definition budget_record_internal :: "budget_ledger \<Rightarrow> string \<Rightarrow> u64 \<Rightarrow> budget_ledger" where
  "budget_record_internal B scope tokens =
     B\<lparr>bl_spent := (bl_spent B)(scope \<mapsto> counter (bl_spent B) scope + tokens)\<rparr>"

definition budget_release :: "budget_ledger \<Rightarrow> string \<Rightarrow> u64 \<Rightarrow> budget_ledger" where
  "budget_release B scope reserved =
     B\<lparr>bl_reserved := (bl_reserved B)(scope \<mapsto> sat_sub (counter (bl_reserved B) scope) reserved)\<rparr>"

definition budget_reconcile ::
  "instant \<Rightarrow> budget_ledger \<Rightarrow> string \<Rightarrow> u64 \<Rightarrow> u64 \<Rightarrow> budget_ledger" where
  "budget_reconcile now B scope reserved actual =
     (let B = budget_refresh now B scope;
          B = B\<lparr>bl_reserved :=
                 (bl_reserved B)(scope \<mapsto> sat_sub (counter (bl_reserved B) scope) reserved)\<rparr>
      in budget_record_internal B scope actual)"

definition budget_record :: "instant \<Rightarrow> budget_ledger \<Rightarrow> string \<Rightarrow> u64 \<Rightarrow> budget_ledger" where
  "budget_record now B scope tokens =
     budget_record_internal (budget_refresh now B scope) scope tokens"

section \<open>Refreshing the window\<close>

lemma window_duration_pos: "window_duration w = Some d \<Longrightarrow> 0 < d"
  by (cases w) (auto simp: seconds_def)

lemma budget_refresh_frame [simp]:
  "bl_limits (budget_refresh now B scope) = bl_limits B"
  "bl_reserved (budget_refresh now B scope) = bl_reserved B"
  "t \<noteq> scope \<Longrightarrow> bl_spent (budget_refresh now B scope) t = bl_spent B t"
  by (auto simp: budget_refresh_def Let_def split: option.splits)

lemma budget_refresh_idem:
  "budget_refresh now (budget_refresh now B scope) scope = budget_refresh now B scope"
  by (auto simp: budget_refresh_def Let_def dest!: window_duration_pos split: option.splits)

lemma budget_check_state: "snd (budget_check now B scope add) = budget_refresh now B scope"
  by (simp add: budget_check_def Let_def split: option.splits)

lemma budget_check_Inr:
  assumes "fst (budget_check now B scope add) = Inr u"
    and "bl_limits B scope = Some b" "b_token_limit b = Some l" "b_policy b = Block"
  shows "sat_add (sat_add (counter (bl_spent (budget_refresh now B scope)) scope)
    (counter (bl_reserved B) scope)) add \<le> l"
  using assms by (auto simp: budget_check_def Let_def not_less split: if_splits)

lemma budget_reserve_Inr:
  assumes "budget_reserve now B scope c = (Inr u, B')"
  shows "fst (budget_check now B scope c) = Inr ()"
    and "B' = (budget_refresh now B scope)\<lparr>bl_reserved :=
          (bl_reserved B)(scope \<mapsto> counter (bl_reserved B) scope + c)\<rparr>"
  using assms budget_check_state [of now B scope c]
  by (auto simp: budget_reserve_def split: prod.splits sum.splits)

lemma budget_reserve_Inl:
  assumes "budget_reserve now B scope c = (Inl e, B')"
  shows "B' = budget_refresh now B scope"
    and "\<exists>b l. bl_limits B scope = Some b \<and> b_token_limit b = Some l \<and> b_policy b = Block"
  using assms budget_check_state [of now B scope c]
  by (auto simp: budget_reserve_def budget_check_def Let_def split: prod.splits sum.splits
      option.splits if_splits)

lemma budget_reserve_refusal:
  assumes "budget_reserve now B scope c = (Inl e, B')"
  shows "x_scope e = scope \<and> limit_of B scope = Some (x_limit e) \<and> x_requested e = c \<and>
    x_spent e = fst (budget_spent now B scope) \<and>
    x_limit e < sat_add (sat_add (x_spent e) (budget_reserved B scope)) c"
  using assms
  by (auto simp: budget_reserve_def budget_check_def limit_of_def budget_spent_def
      budget_reserved_def Let_def split: prod.splits sum.splits option.splits if_splits)

lemmas budget_ops = budget_reconcile_def budget_release_def budget_record_def
  budget_record_internal_def budget_reserved_def budget_spent_def budget_set_limit_def Let_def

section \<open>Interleaved calls\<close>

text \<open>
  The calls of one scope as a state machine: the ledger and the reservations in flight. A call
  reserves, and later reconciles or releases the amount it reserved; calls interleave freely with
  each other, with the calls of other scopes, with recorded usage and with reads. The clock may
  return any instant.
\<close>

inductive budget_step ::
  "string \<Rightarrow> budget_ledger \<times> u64 multiset \<Rightarrow> budget_ledger \<times> u64 multiset \<Rightarrow> bool"
  for scope :: string where
  Reserved: "\<lbrakk>budget_reserve now B scope c = (Inr u, B');
      (\<Sum>c\<in>#M. unat c) + unat c < 2 ^ 64\<rbrakk> \<Longrightarrow>
    budget_step scope (B, M) (B', add_mset c M)"
| Refused: "budget_reserve now B scope c = (Inl e, B') \<Longrightarrow> budget_step scope (B, M) (B', M)"
| Reconciled: "c \<in># M \<Longrightarrow>
    budget_step scope (B, M) (budget_reconcile now B scope c actual, M - {#c#})"
| Released: "c \<in># M \<Longrightarrow> budget_step scope (B, M) (budget_release B scope c, M - {#c#})"
| Recorded: "budget_step scope (B, M) (budget_record now B scope tokens, M)"
| Spent: "budget_step scope (B, M) (snd (budget_spent now B scope), M)"
| Limited: "budget_step scope (B, M) (budget_set_limit now B t budget, M)"
| OtherReserve: "t \<noteq> scope \<Longrightarrow> budget_step scope (B, M) (snd (budget_reserve now B t c), M)"
| OtherReconcile: "t \<noteq> scope \<Longrightarrow> budget_step scope (B, M) (budget_reconcile now B t c a, M)"
| OtherRelease: "t \<noteq> scope \<Longrightarrow> budget_step scope (B, M) (budget_release B t c, M)"

definition in_flight :: "string \<Rightarrow> budget_ledger \<times> u64 multiset \<Rightarrow> bool" where
  "in_flight scope = (\<lambda>(B, M). unat (budget_reserved B scope) = (\<Sum>c\<in>#M. unat c))"

lemma sum_mset_remove:
  "c \<in># M \<Longrightarrow> (\<Sum>c\<in>#M. unat c) = unat c + (\<Sum>c\<in>#M - {#c#}. unat (c :: u64))"
  by (metis image_mset_add_mset insert_DiffM sum_mset.insert)

lemma budget_step_in_flight:
  assumes "budget_step scope x y" and "in_flight scope x"
  shows "in_flight scope y"
  using assms
proof (cases rule: budget_step.cases)
  case (Reserved now B c u B' M)
  then show ?thesis
    using assms(2) budget_reserve_Inr(2) [OF Reserved(3)]
    by (simp add: in_flight_def budget_ops counter_def unat_add_exact)
next
  case (Refused now B c e B' M)
  then show ?thesis
    using assms(2) budget_reserve_Inl(1) [OF Refused(3)] by (simp add: in_flight_def budget_ops)
next
  case (OtherReserve t B M now c)
  then show ?thesis
    using assms(2) budget_check_state [of now B t c]
    by (auto simp: in_flight_def budget_ops budget_reserve_def counter_def
        split: prod.splits sum.splits)
qed (use assms(2) in \<open>auto simp: in_flight_def budget_ops counter_def word_nat sum_mset_remove\<close>)

section \<open>Properties\<close>


lemma budget_reserve_within:
  assumes "budget_reserve now B scope c = (res, B')"
  shows "\<lbrakk>res = Inr u; policy_of B scope = Block; limit_of B scope = Some l; l \<noteq> - 1\<rbrakk> \<Longrightarrow>
      unat (counter (bl_spent B') scope) + unat (budget_reserved B' scope) \<le> unat l"
    and "policy_of B scope = Warn \<or> limit_of B scope = None \<Longrightarrow> res = Inr ()"
proof -
  assume a: "res = Inr u" "policy_of B scope = Block" "limit_of B scope = Some l" "l \<noteq> - 1"
  then obtain b where b: "bl_limits B scope = Some b" "b_token_limit b = Some l" "b_policy b = Block"
    by (auto simp: limit_of_def policy_of_def split: option.splits)
  have "fst (budget_check now B scope c) = Inr ()"
    using budget_reserve_Inr(1) assms a(1) by blast
  from budget_check_Inr [OF this b] a(4)
  have fits: "unat (counter (bl_spent (budget_refresh now B scope)) scope)
      + unat (counter (bl_reserved B) scope) + unat c \<le> unat l"
    by (auto simp: sat_add_le_iff word_unat_eq_iff unat_max_word)
  then have "unat (counter (bl_reserved B) scope) + unat c < 2 ^ 64"
    using unat_lt_pow [of l] by simp
  with fits show "unat (counter (bl_spent B') scope) + unat (budget_reserved B' scope) \<le> unat l"
    using budget_reserve_Inr(2) [OF assms [unfolded a(1)]]
    by (simp add: budget_reserved_def counter_def unat_add_exact)
next
  assume "policy_of B scope = Warn \<or> limit_of B scope = None"
  then show "res = Inr ()"
    using budget_reserve_Inl(2) [of now B scope c _ B'] assms
    by (cases res) (auto simp: policy_of_def limit_of_def)
qed

lemma budget_window_facts:
  assumes "window_duration (window_of B scope) = Some d" and "bl_window_started_at B scope = Some t"
  shows "fst (budget_spent now B scope) = (if now - t \<ge> d then 0 else counter (bl_spent B) scope)"
    and "bl_window_started_at (snd (budget_spent now B scope)) scope =
      Some (if now - t \<ge> d then now else t)"
    and "budget_reserved (snd (budget_spent now B scope)) scope = budget_reserved B scope"
    and "budget_spent now (snd (budget_spent now B scope)) scope = budget_spent now B scope"
proof -
  obtain b where "bl_limits B scope = Some b" "window_duration (b_window b) = Some d"
    using assms(1) by (auto simp: window_of_def window_default_def split: option.splits)
  with assms(2)
  show "fst (budget_spent now B scope) = (if now - t \<ge> d then 0 else counter (bl_spent B) scope)"
    and "bl_window_started_at (snd (budget_spent now B scope)) scope =
      Some (if now - t \<ge> d then now else t)"
    by (simp_all add: budget_spent_def budget_refresh_def counter_def Let_def)
qed (simp_all add: budget_ops budget_refresh_idem)

text \<open>
  C28: under the blocking policy an accepted reservation leaves the spend of the current window and
  the reserved tokens within the limit; a refusal changes nothing but the window and reports the
  limit, the spend of the current window and the request, which with the tokens in flight exceed
  it; a scope with no limit or with the warning policy is never refused.
\<close>

theorem budget_reserve_enforces:
  assumes "budget_reserve now B scope c = (res, B')"
  shows "case res of
      Inr _ \<Rightarrow>
        policy_of B scope = Block \<and> limit_of B scope = Some l \<and> l \<noteq> - 1 \<longrightarrow>
          unat (counter (bl_spent B') scope) + unat (budget_reserved B' scope) \<le> unat l
    | Inl e \<Rightarrow>
        policy_of B scope = Block \<and> limit_of B scope = Some (x_limit e) \<and> x_scope e = scope \<and>
        x_requested e = c \<and> x_spent e = fst (budget_spent now B scope) \<and>
        x_limit e < sat_add (sat_add (x_spent e) (budget_reserved B scope)) c \<and>
        B' = budget_refresh now B scope"
proof (cases res)
  case (Inl e)
  with assms have "budget_reserve now B scope c = (Inl e, B')" by simp
  with budget_reserve_refusal [OF this] budget_reserve_Inl [OF this] Inl show ?thesis
    by (auto simp: policy_of_def)
next
  case (Inr u)
  with budget_reserve_within(1) [OF assms Inr, of l] show ?thesis by simp
qed

text \<open>
  C29: a read of a windowed scope reports zero and opens a new window at the instant of the read once
  the window's duration has passed since it began, and the counter accrued so far before that; the
  tokens in flight are kept either way. A second read at the same instant changes nothing more.
\<close>

theorem budget_window_rolls:
  assumes "window_duration (window_of B scope) = Some d" and "bl_window_started_at B scope = Some t"
  shows "fst (budget_spent now B scope) = (if now - t \<ge> d then 0 else counter (bl_spent B) scope) \<and>
    bl_window_started_at (snd (budget_spent now B scope)) scope =
      Some (if now - t \<ge> d then now else t) \<and>
    budget_reserved (snd (budget_spent now B scope)) scope = budget_reserved B scope \<and>
    budget_spent now (snd (budget_spent now B scope)) scope = budget_spent now B scope"
  by (intro conjI budget_window_facts [OF assms])

text \<open>
  The wire spellings of windows and policies read back as the value that wrote them, in any
  ASCII letter case.
\<close>

theorem window_policy_round_trip:
  "window_parse (window_as_str w) = w \<and> policy_parse (policy_as_str p) = p \<and>
   (eq_ignore_ascii_case s t \<longrightarrow> window_parse s = window_parse t \<and> policy_parse s = policy_parse t)"
  by (cases w; cases p)
     (simp_all add: window_parse_def policy_parse_def eq_ignore_ascii_case_def Let_def
       ascii_lower_def ascii_lower_char_def less_eq_char_def)

text \<open>A scope with a daily limit of 100 set at instant 0, and a call of 60 tokens on it.\<close>

definition ex_budget :: budget_ledger where
  "ex_budget = budget_set_limit 0 budget_new ''team'' (budget_with 100 Daily Block)"

lemmas budget_eval_defs = ex_budget_def budget_new_def budget_with_def budget_set_limit_def
  budget_reserve_def budget_check_def budget_refresh_def budget_reconcile_def budget_release_def
  budget_record_internal_def budget_spent_def budget_reserved_def counter_def window_of_def
  policy_of_def limit_of_def seconds_def sat_add_def sat_sub_def Let_def


theorem budget_reserve_enforces_witness:
  "budget_reserve 1 ex_budget ''team'' 60 = (Inr (), snd (budget_reserve 1 ex_budget ''team'' 60)) \<and>
   unat (counter (bl_spent (snd (budget_reserve 1 ex_budget ''team'' 60))) ''team'')
     + unat (budget_reserved (snd (budget_reserve 1 ex_budget ''team'' 60)) ''team'')
     \<le> unat (100 :: u64)"
proof -
  have eq: "budget_reserve 1 ex_budget ''team'' 60 =
      (Inr (), snd (budget_reserve 1 ex_budget ''team'' 60))"
    and cfg: "policy_of ex_budget ''team'' = Block" "limit_of ex_budget ''team'' = Some 100"
    by (simp_all add: budget_eval_defs)
  with budget_reserve_enforces [OF eq, of 100] show ?thesis by simp
qed

theorem budget_window_rolls_witness:
  "fst (budget_spent (seconds 86400) (budget_record 5 ex_budget ''team'' 70) ''team'') = 0 \<and>
   fst (budget_spent (seconds 86399) (budget_record 5 ex_budget ''team'' 70) ''team'') = 70"
proof -
  let ?B = "budget_record 5 ex_budget ''team'' 70"
  have w: "window_duration (window_of ?B ''team'') = Some (seconds 86400)"
    and t: "bl_window_started_at ?B ''team'' = Some 0"
    and s: "counter (bl_spent ?B) ''team'' = 70"
    by (simp_all add: budget_eval_defs budget_record_def)
  show ?thesis
    using budget_window_rolls [OF w t, of "seconds 86400"]
      budget_window_rolls [OF w t, of "seconds 86399"] s
    by (simp add: seconds_def)
qed

theorem window_policy_round_trip_witness:
  "eq_ignore_ascii_case ''Daily'' ''dAILY'' \<and> window_parse ''Daily'' = window_parse ''dAILY''"
proof -
  have "eq_ignore_ascii_case ''Daily'' ''dAILY''" by code_simp
  then show ?thesis using window_policy_round_trip [of Daily Block "''Daily''" "''dAILY''"] by simp
qed

end
