(* ===== verification/Line_Split.thy ===== *)
theory Line_Split
  imports Prelude
begin

text \<open>
  \<^verbatim>\<open>crates/sandhi-providers/src/linesplit.rs\<close>: the bounded line splitter under every
  streaming decoder. The record has the fields of \<^verbatim>\<open>LineSplitter\<close>, the two cost counters
  the source compiles for its tests included; buffer positions and lengths are naturals.
  A reference splitter over the whole byte stream says what the lines of a stream are; the
  splitter's lines are those of the reference however the stream is cut into chunks, and its work
  is linear in the bytes it receives.
\<close>

section \<open>State and operations\<close>

record line_splitter =
  ls_buf :: "u8 list"
  ls_consumed :: nat
  ls_searched_to :: nat
  ls_budget :: nat
  ls_sse :: bool
  ls_skip_lf :: bool
  ls_scanned :: nat
  ls_compacted :: nat

definition LF :: u8 where "LF = 10"
definition CR :: u8 where "CR = 13"

definition splitter_new :: "nat \<Rightarrow> line_splitter" where
  "splitter_new budget =
     \<lparr>ls_buf = [], ls_consumed = 0, ls_searched_to = 0, ls_budget = budget, ls_sse = False,
      ls_skip_lf = False, ls_scanned = 0, ls_compacted = 0\<rparr>"

definition splitter_new_sse :: "nat \<Rightarrow> line_splitter" where
  "splitter_new_sse budget = (splitter_new budget)\<lparr>ls_sse := True\<rparr>"

definition push :: "line_splitter \<Rightarrow> u8 list \<Rightarrow> line_splitter" where
  "push s chunk = s\<lparr>ls_buf := ls_buf s @ chunk\<rparr>"

definition compact_if_worthwhile :: "line_splitter \<Rightarrow> line_splitter" where
  "compact_if_worthwhile s =
     (if ls_consumed s \<ge> 4096 \<and> ls_consumed s * 2 \<ge> length (ls_buf s)
      then s\<lparr>ls_compacted := ls_compacted s + (length (ls_buf s) - ls_consumed s),
             ls_buf := drop (ls_consumed s) (ls_buf s),
             ls_searched_to := ls_searched_to s - ls_consumed s,
             ls_consumed := 0\<rparr>
      else s)"

text \<open>The terminator test of the search.\<close>

definition terminator :: "bool \<Rightarrow> u8 \<Rightarrow> bool" where
  "terminator sse b \<longleftrightarrow> b = LF \<or> (sse \<and> b = CR)"

text \<open>The first block of \<^verbatim>\<open>next_line\<close>: the line feed that belongs to a delivered carriage return.\<close>

definition skip_pending_lf :: "line_splitter \<Rightarrow> line_splitter" where
  "skip_pending_lf s =
     (if ls_skip_lf s \<and> ls_consumed s < length (ls_buf s)
      then (let s = (if ls_buf s ! ls_consumed s = LF
                     then s\<lparr>ls_consumed := ls_consumed s + 1,
                            ls_searched_to := ls_consumed s + 1,
                            ls_scanned := ls_scanned s + 1\<rparr>
                     else s)
            in compact_if_worthwhile (s\<lparr>ls_skip_lf := False\<rparr>))
      else s)"

definition next_line :: "line_splitter \<Rightarrow> u8 list option \<times> line_splitter" where
  "next_line s0 =
     (let s = skip_pending_lf s0 in
      if ls_searched_to s \<ge> length (ls_buf s) then (None, s)
      else
        (let found = position (terminator (ls_sse s)) (drop (ls_searched_to s) (ls_buf s));
             examined = (case found of
                           Some rel \<Rightarrow> rel + 1
                         | None \<Rightarrow> length (ls_buf s) - ls_searched_to s);
             s = s\<lparr>ls_scanned := ls_scanned s + examined\<rparr>
         in case found of
              Some rel \<Rightarrow>
                (let newline = ls_searched_to s + rel;
                     s = s\<lparr>ls_skip_lf := ls_sse s \<and> ls_buf s ! newline = CR\<rparr>;
                     line = drop (ls_consumed s) (take (newline + 1) (ls_buf s));
                     s = s\<lparr>ls_consumed := newline + 1, ls_searched_to := newline + 1\<rparr>
                 in (Some line, compact_if_worthwhile s))
            | None \<Rightarrow> (None, s\<lparr>ls_searched_to := length (ls_buf s)\<rparr>)))"

definition over_budget :: "line_splitter \<Rightarrow> bool" where
  "over_budget s \<longleftrightarrow> length (ls_buf s) - ls_consumed s > ls_budget s"

definition splitter_reset :: "line_splitter \<Rightarrow> line_splitter" where
  "splitter_reset s =
     s\<lparr>ls_buf := [], ls_consumed := 0, ls_searched_to := 0, ls_skip_lf := False\<rparr>"

definition remainder :: "line_splitter \<Rightarrow> u8 list" where
  "remainder s = drop (ls_consumed s) (ls_buf s)"

definition flush_newline :: "line_splitter \<Rightarrow> bool \<times> line_splitter" where
  "flush_newline s =
     (if ls_searched_to s < length (ls_buf s) \<and> LF \<in> set (drop (ls_searched_to s) (ls_buf s))
      then (True, s)
      else
        (let s = (if ls_searched_to s < length (ls_buf s)
                  then s\<lparr>ls_searched_to := length (ls_buf s)\<rparr> else s)
         in if ls_consumed s \<ge> length (ls_buf s) then (False, s)
            else (True, s\<lparr>ls_buf := ls_buf s @ [LF], ls_searched_to := length (ls_buf s)\<rparr>)))"

definition buffered_len :: "line_splitter \<Rightarrow> nat" where
  "buffered_len s = length (ls_buf s) - ls_consumed s"

definition work_done :: "line_splitter \<Rightarrow> nat" where
  "work_done s = ls_scanned s + ls_compacted s"

text \<open>
  The loop of every caller, \<^verbatim>\<open>while let Some(line) = next_line()\<close>. Each delivered line
  takes at least one byte off the buffer, so one round more than the buffer is long reaches the
  round that delivers nothing (\<open>drain_complete\<close> below).
\<close>

fun drain_rounds :: "nat \<Rightarrow> line_splitter \<Rightarrow> u8 list list \<times> line_splitter" where
  "drain_rounds 0 s = ([], s)"
| "drain_rounds (Suc n) s =
     (case next_line s of
        (None, s) \<Rightarrow> ([], s)
      | (Some line, s) \<Rightarrow> (case drain_rounds n s of (ls, s) \<Rightarrow> (line # ls, s)))"

definition drain :: "line_splitter \<Rightarrow> u8 list list \<times> line_splitter" where
  "drain s = drain_rounds (Suc (length (ls_buf s))) s"

fun feed :: "line_splitter \<Rightarrow> u8 list list \<Rightarrow> u8 list list \<times> line_splitter" where
  "feed s [] = ([], s)"
| "feed s (c # cs) =
     (case drain (push s c) of
        (ls, s) \<Rightarrow> (case feed s cs of (ls', s) \<Rightarrow> (ls @ ls', s)))"

section \<open>The reference splitter\<close>

text \<open>
  The lines of a byte stream: a line ends at a line feed or, in SSE framing, at a carriage return,
  whose following line feed belongs to it. The result is the complete lines, the bytes after the
  last of them, and whether a carriage return ended it.
\<close>

fun split_ref :: "bool \<Rightarrow> bool \<Rightarrow> u8 list \<Rightarrow> u8 list \<Rightarrow> u8 list list \<times> u8 list \<times> bool" where
  "split_ref sse skip acc [] = ([], acc, skip)"
| "split_ref sse skip acc (b # bs) =
     (if skip \<and> b = LF then split_ref sse False acc bs
      else if terminator sse b
      then (case split_ref sse (sse \<and> b = CR) [] bs of (ls, r) \<Rightarrow> ((acc @ [b]) # ls, r))
      else split_ref sse False (acc @ [b]) bs)"

lemma split_ref_append:
  "split_ref sse skip acc (xs @ ys) =
     (case split_ref sse skip acc xs of
        (ls, acc', skip') \<Rightarrow>
          (case split_ref sse skip' acc' ys of (ls', r) \<Rightarrow> (ls @ ls', r)))"
  by (induction sse skip acc xs rule: split_ref.induct) (auto split: prod.splits)

lemma split_ref_plain:
  "\<forall>b \<in> set xs. \<not> terminator sse b \<Longrightarrow>
     split_ref sse False acc (xs @ ys) = split_ref sse False (acc @ xs) ys"
  by (induction xs arbitrary: acc) auto

section \<open>The splitter refines the reference\<close>

text \<open>
  The cursors are in order, no terminator lies between them, and a pending line feed is looked for
  right behind the delivered carriage return.
\<close>

definition wf_splitter :: "line_splitter \<Rightarrow> bool" where
  "wf_splitter s \<longleftrightarrow>
     ls_consumed s \<le> ls_searched_to s \<and> ls_searched_to s \<le> length (ls_buf s) \<and>
     (\<forall>b \<in> set (drop (ls_consumed s) (take (ls_searched_to s) (ls_buf s))). \<not> terminator (ls_sse s) b) \<and>
     (ls_skip_lf s \<longrightarrow> ls_searched_to s = ls_consumed s)"

lemma compact_fields [simp]:
  "ls_sse (compact_if_worthwhile s) = ls_sse s"
  "ls_skip_lf (compact_if_worthwhile s) = ls_skip_lf s"
  "ls_budget (compact_if_worthwhile s) = ls_budget s"
  "ls_scanned (compact_if_worthwhile s) = ls_scanned s"
  "remainder (compact_if_worthwhile s) = remainder s"
  by (simp_all add: compact_if_worthwhile_def remainder_def)

lemma compact_wf: "wf_splitter s \<Longrightarrow> wf_splitter (compact_if_worthwhile s)"
  by (auto simp: wf_splitter_def compact_if_worthwhile_def take_drop)

lemma push_fields [simp]:
  "ls_sse (push s c) = ls_sse s" "ls_skip_lf (push s c) = ls_skip_lf s"
  "ls_budget (push s c) = ls_budget s"
  by (simp_all add: push_def)

lemma push_remainder: "wf_splitter s \<Longrightarrow> remainder (push s c) = remainder s @ c"
  by (simp add: push_def remainder_def wf_splitter_def)

lemma push_wf: "wf_splitter s \<Longrightarrow> wf_splitter (push s c)"
  by (simp add: push_def wf_splitter_def)

lemma skip_pending_lf_ref:
  assumes "wf_splitter s"
  shows "wf_splitter (skip_pending_lf s)"
    and "ls_sse (skip_pending_lf s) = ls_sse s"
    and "ls_skip_lf (skip_pending_lf s) \<longrightarrow> remainder (skip_pending_lf s) = []"
    and "split_ref (ls_sse s) (ls_skip_lf s) [] (remainder s) =
      split_ref (ls_sse s) (ls_skip_lf (skip_pending_lf s)) [] (remainder (skip_pending_lf s))"
    and "length (remainder (skip_pending_lf s)) \<le> length (remainder s)"
proof -
  let ?active = "ls_skip_lf s \<and> ls_consumed s < length (ls_buf s)"
  let ?s1 = "if ls_buf s ! ls_consumed s = LF
    then s\<lparr>ls_consumed := ls_consumed s + 1, ls_searched_to := ls_consumed s + 1,
           ls_scanned := ls_scanned s + 1\<rparr> else s"
  let ?s2 = "?s1\<lparr>ls_skip_lf := False\<rparr>"
  have eq: "skip_pending_lf s = (if ?active then compact_if_worthwhile ?s2 else s)"
    by (simp add: skip_pending_lf_def Let_def)
  have wf2: "wf_splitter ?s2" if ?active
    using assms that by (auto simp: wf_splitter_def)
  then show "wf_splitter (skip_pending_lf s)"
    using assms by (simp add: eq compact_wf)
  show "ls_sse (skip_pending_lf s) = ls_sse s" by (simp add: eq)
  show "ls_skip_lf (skip_pending_lf s) \<longrightarrow> remainder (skip_pending_lf s) = []"
    by (auto simp: eq remainder_def split: if_splits)
  have rem: "remainder s = ls_buf s ! ls_consumed s # drop (Suc (ls_consumed s)) (ls_buf s)" if ?active
    using that by (simp add: remainder_def Cons_nth_drop_Suc)
  have rem2: "remainder ?s2 =
      (if ls_buf s ! ls_consumed s = LF then drop (Suc (ls_consumed s)) (ls_buf s) else remainder s)"
    by (simp add: remainder_def)
  show "split_ref (ls_sse s) (ls_skip_lf s) [] (remainder s) =
      split_ref (ls_sse s) (ls_skip_lf (skip_pending_lf s)) [] (remainder (skip_pending_lf s))"
    using rem rem2 by (auto simp: eq)
  show "length (remainder (skip_pending_lf s)) \<le> length (remainder s)"
    using rem2 by (auto simp: eq) (auto simp: remainder_def)
qed

text \<open>The three ways \<^const>\<open>next_line\<close> ends, over the state after the pending line feed.\<close>

lemma next_line_cases:
  assumes "next_line s = (res, s')" and "u = skip_pending_lf s"
  obtains (Searched) "length (ls_buf u) \<le> ls_searched_to u" "res = None" "s' = u"
  | (Missing) n where "ls_searched_to u < length (ls_buf u)"
      "\<forall>b \<in> set (drop (ls_searched_to u) (ls_buf u)). \<not> terminator (ls_sse u) b"
      "res = None" "s' = u\<lparr>ls_scanned := n, ls_searched_to := length (ls_buf u)\<rparr>"
      "n = ls_scanned u + (length (ls_buf u) - ls_searched_to u)"
  | (Found) k n v where
      "position (terminator (ls_sse u)) (drop (ls_searched_to u) (ls_buf u)) = Some k"
      "v = u\<lparr>ls_scanned := n, ls_skip_lf := ls_sse u \<and> ls_buf u ! (ls_searched_to u + k) = CR,
             ls_consumed := ls_searched_to u + k + 1, ls_searched_to := ls_searched_to u + k + 1\<rparr>"
      "res = Some (drop (ls_consumed u) (take (ls_searched_to u + k + 1) (ls_buf u)))"
      "s' = compact_if_worthwhile v" "n = ls_scanned u + (k + 1)"
proof -
  let ?n = "\<lambda>k. ls_searched_to u + k + 1"
  have nl: "next_line s =
    (if length (ls_buf u) \<le> ls_searched_to u then (None, u)
     else case position (terminator (ls_sse u)) (drop (ls_searched_to u) (ls_buf u)) of
            None \<Rightarrow> (None, u\<lparr>ls_scanned := ls_scanned u + (length (ls_buf u) - ls_searched_to u),
                            ls_searched_to := length (ls_buf u)\<rparr>)
          | Some k \<Rightarrow> (Some (drop (ls_consumed u) (take (?n k) (ls_buf u))),
              compact_if_worthwhile (u\<lparr>ls_scanned := ls_scanned u + (k + 1),
                ls_skip_lf := ls_sse u \<and> ls_buf u ! (ls_searched_to u + k) = CR,
                ls_consumed := ?n k, ls_searched_to := ?n k\<rparr>)))"
    by (simp add: next_line_def Let_def assms(2) split: option.split)
  show thesis
  proof (cases "length (ls_buf u) \<le> ls_searched_to u")
    case True
    with nl assms(1) have "res = None" "s' = u" by simp_all
    with True show thesis by (rule that(1))
  next
    case False
    show thesis
    proof (cases "position (terminator (ls_sse u)) (drop (ls_searched_to u) (ls_buf u))")
      case None
      with nl False assms(1) show thesis
        by (intro that(2)) (auto simp: position_None_iff)
    next
      case (Some k)
      with nl False assms(1) show thesis
        by (intro that(3) [OF Some refl _ _ refl]) simp_all
    qed
  qed
qed

lemma remainder_cursor:
  assumes "wf_splitter u"
  shows "remainder u =
    drop (ls_consumed u) (take (ls_searched_to u) (ls_buf u)) @ drop (ls_searched_to u) (ls_buf u)"
  using assms drop_append [of "ls_consumed u" "take (ls_searched_to u) (ls_buf u)"
      "drop (ls_searched_to u) (ls_buf u)"]
  by (simp add: remainder_def wf_splitter_def)

lemma split_ref_settled:
  assumes "wf_splitter u" and "ls_skip_lf u \<longrightarrow> remainder u = []"
    and "\<forall>b \<in> set (drop (ls_searched_to u) (ls_buf u)). \<not> terminator (ls_sse u) b"
  shows "split_ref (ls_sse u) (ls_skip_lf u) [] (remainder u) = ([], remainder u, ls_skip_lf u)"
proof (cases "ls_skip_lf u")
  case True
  with assms(2) show ?thesis by simp
next
  case False
  have "\<forall>b \<in> set (remainder u). \<not> terminator (ls_sse u) b"
    using assms(1,3) by (auto simp: remainder_cursor wf_splitter_def)
  from split_ref_plain [OF this, of "[]" "[]"] False show ?thesis by simp
qed

lemma split_ref_found:
  assumes wf: "wf_splitter u" and skip: "ls_skip_lf u \<longrightarrow> remainder u = []"
    and found: "position (terminator (ls_sse u)) (drop (ls_searched_to u) (ls_buf u)) = Some k"
  shows "split_ref (ls_sse u) (ls_skip_lf u) [] (remainder u) =
    (case split_ref (ls_sse u) (ls_sse u \<and> ls_buf u ! (ls_searched_to u + k) = CR) []
            (drop (ls_searched_to u + k + 1) (ls_buf u)) of
       (ls, r) \<Rightarrow> (drop (ls_consumed u) (take (ls_searched_to u + k + 1) (ls_buf u)) # ls, r))"
proof -
  let ?c = "ls_consumed u" and ?k = "ls_searched_to u" and ?buf = "ls_buf u" and ?sse = "ls_sse u"
  note pos = position_SomeD [OF found]
  have bounds: "?c \<le> ?k" "?k + k < length ?buf"
    using pos wf by (auto simp: wf_splitter_def)
  have hit: "terminator ?sse (?buf ! (?k + k))" using pos bounds by simp
  have tail: "drop ?k ?buf = take k (drop ?k ?buf) @ ?buf ! (?k + k) # drop (?k + k + 1) ?buf"
    using position_split [OF found] bounds by (simp add: add.commute)
  have noskip: "\<not> ls_skip_lf u"
    using skip bounds by (auto simp: remainder_def)
  let ?plain = "drop ?c (take ?k ?buf) @ take k (drop ?k ?buf)"
  have plain: "\<forall>b \<in> set ?plain. \<not> terminator ?sse b"
    using wf pos by (auto simp: wf_splitter_def)
  have rem: "remainder u = ?plain @ ?buf ! (?k + k) # drop (?k + k + 1) ?buf"
    using remainder_cursor [OF wf] tail by simp
  have line: "?plain @ [?buf ! (?k + k)] = drop ?c (take (?k + k + 1) ?buf)"
  proof -
    have "take (?k + k + 1) ?buf = take ?k ?buf @ take k (drop ?k ?buf) @ [?buf ! (?k + k)]"
      using bounds by (simp add: take_Suc_conv_app_nth take_add)
    with bounds show ?thesis by simp
  qed
  show ?thesis
    using split_ref_plain [OF plain, of "[]" "?buf ! (?k + k) # drop (?k + k + 1) ?buf"]
      noskip hit line
    by (simp add: rem)
qed

lemma next_line_ref:
  assumes "wf_splitter s" and "next_line s = (res, s')"
  shows "wf_splitter s'" and "ls_sse s' = ls_sse s"
    and "res = None \<Longrightarrow>
      split_ref (ls_sse s) (ls_skip_lf s) [] (remainder s) = ([], remainder s', ls_skip_lf s')"
    and "res = Some line \<Longrightarrow>
      split_ref (ls_sse s) (ls_skip_lf s) [] (remainder s) =
        (case split_ref (ls_sse s) (ls_skip_lf s') [] (remainder s') of (ls, r) \<Rightarrow> (line # ls, r))"
    and "res = Some line \<Longrightarrow> length (remainder s') < length (remainder s)"
proof -
  define u where "u = skip_pending_lf s"
  note skip = skip_pending_lf_ref [OF assms(1), folded u_def]
  have "wf_splitter s' \<and> ls_sse s' = ls_sse s \<and>
    (res = None \<longrightarrow>
      split_ref (ls_sse s) (ls_skip_lf s) [] (remainder s) = ([], remainder s', ls_skip_lf s')) \<and>
    (res = Some line \<longrightarrow>
      split_ref (ls_sse s) (ls_skip_lf s) [] (remainder s) =
        (case split_ref (ls_sse s) (ls_skip_lf s') [] (remainder s') of (ls, r) \<Rightarrow> (line # ls, r)) \<and>
      length (remainder s') < length (remainder s))"
    using assms(2) u_def
  proof (cases rule: next_line_cases)
    case Searched
    then have "\<forall>b \<in> set (drop (ls_searched_to u) (ls_buf u)). \<not> terminator (ls_sse u) b" by simp
    from split_ref_settled [OF skip(1,3) this] show ?thesis
      by (simp add: Searched(2,3) skip(1,2,4))
  next
    case (Missing n)
    have bounds: "ls_consumed u \<le> ls_searched_to u" "ls_consumed u < length (ls_buf u)"
      using Missing skip(1) by (auto simp: wf_splitter_def)
    then have "\<not> ls_skip_lf u" using skip(3) by (auto simp: remainder_def)
    moreover have "\<forall>b \<in> set (drop (ls_consumed u) (ls_buf u)). \<not> terminator (ls_sse u) b"
      using remainder_cursor [OF skip(1)] skip(1) Missing(2)
      by (auto simp: wf_splitter_def remainder_def)
    ultimately have "wf_splitter s'"
      using bounds by (simp add: wf_splitter_def Missing(4))
    moreover have "remainder s' = remainder u" "ls_skip_lf s' = ls_skip_lf u" "ls_sse s' = ls_sse u"
      using Missing by (simp_all add: remainder_def)
    ultimately show ?thesis
      using split_ref_settled [OF skip(1,3) Missing(2)] by (simp add: Missing(3) skip(2,4))
  next
    case (Found k n v)
    have bounds: "ls_searched_to u + k < length (ls_buf u)" "ls_consumed u \<le> ls_searched_to u"
      using position_SomeD [OF Found(1)] skip(1) by (auto simp: wf_splitter_def)
    have "wf_splitter v" and rem: "remainder v = drop (ls_searched_to u + k + 1) (ls_buf u)"
      using bounds Found(2) by (simp_all add: wf_splitter_def remainder_def)
    then have "wf_splitter s'" by (simp add: Found(4) compact_wf)
    moreover have "length (remainder s') < length (remainder s)"
      using bounds skip(5) rem by (simp add: Found(4)) (simp add: remainder_def)
    moreover have "remainder s' = drop (ls_searched_to u + k + 1) (ls_buf u)" "ls_sse s' = ls_sse s"
        "ls_skip_lf s' = (ls_sse u \<and> ls_buf u ! (ls_searched_to u + k) = CR)"
      using rem skip(2) by (simp_all add: Found(4)) (simp_all add: Found(2))
    ultimately show ?thesis
      using split_ref_found [OF skip(1,3) Found(1)] by (simp add: skip(2,4) Found(3))
  qed
  note main = this
  show "wf_splitter s'" using main by (elim conjE)
  show "ls_sse s' = ls_sse s" using main by (elim conjE)
  show "res = None \<Longrightarrow>
      split_ref (ls_sse s) (ls_skip_lf s) [] (remainder s) = ([], remainder s', ls_skip_lf s')"
    using main by (elim conjE) (erule mp)
  assume "res = Some line"
  note some = main [THEN conjunct2, THEN conjunct2, THEN conjunct2, THEN mp, OF this]
  show "split_ref (ls_sse s) (ls_skip_lf s) [] (remainder s) =
        (case split_ref (ls_sse s) (ls_skip_lf s') [] (remainder s') of (ls, r) \<Rightarrow> (line # ls, r))"
    by (rule some [THEN conjunct1])
  show "length (remainder s') < length (remainder s)" by (rule some [THEN conjunct2])
qed

text \<open>Asking again after the splitter had no line changes nothing.\<close>

lemma next_line_None_stable:
  assumes "wf_splitter s" and "next_line s = (None, s')"
  shows "next_line s' = (None, s')" and "ls_searched_to s' = length (ls_buf s')"
proof -
  define u where "u = skip_pending_lf s"
  note skip = skip_pending_lf_ref [OF assms(1), folded u_def]
  have edge: "ls_searched_to s' = length (ls_buf s')"
    using assms(2) u_def
    by (cases rule: next_line_cases) (use skip(1) in \<open>auto simp: wf_splitter_def\<close>)
  then show "ls_searched_to s' = length (ls_buf s')" .
  have "ls_skip_lf s' \<longrightarrow> ls_searched_to s' = ls_consumed s'"
    using next_line_ref(1) [OF assms] by (simp add: wf_splitter_def)
  then have "skip_pending_lf s' = s'" using edge by (auto simp: skip_pending_lf_def)
  then show "next_line s' = (None, s')" by (simp add: next_line_def edge)
qed

lemma drain_rounds_ref:
  assumes "wf_splitter s" and "length (remainder s) < n" and "drain_rounds n s = (ls, s')"
  shows "wf_splitter s' \<and> ls_sse s' = ls_sse s \<and> next_line s' = (None, s') \<and>
    ls_searched_to s' = length (ls_buf s') \<and>
    split_ref (ls_sse s) (ls_skip_lf s) [] (remainder s) = (ls, remainder s', ls_skip_lf s')"
  using assms
proof (induction n arbitrary: s ls)
  case 0
  then show ?case by simp
next
  case (Suc n)
  obtain res t where nl: "next_line s = (res, t)" by fastforce
  note ref = next_line_ref [OF Suc.prems(1) nl]
  show ?case
  proof (cases res)
    case None
    with Suc.prems(3) nl have "ls = []" "s' = t" by simp_all
    with ref(1-3) None next_line_None_stable [OF Suc.prems(1) nl [unfolded None]]
    show ?thesis by simp
  next
    case (Some line)
    obtain ls' where rec: "drain_rounds n t = (ls', s')" "ls = line # ls'"
      using Suc.prems(3) nl Some by (auto split: prod.splits)
    have "length (remainder t) < n" using ref(5) Some Suc.prems(2) by simp
    note ih = Suc.IH [OF ref(1) this rec(1)]
    then show ?thesis using ref(2) ref(4) [OF Some] rec(2) by (simp only: ) simp
  qed
qed

lemma drain_complete:
  assumes "wf_splitter s" and "drain s = (ls, s')"
  shows "wf_splitter s' \<and> ls_sse s' = ls_sse s \<and> next_line s' = (None, s') \<and>
    ls_searched_to s' = length (ls_buf s') \<and>
    split_ref (ls_sse s) (ls_skip_lf s) [] (remainder s) = (ls, remainder s', ls_skip_lf s')"
  by (rule drain_rounds_ref [OF assms(1) _ assms(2) [unfolded drain_def]])
     (simp add: remainder_def)

text \<open>A fed splitter: drained, its pending bytes terminator-free.\<close>

definition settled :: "line_splitter \<Rightarrow> bool" where
  "settled s \<longleftrightarrow>
     wf_splitter s \<and> next_line s = (None, s) \<and> ls_searched_to s = length (ls_buf s)"

lemma settled_pending:
  assumes "settled s"
  shows "split_ref (ls_sse s) (ls_skip_lf s) [] (remainder s) = ([], remainder s, ls_skip_lf s)"
  using next_line_ref(3) [of s None s] assms by (simp add: settled_def)

lemma settled_continue:
  assumes "settled s"
  shows "split_ref (ls_sse s) (ls_skip_lf s) [] (remainder s @ xs) =
    split_ref (ls_sse s) (ls_skip_lf s) (remainder s) xs"
  by (simp add: split_ref_append settled_pending [OF assms])

lemma feed_ref:
  assumes "settled s" and "feed s cs = (ls, s')"
  shows "settled s' \<and> ls_sse s' = ls_sse s \<and>
    split_ref (ls_sse s) (ls_skip_lf s) [] (remainder s @ concat cs) =
      (ls, remainder s', ls_skip_lf s')"
  using assms
proof (induction cs arbitrary: s ls)
  case Nil
  then show ?case by (simp add: settled_pending)
next
  case (Cons c cs)
  then have wf: "wf_splitter s" by (simp add: settled_def)
  obtain l1 t where d: "drain (push s c) = (l1, t)" by fastforce
  obtain l2 where f: "feed t cs = (l2, s')" "ls = l1 @ l2"
    using Cons.prems(2) d by (auto split: prod.splits)
  note first = drain_complete [OF push_wf [OF wf] d]
  then have "settled t" by (simp add: settled_def)
  note rest = Cons.IH [OF this f(1)]
  from first have "split_ref (ls_sse s) (ls_skip_lf s) [] ((remainder s @ c) @ concat cs) =
      (case split_ref (ls_sse s) (ls_skip_lf t) (remainder t) (concat cs) of
        (ls', r) \<Rightarrow> (l1 @ ls', r))"
    by (subst split_ref_append) (simp add: push_remainder [OF wf])
  then show ?case
    using rest first settled_continue [OF \<open>settled t\<close>, of "concat cs", symmetric] f(2) by simp
qed

lemma settled_new: "settled (splitter_new b)" "settled (splitter_new_sse b)"
  by (simp_all add: settled_def wf_splitter_def splitter_new_sse_def splitter_new_def
        next_line_def skip_pending_lf_def)

section \<open>Cost and memory\<close>

text \<open>
  Of the \<open>p\<close> bytes pushed, \<open>d\<close> were dropped by compaction and the rest is in the buffer. Searches
  paid for the dropped bytes and the searched prefix, compactions moved at most the dropped bytes,
  and the consumed head is either short or less than half of the buffer.
\<close>

definition cost_inv :: "nat \<Rightarrow> line_splitter \<Rightarrow> bool" where
  "cost_inv p s \<longleftrightarrow>
     wf_splitter s \<and> (ls_consumed s < 4096 \<or> 2 * ls_consumed s < length (ls_buf s)) \<and>
     (\<exists>d. d + length (ls_buf s) = p \<and> ls_scanned s \<le> d + ls_searched_to s \<and> ls_compacted s \<le> d)"

definition cost_pre :: "nat \<Rightarrow> line_splitter \<Rightarrow> bool" where
  "cost_pre p s \<longleftrightarrow>
     wf_splitter s \<and>
     (\<exists>d. d + length (ls_buf s) = p \<and> ls_scanned s \<le> d + ls_searched_to s \<and> ls_compacted s \<le> d)"

lemma cost_compact:
  assumes "cost_pre p s"
  shows "cost_inv p (compact_if_worthwhile s)"
proof -
  from assms obtain d where d: "wf_splitter s" "d + length (ls_buf s) = p"
      "ls_scanned s \<le> d + ls_searched_to s" "ls_compacted s \<le> d"
    by (auto simp: cost_pre_def)
  then have "ls_consumed s \<le> ls_searched_to s" "ls_searched_to s \<le> length (ls_buf s)"
    by (simp_all add: wf_splitter_def)
  then show ?thesis
    using d compact_wf [OF d(1)]
    by (auto simp: cost_inv_def compact_if_worthwhile_def
          intro: exI [of _ d] exI [of _ "d + ls_consumed s"])
qed

lemma cost_inv_pre: "cost_inv p s \<Longrightarrow> cost_pre p s"
  by (simp add: cost_inv_def cost_pre_def)

lemma cost_push:
  assumes "cost_inv p s"
  shows "cost_inv (p + length c) (push s c)"
proof -
  from assms obtain d where "d + length (ls_buf s) = p"
      "ls_scanned s \<le> d + ls_searched_to s" "ls_compacted s \<le> d"
    by (auto simp: cost_inv_def)
  then have "d + length (ls_buf (push s c)) = p + length c \<and>
      ls_scanned (push s c) \<le> d + ls_searched_to (push s c) \<and> ls_compacted (push s c) \<le> d"
    by (simp add: push_def)
  moreover have "ls_consumed (push s c) < 4096 \<or>
      2 * ls_consumed (push s c) < length (ls_buf (push s c))"
    using assms by (auto simp: cost_inv_def push_def)
  ultimately show ?thesis
    using assms push_wf unfolding cost_inv_def by blast
qed

lemma cost_skip:
  assumes "cost_inv p s"
  shows "cost_inv p (skip_pending_lf s)"
proof (cases "ls_skip_lf s \<and> ls_consumed s < length (ls_buf s)")
  case True
  let ?t = "(if ls_buf s ! ls_consumed s = LF
             then s\<lparr>ls_consumed := ls_consumed s + 1, ls_searched_to := ls_consumed s + 1,
                    ls_scanned := ls_scanned s + 1\<rparr>
             else s)\<lparr>ls_skip_lf := False\<rparr>"
  from assms obtain d where "wf_splitter s" "d + length (ls_buf s) = p"
      "ls_scanned s \<le> d + ls_searched_to s" "ls_compacted s \<le> d"
    by (auto simp: cost_inv_def)
  then have "cost_pre p ?t"
    unfolding cost_pre_def using True
    by (intro conjI exI [of _ d]) (auto simp: wf_splitter_def)
  from cost_compact [OF this] True show ?thesis
    by (simp add: skip_pending_lf_def Let_def)
next
  case False
  with assms show ?thesis by (auto simp: skip_pending_lf_def)
qed

lemma cost_next_line:
  assumes "cost_inv p s" and "next_line s = (res, s')"
  shows "cost_inv p s'"
proof -
  define u where "u = skip_pending_lf s"
  have u: "cost_inv p u" using cost_skip [OF assms(1)] by (simp add: u_def)
  then obtain d where d: "wf_splitter u" "d + length (ls_buf u) = p"
      "ls_scanned u \<le> d + ls_searched_to u" "ls_compacted u \<le> d"
    by (auto simp: cost_inv_def)
  have wf': "wf_splitter s'" by (rule next_line_ref(1) [OF _ assms(2)])
      (use assms(1) in \<open>simp add: cost_inv_def\<close>)
  show ?thesis
    using assms(2) u_def
  proof (cases rule: next_line_cases)
    case Searched
    with u show ?thesis by simp
  next
    case (Missing n)
    then have "d + length (ls_buf s') = p \<and> ls_scanned s' \<le> d + ls_searched_to s' \<and>
        ls_compacted s' \<le> d"
      using d by simp
    moreover have "ls_consumed s' < 4096 \<or> 2 * ls_consumed s' < length (ls_buf s')"
      using u by (simp add: cost_inv_def Missing(4))
    ultimately show ?thesis using wf' unfolding cost_inv_def by blast
  next
    case (Found k n v)
    have bounds: "ls_searched_to u + k < length (ls_buf u)"
      using position_SomeD [OF Found(1)] by auto
    have "d + length (ls_buf v) = p \<and> ls_scanned v \<le> d + ls_searched_to v \<and> ls_compacted v \<le> d"
      using d Found(2,5) by simp
    moreover have "wf_splitter v" using bounds by (simp add: Found(2) wf_splitter_def)
    ultimately have "cost_pre p v" unfolding cost_pre_def by blast
    then show ?thesis unfolding Found(4) by (rule cost_compact)
  qed
qed

lemma cost_drain_rounds:
  "cost_inv p s \<Longrightarrow> cost_inv p (snd (drain_rounds n s))"
proof (induction n arbitrary: s)
  case (Suc n)
  obtain res t where "next_line s = (res, t)" by fastforce
  with Suc cost_next_line [OF Suc.prems this] show ?case
    by (auto split: option.splits prod.splits) (metis snd_conv)
qed simp

lemma cost_feed:
  "cost_inv p s \<Longrightarrow> cost_inv (p + length (concat cs)) (snd (feed s cs))"
proof (induction cs arbitrary: p s)
  case (Cons c cs)
  obtain ls t where d: "drain (push s c) = (ls, t)" by fastforce
  have "cost_inv (p + length c) t"
    using cost_drain_rounds [OF cost_push [OF Cons.prems]] d by (metis drain_def snd_conv)
  from Cons.IH [OF this] d show ?case by (auto simp: add.assoc split: prod.splits)
qed simp

lemma cost_new: "cost_inv 0 (splitter_new b)" "cost_inv 0 (splitter_new_sse b)"
  by (simp_all add: cost_inv_def wf_splitter_def splitter_new_sse_def splitter_new_def)

section \<open>What the callers rely on\<close>

definition splitter_for :: "bool \<Rightarrow> nat \<Rightarrow> line_splitter" where
  "splitter_for sse b = (if sse then splitter_new_sse b else splitter_new b)"

lemma splitter_for_new:
  "settled (splitter_for sse b)" "cost_inv 0 (splitter_for sse b)"
  "ls_sse (splitter_for sse b) = sse" "ls_skip_lf (splitter_for sse b) = False"
  "remainder (splitter_for sse b) = []"
  by (simp_all add: splitter_for_def settled_new cost_new)
     (simp_all add: splitter_new_sse_def splitter_new_def remainder_def)

lemma split_ref_lossless:
  "LF \<notin> set acc \<Longrightarrow> case split_ref False False acc xs of (ls, p, skip) \<Rightarrow>
     concat ls @ p = acc @ xs \<and> LF \<notin> set p \<and>
     list_all (\<lambda>l. l \<noteq> [] \<and> last l = LF \<and> LF \<notin> set (butlast l)) ls"
proof (induction xs arbitrary: acc)
  case (Cons b bs)
  from Cons.IH [of "acc @ [b]"] Cons.IH [of "[]"] Cons.prems show ?case
    by (auto simp: terminator_def split: prod.splits)
qed simp

text \<open>
  C11: the lines do not depend on how the stream was cut. Whatever chunks the bytes arrive in,
  draining after each push delivers the lines the reference splitter finds in the whole stream,
  in both framings, keeps exactly the unterminated tail, and leaves no complete line behind.
\<close>
theorem splitter_chunk_invariant:
  "case feed (splitter_for sse b) cs of
     (ls, s) \<Rightarrow> split_ref sse False [] (concat cs) = (ls, remainder s, ls_skip_lf s) \<and>
               next_line s = (None, s)"
  using feed_ref [OF splitter_for_new(1) prod.collapse [symmetric], of sse b cs]
  by (auto simp: splitter_for_new settled_def split: prod.splits)

text \<open>
  C31: newline framing loses nothing. The delivered lines followed by the remainder are the stream,
  every line ends with its only line feed, and the remainder has none.
\<close>
theorem splitter_lossless:
  "case feed (splitter_for False b) cs of
     (ls, s) \<Rightarrow> concat ls @ remainder s = concat cs \<and> LF \<notin> set (remainder s) \<and>
               list_all (\<lambda>l. l \<noteq> [] \<and> last l = LF \<and> LF \<notin> set (butlast l)) ls"
  using feed_ref [OF splitter_for_new(1) prod.collapse [symmetric], of False b cs]
    split_ref_lossless [of "[]" "concat cs"]
  by (auto simp: splitter_for_new split: prod.splits)

text \<open>
  C30: linear cost and bounded memory. Searching and compacting together touch at most two bytes
  per byte received, however the stream is chunked, and the buffer never exceeds the pending line
  by more than its own length or the 4096 bytes of unreclaimed head.
\<close>
theorem splitter_linear_work:
  "case feed (splitter_for sse b) cs of
     (ls, s) \<Rightarrow> work_done s \<le> 2 * length (concat cs) \<and>
               length (ls_buf s) \<le> buffered_len s + max 4096 (buffered_len s)"
proof -
  obtain ls s where f: "feed (splitter_for sse b) cs = (ls, s)" by fastforce
  then have "cost_inv (length (concat cs)) s"
    using cost_feed [OF splitter_for_new(2), of cs sse b] by simp
  then have "work_done s \<le> 2 * length (concat cs)"
    and "length (ls_buf s) \<le> buffered_len s + max 4096 (buffered_len s)"
    by (auto simp: cost_inv_def wf_splitter_def work_done_def buffered_len_def max_def)
  with f show ?thesis by simp
qed

text \<open>
  The end-of-stream flush. After the stream was drained, flushing reports whether a tail was
  pending, and draining once more delivers exactly that tail, terminated, and leaves nothing.
\<close>
theorem flush_newline_once:
  "case feed (splitter_for sse b) cs of
     (ls, s) \<Rightarrow>
       (case flush_newline s of
          (flushed, s1) \<Rightarrow>
            flushed = (remainder s \<noteq> []) \<and>
            fst (drain s1) = (if flushed then [remainder s @ [LF]] else []) \<and>
            remainder (snd (drain s1)) = [])"
proof -
  obtain ls s where f: "feed (splitter_for sse b) cs = (ls, s)" by fastforce
  have s: "settled s" using feed_ref [OF splitter_for_new(1) f] by simp
  have edge: "ls_searched_to s = length (ls_buf s)" "wf_splitter s" "next_line s = (None, s)"
    using s by (simp_all add: settled_def)
  show ?thesis
  proof (cases "remainder s = []")
    case True
    then have "flush_newline s = (False, s)" "drain s = ([], s)"
      by (simp_all add: flush_newline_def drain_def edge remainder_def)
    with f True show ?thesis by simp
  next
    case False
    then have fl: "flush_newline s = (True, push s [LF])" and skip: "\<not> ls_skip_lf s"
      using edge by (auto simp: flush_newline_def push_def remainder_def wf_splitter_def)
    obtain l t where d: "drain (push s [LF]) = (l, t)" by fastforce
    have "split_ref (ls_sse s) False [] (remainder s @ [LF]) = ([remainder s @ [LF]], [], False)"
      using settled_continue [OF s, of "[LF]"] skip by (simp add: terminator_def LF_def CR_def)
    with drain_complete [OF push_wf [OF edge(2)] d] skip
    have "l = [remainder s @ [LF]]" "remainder t = []"
      by (simp_all add: push_remainder [OF edge(2)])
    with f fl d False show ?thesis by simp
  qed
qed

text \<open>
  Flushing before draining is different in SSE framing: the check for a pending complete line looks
  for line feeds only, so a line that a carriage return ended is glued to the tail behind it.
\<close>

lemma flush_before_drain_merges:
  "fst (drain (snd (flush_newline (push (splitter_new_sse 64) [97, CR, 98])))) = [[97, CR, 98, LF]] \<and>
   fst (drain (push (splitter_new_sse 64) [97, CR, 98, LF])) = [[97, CR], [98, LF]]"
  by code_simp

end
