(* ===== verification/Json_Api.thy ===== *)
theory Json_Api
  imports Complex_Main Prelude
begin

text \<open>
  The operations of \<^verbatim>\<open>serde_json::Value\<close> that the core crate calls, as a
  record that its definitions take as their first argument: the package is not part of the
  repository. \<open>json_laws\<close> states what the documentation of \<^verbatim>\<open>Value\<close> promises and the
  theorems use. A small tree of JSON values with these operations shows that the laws can hold and
  is what the concrete runs evaluate.
\<close>

section \<open>The operations\<close>

text \<open>
  The value of an \<^verbatim>\<open>f64\<close>. The source only rounds and compares such
  values and both are exact on finite floats, so a finite float is the real number it denotes.
\<close>

datatype f64 = Finite real | Not_finite

text \<open>The typify-generated struct that \<^verbatim>\<open>serde_json::from_value\<close> reads an Anthropic usage object into.\<close>

record anthropic_message_usage =
  a_input_tokens :: "int option"
  a_output_tokens :: "int option"
  a_cache_creation_input_tokens :: "int option"
  a_cache_read_input_tokens :: "int option"

record 'v json_api =
  j_get :: "'v \<Rightarrow> string \<Rightarrow> 'v option"
  j_is_object :: "'v \<Rightarrow> bool"
  j_is_null :: "'v \<Rightarrow> bool"
  j_as_u64 :: "'v \<Rightarrow> u64 option"
  j_as_f64 :: "'v \<Rightarrow> f64 option"
  j_as_str :: "'v \<Rightarrow> string option"
  j_as_bool :: "'v \<Rightarrow> bool option"
  j_as_array :: "'v \<Rightarrow> 'v list option"
  j_anthropic_usage :: "'v \<Rightarrow> anthropic_message_usage option"

text \<open>Only an object has entries, and a null is not an object.\<close>

definition json_laws :: "'v json_api \<Rightarrow> bool" where
  "json_laws J \<longleftrightarrow>
     (\<forall>v k w. j_get J v k = Some w \<longrightarrow> j_is_object J v) \<and>
     (\<forall>v. j_is_null J v \<longrightarrow> \<not> j_is_object J v)"

lemma json_get_object: "json_laws J \<Longrightarrow> j_get J v k = Some w \<Longrightarrow> j_is_object J v"
  by (auto simp: json_laws_def)

lemma json_get_not_object: "json_laws J \<Longrightarrow> \<not> j_is_object J v \<Longrightarrow> j_get J v k = None"
  by (cases "j_get J v k") (auto dest: json_get_object)

lemma json_null_get: "json_laws J \<Longrightarrow> j_is_null J v \<Longrightarrow> j_get J v k = None"
  by (auto simp: json_laws_def intro: json_get_not_object)

section \<open>An instance\<close>

datatype jvalue =
    JNull
  | JBool bool
  | JNat u64
  | JReal real
  | JStr string
  | JArr "jvalue list"
  | JObj "(string \<times> jvalue) list"

fun jv_get :: "jvalue \<Rightarrow> string \<Rightarrow> jvalue option" where
  "jv_get (JObj kvs) k = map_of kvs k"
| "jv_get _ k = None"

fun jv_is_object :: "jvalue \<Rightarrow> bool" where
  "jv_is_object (JObj _) = True"
| "jv_is_object _ = False"

fun jv_as_u64 :: "jvalue \<Rightarrow> u64 option" where
  "jv_as_u64 (JNat n) = Some n"
| "jv_as_u64 _ = None"

fun jv_as_f64 :: "jvalue \<Rightarrow> f64 option" where
  "jv_as_f64 (JReal r) = Some (Finite r)"
| "jv_as_f64 _ = None"

fun jv_as_str :: "jvalue \<Rightarrow> string option" where
  "jv_as_str (JStr s) = Some s"
| "jv_as_str _ = None"

fun jv_as_bool :: "jvalue \<Rightarrow> bool option" where
  "jv_as_bool (JBool b) = Some b"
| "jv_as_bool _ = None"

fun jv_as_array :: "jvalue \<Rightarrow> jvalue list option" where
  "jv_as_array (JArr xs) = Some xs"
| "jv_as_array _ = None"

definition jv_int :: "jvalue \<Rightarrow> string \<Rightarrow> int option" where
  "jv_int v k = map_option uint (Option.bind (jv_get v k) jv_as_u64)"

definition jv_anthropic_usage :: "jvalue \<Rightarrow> anthropic_message_usage option" where
  "jv_anthropic_usage v =
     (if jv_is_object v
      then Some \<lparr>a_input_tokens = jv_int v ''input_tokens'',
                 a_output_tokens = jv_int v ''output_tokens'',
                 a_cache_creation_input_tokens = jv_int v ''cache_creation_input_tokens'',
                 a_cache_read_input_tokens = jv_int v ''cache_read_input_tokens''\<rparr>
      else None)"

definition jv_api :: "jvalue json_api" where
  "jv_api =
     \<lparr>j_get = jv_get, j_is_object = jv_is_object, j_is_null = (\<lambda>v. v = JNull),
      j_as_u64 = jv_as_u64, j_as_f64 = jv_as_f64, j_as_str = jv_as_str, j_as_bool = jv_as_bool,
      j_as_array = jv_as_array, j_anthropic_usage = jv_anthropic_usage\<rparr>"

lemma jv_api_simps [simp]:
  "j_get jv_api = jv_get" "j_is_object jv_api = jv_is_object"
  "j_is_null jv_api v = (v = JNull)" "j_as_u64 jv_api = jv_as_u64" "j_as_f64 jv_api = jv_as_f64"
  "j_as_str jv_api = jv_as_str" "j_as_bool jv_api = jv_as_bool" "j_as_array jv_api = jv_as_array"
  "j_anthropic_usage jv_api = jv_anthropic_usage"
  by (simp_all add: jv_api_def)

lemma jv_laws: "json_laws jv_api"
  unfolding json_laws_def by (auto elim: jv_get.elims)

end
