(* ===== verification/Cache_Read.thy ===== *)
theory Cache_Read
  imports Json_Api
begin

text \<open>
  \<^verbatim>\<open>crates/sandhi-core/src/cache_read.rs\<close>: whether a provider reported the cache-read
  count of a call. The observation attached to a usage record, its validation and resolution, the
  coverage counters of an aggregate, and the classification of response bodies and stream frames.
  Observations are metadata: no numeric count depends on them.
\<close>

section \<open>Observations\<close>

datatype cache_read_status = Reported | Absent | Malformed | Unsupported

datatype cache_read_source = OriginUsage | CallerSupplied | ExplicitCapability

record cache_read_observation =
  o_status :: cache_read_status
  o_source :: cache_read_source

definition observation_validated :: "cache_read_observation \<Rightarrow> cache_read_observation option" where
  "observation_validated obs =
     (if (case (o_status obs, o_source obs) of
            (Reported, OriginUsage) \<Rightarrow> True
          | (Absent, OriginUsage) \<Rightarrow> True
          | (Malformed, OriginUsage) \<Rightarrow> True
          | (Reported, CallerSupplied) \<Rightarrow> True
          | (Unsupported, ExplicitCapability) \<Rightarrow> True
          | _ \<Rightarrow> False)
      then Some obs else None)"

text \<open>
  \<^verbatim>\<open>origin\<close> asserts that its argument is not \<^const>\<open>Unsupported\<close>; \<open>origin_assert\<close> is that
  assertion, which \<open>observe_meets_assert\<close> below discharges for every call in the source.
\<close>

definition origin_assert :: "cache_read_status \<Rightarrow> bool" where
  "origin_assert status \<longleftrightarrow> status \<noteq> Unsupported"

definition observation_origin :: "cache_read_status \<Rightarrow> cache_read_observation" where
  "observation_origin status = \<lparr>o_status = status, o_source = OriginUsage\<rparr>"

definition cache_read_observation_is_unknown :: "cache_read_observation option \<Rightarrow> bool" where
  "cache_read_observation_is_unknown observation \<longleftrightarrow>
     Option.bind observation observation_validated = None"

definition deserialize_cache_read_observation ::
  "('v \<Rightarrow> cache_read_observation option) \<Rightarrow> 'v \<Rightarrow> cache_read_observation option" where
  "deserialize_cache_read_observation from_value v =
     Option.bind (from_value v) observation_validated"

definition resolve_cache_read_observation ::
  "cache_read_observation option \<Rightarrow> bool \<Rightarrow> cache_read_observation option" where
  "resolve_cache_read_observation observation explicitly_unsupported =
     map_option
       (\<lambda>obs. if explicitly_unsupported \<and> o_status obs = Absent
              then \<lparr>o_status = Unsupported, o_source = ExplicitCapability\<rparr>
              else obs)
       (Option.bind observation observation_validated)"

definition merge_cache_read_observation ::
  "cache_read_observation option \<Rightarrow> cache_read_observation option \<Rightarrow> cache_read_observation option" where
  "merge_cache_read_observation current update =
     (let current = Option.bind current observation_validated in
      case Option.bind update observation_validated of
        Some update \<Rightarrow>
          if o_status update \<noteq> Absent \<or> current = None then Some update else current
      | None \<Rightarrow> current)"

section \<open>Coverage counters\<close>

record cache_read_coverage =
  cov_reported :: u64
  cov_absent :: u64
  cov_malformed :: u64
  cov_unsupported :: u64
  cov_unknown :: u64

definition coverage_default :: cache_read_coverage where
  "coverage_default =
     \<lparr>cov_reported = 0, cov_absent = 0, cov_malformed = 0, cov_unsupported = 0, cov_unknown = 0\<rparr>"

definition coverage_unknown :: "u64 \<Rightarrow> cache_read_coverage" where
  "coverage_unknown calls = coverage_default\<lparr>cov_unknown := calls\<rparr>"

definition coverage_total :: "cache_read_coverage \<Rightarrow> u64" where
  "coverage_total c =
     sat_add (sat_add (sat_add (sat_add (cov_reported c) (cov_absent c)) (cov_malformed c))
       (cov_unsupported c)) (cov_unknown c)"

definition coverage_normalized :: "cache_read_coverage \<Rightarrow> u64 \<Rightarrow> cache_read_coverage" where
  "coverage_normalized c calls =
     (let total =
        Option.bind (Option.bind (Option.bind (checked_add (cov_reported c) (cov_absent c))
          (\<lambda>n. checked_add n (cov_malformed c)))
          (\<lambda>n. checked_add n (cov_unsupported c)))
          (\<lambda>n. checked_add n (cov_unknown c))
      in if total = Some calls then c else coverage_unknown calls)"

definition coverage_add ::
  "cache_read_coverage \<Rightarrow> cache_read_observation option \<Rightarrow> cache_read_coverage" where
  "coverage_add c observation =
     (case map_option o_status (Option.bind observation observation_validated) of
        Some Reported \<Rightarrow> c\<lparr>cov_reported := sat_add (cov_reported c) 1\<rparr>
      | Some Absent \<Rightarrow> c\<lparr>cov_absent := sat_add (cov_absent c) 1\<rparr>
      | Some Malformed \<Rightarrow> c\<lparr>cov_malformed := sat_add (cov_malformed c) 1\<rparr>
      | Some Unsupported \<Rightarrow> c\<lparr>cov_unsupported := sat_add (cov_unsupported c) 1\<rparr>
      | None \<Rightarrow> c\<lparr>cov_unknown := sat_add (cov_unknown c) 1\<rparr>)"

definition coverage_merge ::
  "cache_read_coverage \<Rightarrow> cache_read_coverage \<Rightarrow> cache_read_coverage" where
  "coverage_merge c other =
     c\<lparr>cov_reported := sat_add (cov_reported c) (cov_reported other),
       cov_absent := sat_add (cov_absent c) (cov_absent other),
       cov_malformed := sat_add (cov_malformed c) (cov_malformed other),
       cov_unsupported := sat_add (cov_unsupported c) (cov_unsupported other),
       cov_unknown := sat_add (cov_unknown c) (cov_unknown other)\<rparr>"

section \<open>Classifying responses\<close>

datatype cache_read_family =
  OpenAi | OpenAiResponses | Anthropic | Gemini | Cohere | Ollama | Bedrock

definition MAX_PLAUSIBLE_TOKENS :: u64 where
  "MAX_PLAUSIBLE_TOKENS = 50000000000"

fun field_status :: "'v json_api \<Rightarrow> 'v \<Rightarrow> string list \<Rightarrow> cache_read_status" where
  "field_status J v [] =
     (case j_as_u64 J v of
        Some n \<Rightarrow> if n \<le> MAX_PLAUSIBLE_TOKENS then Reported else Malformed
      | None \<Rightarrow> Malformed)"
| "field_status J v (key # path) =
     (if \<not> j_is_object J v then Malformed
      else case j_get J v key of
             None \<Rightarrow> Absent
           | Some w \<Rightarrow> field_status J w path)"

definition cache_read_status_of :: "'v json_api \<Rightarrow> cache_read_family \<Rightarrow> 'v \<Rightarrow> cache_read_status" where
  "cache_read_status_of J family response =
     (case family of
        OpenAi \<Rightarrow>
          if Option.bind (j_get J response ''usage'')
               (\<lambda>u. j_get J u ''prompt_cache_hit_tokens'') \<noteq> None
          then field_status J response [''usage'', ''prompt_cache_hit_tokens'']
          else field_status J response [''usage'', ''prompt_tokens_details'', ''cached_tokens'']
      | OpenAiResponses \<Rightarrow>
          field_status J response [''usage'', ''input_tokens_details'', ''cached_tokens'']
      | Anthropic \<Rightarrow> field_status J response [''usage'', ''cache_read_input_tokens'']
      | Bedrock \<Rightarrow> field_status J response [''usage'', ''cache_read_input_tokens'']
      | Gemini \<Rightarrow> field_status J response [''usageMetadata'', ''cachedContentTokenCount'']
      | Cohere \<Rightarrow>
          (case j_get J response ''usage'' of
             Some u \<Rightarrow> if \<not> j_is_object J u then Malformed else Absent
           | None \<Rightarrow> Absent)
      | Ollama \<Rightarrow> Absent)"

definition observe_cache_read ::
  "'v json_api \<Rightarrow> cache_read_family \<Rightarrow> 'v \<Rightarrow> cache_read_observation" where
  "observe_cache_read J family response =
     observation_origin (cache_read_status_of J family response)"

text \<open>
  The part of a stream frame that \<^verbatim>\<open>observe_cache_read_stream\<close> inspects; \<^term>\<open>None\<close> for
  a frame that is no observation.
\<close>

definition stream_response :: "'v json_api \<Rightarrow> cache_read_family \<Rightarrow> 'v \<Rightarrow> 'v option" where
  "stream_response J family frame =
     (case family of
        OpenAi \<Rightarrow>
          Option.bind (j_get J frame ''usage'') (\<lambda>usage.
            if j_is_null J usage \<and>
               (case Option.bind (j_get J frame ''choices'') (j_as_array J) of
                  Some c \<Rightarrow> c \<noteq> [] | None \<Rightarrow> False)
            then None else Some frame)
      | OpenAiResponses \<Rightarrow>
          (let response = (case j_get J frame ''response'' of Some r \<Rightarrow> r | None \<Rightarrow> frame) in
           Option.bind (j_get J response ''usage'') (\<lambda>usage.
             if j_is_null J usage \<and>
                Option.bind (j_get J frame ''type'') (j_as_str J)
                  \<in> {Some ''response.created'', Some ''response.in_progress''}
             then None else Some response))
      | Anthropic \<Rightarrow>
          Option.bind
            (let type = Option.bind (j_get J frame ''type'') (j_as_str J) in
             if type = Some ''message_start'' then j_get J frame ''message''
             else if type = Some ''message_delta'' then Some frame
             else None)
            (\<lambda>response. Option.bind (j_get J response ''usage'') (\<lambda>_. Some response))
      | Gemini \<Rightarrow> Option.bind (j_get J frame ''usageMetadata'') (\<lambda>_. Some frame)
      | Cohere \<Rightarrow>
          Option.bind
            (if j_get J frame ''usage'' \<noteq> None then Some frame else j_get J frame ''delta'')
            (\<lambda>response. Option.bind (j_get J response ''usage'') (\<lambda>_. Some response))
      | Ollama \<Rightarrow>
          if Option.bind (j_get J frame ''done'') (j_as_bool J) \<noteq> Some True then None
          else Some frame
      | Bedrock \<Rightarrow> Option.bind (j_get J frame ''usage'') (\<lambda>_. Some frame))"

definition observe_cache_read_stream ::
  "'v json_api \<Rightarrow> cache_read_family \<Rightarrow> 'v \<Rightarrow> cache_read_observation option" where
  "observe_cache_read_stream J family frame =
     map_option (observe_cache_read J family) (stream_response J family frame)"

section \<open>Lemmas\<close>

lemma observation_validated_SomeD: "observation_validated obs = Some v \<Longrightarrow> v = obs"
  by (auto simp: observation_validated_def split: if_splits)

lemma observation_validated_origin:
  "origin_assert s \<Longrightarrow> observation_validated (observation_origin s) = Some (observation_origin s)"
  by (cases s) (simp_all add: origin_assert_def observation_origin_def observation_validated_def)

lemma field_status_supported: "field_status J v path \<noteq> Unsupported"
  by (induction J v path rule: field_status.induct) (auto split: option.splits)

lemma observe_meets_assert: "origin_assert (cache_read_status_of J family response)"
  by (cases family)
     (auto simp: origin_assert_def cache_read_status_of_def field_status_supported
       split: option.splits)

text \<open>What a validated observation looks like.\<close>

lemma observation_validated_iff:
  "observation_validated obs = Some obs \<longleftrightarrow>
     (o_source obs = OriginUsage \<and> o_status obs \<noteq> Unsupported) \<or>
     (o_source obs = CallerSupplied \<and> o_status obs = Reported) \<or>
     (o_source obs = ExplicitCapability \<and> o_status obs = Unsupported)"
  by (cases "o_status obs"; cases "o_source obs") (simp_all add: observation_validated_def)

definition validated :: "cache_read_observation option \<Rightarrow> cache_read_observation option" where
  "validated obs = Option.bind obs observation_validated"

lemma validated_idem [simp]: "validated (validated obs) = validated obs"
  by (cases obs) (auto simp: validated_def bind_eq_Some_conv dest: observation_validated_SomeD
      split: Option.bind_split)

lemma validated_SomeD: "validated x = Some v \<Longrightarrow> observation_validated v = Some v"
  using observation_validated_SomeD by (fastforce simp: validated_def bind_eq_Some_conv)

lemma validated_absent_unique:
  "validated x = Some a \<Longrightarrow> o_status a = Absent \<Longrightarrow> a = \<lparr>o_status = Absent, o_source = OriginUsage\<rparr>"
  by (cases x; cases a; cases "o_source a")
     (auto simp: validated_def observation_validated_def split: if_splits)

lemma merge_eq:
  "merge_cache_read_observation cur upd =
     (case validated upd of
        None \<Rightarrow> validated cur
      | Some u \<Rightarrow> if o_status u \<noteq> Absent \<or> validated cur = None then Some u else validated cur)"
  unfolding validated_def merge_cache_read_observation_def Let_def ..

lemma merge_validated:
  "validated (merge_cache_read_observation cur upd) = merge_cache_read_observation cur upd"
  by (auto simp: merge_eq split: option.split) (simp_all add: validated_def validated_SomeD)

lemma merge_fold_validated:
  "validated (fold (\<lambda>upd cur. merge_cache_read_observation cur upd) upds None) =
     fold (\<lambda>upd cur. merge_cache_read_observation cur upd) upds None"
  by (cases upds rule: rev_cases) (simp_all add: merge_validated, simp add: validated_def)

text \<open>The status an observation is counted under.\<close>

definition counted_as :: "cache_read_observation option \<Rightarrow> cache_read_status option" where
  "counted_as obs = map_option o_status (validated obs)"

definition coverage_of :: "cache_read_observation option list \<Rightarrow> cache_read_coverage" where
  "coverage_of obs = fold (\<lambda>ob c. coverage_add c ob) obs coverage_default"

lemma coverage_of_snoc: "coverage_of (obs @ [x]) = coverage_add (coverage_of obs) x"
  by (simp add: coverage_of_def)

lemma unat_sat_count: "n < 2 ^ 64 - 1 \<Longrightarrow> unat (a :: u64) \<le> n \<Longrightarrow> unat (sat_add a 1) = Suc (unat a)"
  by (simp add: unat_sat_add)

lemma count_list_le: "count_list xs x \<le> length xs"
  by (induction xs) auto

lemma coverage_of_counts:
  assumes "length obs < 2 ^ 64"
  shows "unat (cov_reported (coverage_of obs)) = count_list (map counted_as obs) (Some Reported) \<and>
    unat (cov_absent (coverage_of obs)) = count_list (map counted_as obs) (Some Absent) \<and>
    unat (cov_malformed (coverage_of obs)) = count_list (map counted_as obs) (Some Malformed) \<and>
    unat (cov_unsupported (coverage_of obs)) = count_list (map counted_as obs) (Some Unsupported) \<and>
    unat (cov_unknown (coverage_of obs)) = count_list (map counted_as obs) None"
  using assms
proof (induction obs rule: rev_induct)
  case Nil
  then show ?case by (simp add: coverage_of_def coverage_default_def)
next
  case (snoc x obs)
  have short: "length obs < 2 ^ 64 - 1" using snoc.prems by simp
  have le: "count_list (map counted_as obs) st \<le> length obs" for st
    using count_list_le [of "map counted_as obs" st] by simp
  note bump = unat_sat_count [OF short]
  from snoc le show ?case
    by (auto simp: coverage_of_snoc coverage_add_def validated_def [symmetric]
        counted_as_def [of x, symmetric] bump split: option.split cache_read_status.split)
qed

lemma count_list_split:
  "length xs = count_list xs None + (count_list xs (Some Reported) + count_list xs (Some Absent)
     + count_list xs (Some Malformed) + count_list xs (Some Unsupported))"
proof (induction xs)
  case (Cons x xs)
  then show ?case by (cases x; cases "the x") auto
qed simp

lemma unat_coverage_total:
  "unat (coverage_total c) = min (2 ^ 64 - 1)
     (unat (cov_reported c) + unat (cov_absent c) + unat (cov_malformed c)
      + unat (cov_unsupported c) + unat (cov_unknown c))"
  by (simp add: coverage_total_def unat_sat_add)

lemma coverage_eqI:
  assumes "cov_reported a = cov_reported b" "cov_absent a = cov_absent b"
    "cov_malformed a = cov_malformed b" "cov_unsupported a = cov_unsupported b"
    "cov_unknown a = cov_unknown b"
  shows "a = (b :: cache_read_coverage)"
  using assms by simp

lemma coverage_checked_total:
  assumes "Option.bind (Option.bind (Option.bind (checked_add (cov_reported c) (cov_absent c))
      (\<lambda>n. checked_add n (cov_malformed c))) (\<lambda>n. checked_add n (cov_unsupported c)))
      (\<lambda>n. checked_add n (cov_unknown c)) = Some calls"
  shows "coverage_total c = calls"
  using assms
  by (auto simp: bind_eq_Some_conv checked_add_def coverage_total_def sat_add_def split: if_splits)

lemma coverage_unknown_total: "coverage_total (coverage_unknown calls) = calls"
  using unat_lt_pow [of calls]
  by (simp add: word_unat_eq_iff unat_coverage_total coverage_unknown_def coverage_default_def)

lemma coverage_normalized_cases:
  "(coverage_normalized c calls = c \<and> coverage_total c = calls) \<or>
   coverage_normalized c calls = coverage_unknown calls"
  unfolding coverage_normalized_def Let_def
  by (simp only: split: if_split) (blast dest: coverage_checked_total)

section \<open>Properties\<close>

text \<open>
  Coverage counters are exact. Counting a list of observations puts every call in the bucket of
  its validated status (invalid or missing metadata in the unknown one), the buckets add up to the
  number of calls, and merging the counters of two lists is counting their concatenation.
\<close>
theorem coverage_counts_calls:
  assumes "length (xs @ ys) < 2 ^ 64"
  shows "unat (coverage_total (coverage_of xs)) = length xs \<and>
    unat (cov_reported (coverage_of xs)) = count_list (map counted_as xs) (Some Reported) \<and>
    unat (cov_unknown (coverage_of xs)) = count_list (map counted_as xs) None \<and>
    coverage_merge (coverage_of xs) (coverage_of ys) = coverage_of (xs @ ys)"
proof -
  have len: "length xs < 2 ^ 64" "length ys < 2 ^ 64" using assms by simp_all
  note cx = coverage_of_counts [OF len(1)] and cy = coverage_of_counts [OF len(2)]
    and cxy = coverage_of_counts [OF assms]
  have "unat (coverage_total (coverage_of xs)) = length xs"
    using cx count_list_split [of "map counted_as xs"] len(1) by (simp add: unat_coverage_total)
  moreover have "coverage_merge (coverage_of xs) (coverage_of ys) = coverage_of (xs @ ys)"
  proof -
    have bound: "count_list (map counted_as xs) st + count_list (map counted_as ys) st
        \<le> 18446744073709551615" for st
      using count_list_le [of "map counted_as (xs @ ys)" st] assms by simp
    show ?thesis
      by (rule coverage_eqI; simp add: coverage_merge_def word_unat_eq_iff unat_sat_add cx cy cxy
            bound min_absorb1)
  qed
  ultimately show ?thesis using cx by simp
qed

text \<open>
  A stored coverage is never trusted beyond its call count. Normalising counters against the
  number of calls gives counters that sum to exactly that number: the given ones if they do so
  without overflow, otherwise all calls as unknown.
\<close>
theorem coverage_normalized_sound:
  "coverage_total (coverage_normalized c calls) = calls \<and>
   coverage_normalized (coverage_normalized c calls) calls = coverage_normalized c calls \<and>
   (coverage_normalized c calls = c \<or> coverage_normalized c calls = coverage_unknown calls)"
  using coverage_normalized_cases [of c calls]
    coverage_normalized_cases [of "coverage_unknown calls" calls]
  by (auto simp: coverage_unknown_total)

text \<open>
  C38: metadata is safe to expose. Every observation made of a response passes the constructor's
  assertion and is valid; resolution and merging only ever produce valid observations, and
  resolution turns only an absent field into an unsupported one.
\<close>
theorem observations_valid:
  "origin_assert (cache_read_status_of J family response) \<and>
   observation_validated (observe_cache_read J family response) = Some (observe_cache_read J family response) \<and>
   validated (resolve_cache_read_observation obs unsupported) = resolve_cache_read_observation obs unsupported \<and>
   validated (merge_cache_read_observation cur upd) = merge_cache_read_observation cur upd \<and>
   counted_as (resolve_cache_read_observation obs unsupported) =
     (if unsupported \<and> counted_as obs = Some Absent then Some Unsupported else counted_as obs)"
proof -
  have "validated (resolve_cache_read_observation obs unsupported) = resolve_cache_read_observation obs unsupported \<and>
    counted_as (resolve_cache_read_observation obs unsupported) =
     (if unsupported \<and> counted_as obs = Some Absent then Some Unsupported else counted_as obs)"
  proof (cases "validated obs")
    case None
    then show ?thesis
      by (simp add: resolve_cache_read_observation_def validated_def counted_as_def)
  next
    case (Some v)
    then have "observation_validated v = Some v"
      by (cases obs) (auto simp: validated_def dest: observation_validated_SomeD)
    moreover have "resolve_cache_read_observation obs unsupported =
        Some (if unsupported \<and> o_status v = Absent
              then \<lparr>o_status = Unsupported, o_source = ExplicitCapability\<rparr> else v)"
      using Some by (simp add: resolve_cache_read_observation_def validated_def)
    ultimately show ?thesis
      using Some by (auto simp: counted_as_def validated_def observation_validated_def)
  qed
  then show ?thesis
    by (simp add: merge_validated observe_cache_read_def observation_validated_origin observe_meets_assert)
qed

text \<open>
  Partial updates cannot erase evidence. After any sequence of stream updates the merged
  observation is the last valid one that says more than \<open>absent\<close>; if there is none, it is
  \<open>absent\<close> as soon as one update said so, and unknown otherwise.
\<close>
theorem merge_keeps_evidence:
  "fold (\<lambda>upd cur. merge_cache_read_observation cur upd) upds None =
     (let valid = List.map_filter validated upds;
          informative = filter (\<lambda>v. o_status v \<noteq> Absent) valid
      in if informative \<noteq> [] then Some (last informative)
         else if valid \<noteq> [] then Some \<lparr>o_status = Absent, o_source = OriginUsage\<rparr>
         else None)"
proof (induction upds rule: rev_induct)
  case Nil
  then show ?case by (simp add: List.map_filter_def)
next
  case (snoc x upds)
  note cur = merge_fold_validated [of upds]
  show ?case
  proof (cases "validated x")
    case None
    with cur snoc show ?thesis by (simp add: merge_eq List.map_filter_def Let_def)
  next
    case (Some v)
    with cur snoc validated_absent_unique [OF Some] show ?thesis
      by (auto simp: merge_eq List.map_filter_def Let_def)
  qed
qed

text \<open>Three calls: a reported count, a field the origin omitted, and metadata nobody can have produced.\<close>

theorem coverage_counts_calls_witness:
  "unat (coverage_total (coverage_of [Some \<lparr>o_status = Reported, o_source = OriginUsage\<rparr>,
       Some \<lparr>o_status = Absent, o_source = OriginUsage\<rparr>,
       Some \<lparr>o_status = Unsupported, o_source = OriginUsage\<rparr>])) = 3"
  using coverage_counts_calls [of "[Some \<lparr>o_status = Reported, o_source = OriginUsage\<rparr>,
       Some \<lparr>o_status = Absent, o_source = OriginUsage\<rparr>,
       Some \<lparr>o_status = Unsupported, o_source = OriginUsage\<rparr>]" "[]"]
  by simp

end
