(* ===== verification/Event.thy ===== *)
theory Event
  imports Cache_Read
begin

text \<open>
  \<^verbatim>\<open>crates/sandhi-core/src/event.rs\<close> and the usage types of
  \<^verbatim>\<open>crates/sandhi-core/src/chat.rs\<close>: the typed usage record, the usage event, and the
  billable-token formulas that budgets, settlement and aggregates share. Token counts are 64-bit
  words; the weighted formula computes in 128 bits as the source does.
\<close>

section \<open>Usage types\<close>

datatype usage_completeness = Final | Partial | Unavailable

datatype usage_basis = ProviderReported | Estimated

datatype latency_source = Origin | Boundary

record usage_v2 =
  u_tokens_in :: u64
  u_tokens_out :: u64
  u_cache_creation_tokens :: u64
  u_cache_read_tokens :: u64
  u_cache_read_observation :: "cache_read_observation option"
  u_audio_input_tokens :: "u64 option"
  u_audio_output_tokens :: "u64 option"
  u_reasoning_tokens :: "u64 option"
  u_reasoning_included :: "bool option"
  u_accepted_prediction_tokens :: "u64 option"
  u_rejected_prediction_tokens :: "u64 option"
  u_completeness :: usage_completeness
  u_basis :: usage_basis
  u_attempts :: u32
  u_outcome :: "string option"
  u_upstream_request_id :: "string option"
  u_duration_ms :: "u64 option"
  u_duration_source :: "latency_source option"
  u_time_to_first_token_ms :: "u64 option"
  u_time_to_first_token_source :: "latency_source option"

text \<open>The derived \<^verbatim>\<open>Default\<close>: zero counts, and zero attempts.\<close>

definition usage_v2_default :: usage_v2 where
  "usage_v2_default =
     \<lparr>u_tokens_in = 0, u_tokens_out = 0, u_cache_creation_tokens = 0, u_cache_read_tokens = 0,
      u_cache_read_observation = None, u_audio_input_tokens = None, u_audio_output_tokens = None,
      u_reasoning_tokens = None, u_reasoning_included = None, u_accepted_prediction_tokens = None,
      u_rejected_prediction_tokens = None, u_completeness = Unavailable,
      u_basis = ProviderReported, u_attempts = 0, u_outcome = None, u_upstream_request_id = None,
      u_duration_ms = None, u_duration_source = None, u_time_to_first_token_ms = None,
      u_time_to_first_token_source = None\<rparr>"

section \<open>Billable tokens\<close>

definition unfolded_reasoning :: "u64 \<Rightarrow> u64 \<Rightarrow> bool option \<Rightarrow> u64" where
  "unfolded_reasoning reasoning_tokens tokens_out reasoning_included =
     (if reasoning_included = Some False \<or>
         (reasoning_included = None \<and> reasoning_tokens > tokens_out)
      then reasoning_tokens else 0)"

definition billable_parts_with_reasoning ::
  "u64 \<Rightarrow> u64 \<Rightarrow> u64 \<Rightarrow> u64 \<Rightarrow> u64 \<Rightarrow> bool option \<Rightarrow> u64" where
  "billable_parts_with_reasoning tokens_in cache_creation_tokens cache_read_tokens tokens_out
      reasoning_tokens reasoning_included =
     (let unfolded = unfolded_reasoning reasoning_tokens tokens_out reasoning_included in
      sat_add (sat_add (sat_add (sat_add tokens_in cache_creation_tokens) cache_read_tokens)
        tokens_out) unfolded)"

definition scaled_cache_read :: "u64 \<Rightarrow> u32 \<Rightarrow> u64" where
  "scaled_cache_read cache_read_tokens cache_read_bp =
     ucast (min (ucast cache_read_tokens * ucast cache_read_bp div 10000 :: 128 word)
                (ucast (- 1 :: u64)))"

definition billable_parts_weighted ::
  "u64 \<Rightarrow> u64 \<Rightarrow> u64 \<Rightarrow> u64 \<Rightarrow> u64 \<Rightarrow> bool option \<Rightarrow> u32 \<Rightarrow> u64" where
  "billable_parts_weighted tokens_in cache_creation_tokens cache_read_tokens tokens_out
      reasoning_tokens reasoning_included cache_read_bp =
     (let unfolded = unfolded_reasoning reasoning_tokens tokens_out reasoning_included;
          scaled = scaled_cache_read cache_read_tokens cache_read_bp in
      sat_add (sat_add (sat_add (sat_add tokens_in cache_creation_tokens) scaled)
        tokens_out) unfolded)"

definition billable :: "usage_v2 \<Rightarrow> u64" where
  "billable u =
     billable_parts_with_reasoning (u_tokens_in u) (u_cache_creation_tokens u)
       (u_cache_read_tokens u) (u_tokens_out u) (unwrap_or (u_reasoning_tokens u) 0)
       (u_reasoning_included u)"

definition billable_weighted :: "usage_v2 \<Rightarrow> u32 \<Rightarrow> u64" where
  "billable_weighted u cache_read_bp =
     billable_parts_weighted (u_tokens_in u) (u_cache_creation_tokens u)
       (u_cache_read_tokens u) (u_tokens_out u) (unwrap_or (u_reasoning_tokens u) 0)
       (u_reasoning_included u) cache_read_bp"

definition billable_parts :: "u64 \<Rightarrow> u64 \<Rightarrow> u64 \<Rightarrow> u64 \<Rightarrow> u64 \<Rightarrow> u64" where
  "billable_parts tokens_in cache_creation_tokens cache_read_tokens tokens_out reasoning_tokens =
     billable_parts_with_reasoning tokens_in cache_creation_tokens cache_read_tokens tokens_out
       reasoning_tokens None"

section \<open>Usage events\<close>

datatype backend = External | SelfHosted

record usage_event =
  ev_schema_version :: string
  ev_request_id :: string
  ev_occurred_at :: string
  ev_provider :: string
  ev_model :: string
  ev_backend :: backend
  ev_virtual_key_id :: "string option"
  ev_subject_id :: "string option"
  ev_group_id :: "string option"
  ev_route :: "string option"
  ev_session_id :: "string option"
  ev_idempotency_key :: "string option"
  ev_run_id :: "string option"
  ev_step_id :: "string option"
  ev_parent_id :: "string option"
  ev_trace_context :: "string option"
  ev_tokens_in :: u64
  ev_tokens_out :: u64
  ev_cache_creation_tokens :: u64
  ev_cache_read_tokens :: u64
  ev_cache_read_observation :: "cache_read_observation option"
  ev_usage_completeness :: usage_completeness
  ev_usage_basis :: usage_basis
  ev_attempts :: u32
  ev_outcome :: "string option"
  ev_upstream_request_id :: "string option"
  ev_gpu_seconds :: "f64 option"
  ev_duration_ms :: "u64 option"
  ev_duration_source :: "latency_source option"
  ev_time_to_first_token_ms :: "u64 option"
  ev_time_to_first_token_source :: "latency_source option"
  ev_reasoning_tokens :: "u64 option"
  ev_reasoning_included :: "bool option"

definition SCHEMA_VERSION :: string where "SCHEMA_VERSION = ''1''"

definition event_new :: "string \<Rightarrow> string \<Rightarrow> string \<Rightarrow> string \<Rightarrow> backend \<Rightarrow> usage_event" where
  "event_new request_id occurred_at provider model backend =
     \<lparr>ev_schema_version = SCHEMA_VERSION, ev_request_id = request_id,
      ev_occurred_at = occurred_at, ev_provider = provider, ev_model = model,
      ev_backend = backend, ev_virtual_key_id = None, ev_subject_id = None, ev_group_id = None,
      ev_route = None, ev_session_id = None, ev_idempotency_key = None, ev_run_id = None,
      ev_step_id = None, ev_parent_id = None, ev_trace_context = None, ev_tokens_in = 0,
      ev_tokens_out = 0, ev_cache_creation_tokens = 0, ev_cache_read_tokens = 0,
      ev_cache_read_observation = None, ev_usage_completeness = Unavailable,
      ev_usage_basis = ProviderReported, ev_attempts = 1, ev_outcome = None,
      ev_upstream_request_id = None, ev_gpu_seconds = None, ev_duration_ms = None,
      ev_duration_source = None, ev_time_to_first_token_ms = None,
      ev_time_to_first_token_source = None, ev_reasoning_tokens = None,
      ev_reasoning_included = None\<rparr>"

definition billable_tokens :: "usage_event \<Rightarrow> u64" where
  "billable_tokens e =
     billable_parts_with_reasoning (ev_tokens_in e) (ev_cache_creation_tokens e)
       (ev_cache_read_tokens e) (ev_tokens_out e) (unwrap_or (ev_reasoning_tokens e) 0)
       (ev_reasoning_included e)"

definition with_attribution ::
  "string option \<Rightarrow> string option \<Rightarrow> string option \<Rightarrow> usage_event \<Rightarrow> usage_event" where
  "with_attribution virtual_key_id subject_id group_id e =
     e\<lparr>ev_virtual_key_id := virtual_key_id, ev_subject_id := subject_id, ev_group_id := group_id\<rparr>"

definition with_session :: "string option \<Rightarrow> usage_event \<Rightarrow> usage_event" where
  "with_session session_id e = e\<lparr>ev_session_id := session_id\<rparr>"

definition with_latency :: "u64 option \<Rightarrow> u64 option \<Rightarrow> usage_event \<Rightarrow> usage_event" where
  "with_latency duration_ms ttft_ms e =
     e\<lparr>ev_duration_ms := duration_ms, ev_time_to_first_token_ms := ttft_ms\<rparr>"

definition with_latency_sources ::
  "latency_source option \<Rightarrow> latency_source option \<Rightarrow> usage_event \<Rightarrow> usage_event" where
  "with_latency_sources duration_source ttft_source e =
     e\<lparr>ev_duration_source := duration_source, ev_time_to_first_token_source := ttft_source\<rparr>"

definition with_reasoning :: "u64 option \<Rightarrow> usage_event \<Rightarrow> usage_event" where
  "with_reasoning reasoning_tokens e = e\<lparr>ev_reasoning_tokens := reasoning_tokens\<rparr>"

definition with_reasoning_included :: "bool option \<Rightarrow> usage_event \<Rightarrow> usage_event" where
  "with_reasoning_included included e = e\<lparr>ev_reasoning_included := included\<rparr>"

definition with_identity ::
  "string option \<Rightarrow> string option \<Rightarrow> string option \<Rightarrow> string option \<Rightarrow> string option \<Rightarrow>
     usage_event \<Rightarrow> usage_event" where
  "with_identity idempotency_key run_id step_id parent_id trace_context e =
     e\<lparr>ev_idempotency_key := idempotency_key, ev_run_id := run_id, ev_step_id := step_id,
       ev_parent_id := parent_id, ev_trace_context := trace_context\<rparr>"

definition with_route :: "string option \<Rightarrow> usage_event \<Rightarrow> usage_event" where
  "with_route route e = e\<lparr>ev_route := route\<rparr>"

definition with_tokens :: "u64 \<Rightarrow> u64 \<Rightarrow> usage_event \<Rightarrow> usage_event" where
  "with_tokens tokens_in tokens_out e = e\<lparr>ev_tokens_in := tokens_in, ev_tokens_out := tokens_out\<rparr>"

definition with_cache :: "u64 \<Rightarrow> u64 \<Rightarrow> usage_event \<Rightarrow> usage_event" where
  "with_cache creation read e =
     e\<lparr>ev_cache_creation_tokens := creation, ev_cache_read_tokens := read\<rparr>"

definition with_cache_read_observation ::
  "cache_read_observation option \<Rightarrow> usage_event \<Rightarrow> usage_event" where
  "with_cache_read_observation observation e =
     e\<lparr>ev_cache_read_observation := Option.bind observation observation_validated\<rparr>"

definition with_measurement ::
  "usage_completeness \<Rightarrow> u32 \<Rightarrow> string option \<Rightarrow> string option \<Rightarrow> usage_event \<Rightarrow> usage_event" where
  "with_measurement completeness attempts outcome upstream_request_id e =
     e\<lparr>ev_usage_completeness := completeness, ev_attempts := max attempts 1,
       ev_outcome := outcome, ev_upstream_request_id := upstream_request_id\<rparr>"

definition with_basis :: "usage_basis \<Rightarrow> usage_event \<Rightarrow> usage_event" where
  "with_basis basis e = e\<lparr>ev_usage_basis := basis\<rparr>"

definition with_gpu_seconds :: "f64 option \<Rightarrow> usage_event \<Rightarrow> usage_event" where
  "with_gpu_seconds gpu_seconds e = e\<lparr>ev_gpu_seconds := gpu_seconds\<rparr>"

lemmas event_setters = with_attribution_def with_session_def with_latency_def
  with_latency_sources_def with_reasoning_def with_reasoning_included_def with_identity_def
  with_route_def with_tokens_def with_cache_def with_cache_read_observation_def
  with_measurement_def with_basis_def with_gpu_seconds_def

section \<open>Lemmas\<close>

lemma unat_scaled_cache_read:
  "unat (scaled_cache_read n bp) = min (unat n * unat bp div 10000) (2 ^ 64 - 1)"
proof -
  have "unat n * unat bp \<le> (2 ^ 64 - 1) * (2 ^ 32 - 1)"
    by (rule mult_mono) (use unat_le_max [of n] unat_le_max [of bp] in simp_all)
  then have prod: "unat (ucast n * ucast bp :: 128 word) = unat n * unat bp"
    by (simp add: unat_word_ariths unat_ucast_up)
  have quot: "unat (ucast n * ucast bp div 10000 :: 128 word) = unat n * unat bp div 10000"
    by (simp add: unat_div prod)
  have top: "unat (ucast (- 1 :: u64) :: 128 word) = 2 ^ 64 - 1"
    by (simp add: unat_ucast_up unat_max_word)
  let ?m = "min (ucast n * ucast bp div 10000 :: 128 word) (ucast (- 1 :: u64))"
  have m: "unat ?m = min (unat n * unat bp div 10000) (2 ^ 64 - 1)"
    using quot top by (auto simp: min_def word_le_nat_alt)
  then have "unat (ucast ?m :: u64) = unat ?m"
    by (simp add: unsigned_ucast_eq take_bit_nat_eq_self_iff min_def)
  with m show ?thesis by (simp add: scaled_cache_read_def)
qed

lemma unat_billable_parts:
  "unat (billable_parts_with_reasoning i c r out re inc) =
     min (2 ^ 64 - 1)
       (unat i + unat c + unat r + unat out + unat (unfolded_reasoning re out inc))"
  by (simp add: billable_parts_with_reasoning_def Let_def unat_sat_add)

lemma unat_billable_weighted:
  "unat (billable_parts_weighted i c r out re inc bp) =
     min (2 ^ 64 - 1)
       (unat i + unat c + min (unat r * unat bp div 10000) (2 ^ 64 - 1) + unat out
        + unat (unfolded_reasoning re out inc))"
  by (simp add: billable_parts_weighted_def Let_def unat_sat_add unat_scaled_cache_read
        min_add_left min.commute [of "18446744073709551615"])

section \<open>Properties\<close>

text \<open>
  The billable total saturates and never wraps. It is the exact sum of the four token counts and
  of the reasoning tokens that the provider (or, without a marker, the magnitude rule) says are not
  part of the output, capped at the largest 64-bit value.
\<close>
theorem billable_exact:
  "unat (billable u) =
     min (2 ^ 64 - 1)
       (unat (u_tokens_in u) + unat (u_cache_creation_tokens u) + unat (u_cache_read_tokens u)
        + unat (u_tokens_out u)
        + (case (u_reasoning_included u, u_reasoning_tokens u) of
             (_, None) \<Rightarrow> 0
           | (Some True, _) \<Rightarrow> 0
           | (Some False, Some r) \<Rightarrow> unat r
           | (None, Some r) \<Rightarrow> if unat r > unat (u_tokens_out u) then unat r else 0))"
  by (auto simp: billable_def unat_billable_parts unfolded_reasoning_def word_less_nat_alt
      split: option.split bool.split)

text \<open>
  The cache-read weight interpolates the neutral formula. At 10000 basis points it is the
  neutral total, a smaller weight never charges more, and the charged cache reads are
  the scaled count rounded down.
\<close>
theorem billable_weighted_neutral:
  "billable_weighted u 10000 = billable u \<and>
   billable_weighted u (min a b) \<le> billable_weighted u b \<and>
   unat (scaled_cache_read n bp) = min (unat n * unat bp div 10000) (2 ^ 64 - 1)"
proof -
  have "scaled_cache_read n 10000 = n" for n
    using unat_lt_pow [of n] by (simp add: word_unat_eq_iff unat_scaled_cache_read)
  then have "billable_weighted u 10000 = billable u"
    by (simp add: billable_weighted_def billable_def billable_parts_weighted_def
        billable_parts_with_reasoning_def)
  moreover have "unat n * unat (min a b) div 10000 \<le> unat n * unat b div 10000" for n :: u64
    by (intro div_le_mono mult_le_mono2) (simp add: min_def word_le_nat_alt)
  then have "billable_weighted u (min a b) \<le> billable_weighted u b"
    unfolding billable_weighted_def word_le_nat_alt unat_billable_weighted
    by (intro min.mono add_mono order_refl)
  ultimately show ?thesis by (simp add: unat_scaled_cache_read)
qed

end
