(* ===== verification/Usage.thy ===== *)
theory Usage
  imports Event
begin

text \<open>
  \<^verbatim>\<open>crates/sandhi-core/src/usage.rs\<close> and \<^verbatim>\<open>observe_usage\<close> of
  \<^verbatim>\<open>cache_read.rs\<close>: the extraction of token counts from provider responses, one parser per
  family, the strict qualification of OpenAI usage objects, and the stamping of parsed counts onto
  events. Warnings written to the log are not part of the model.
\<close>

section \<open>Parsed usage\<close>

record parsed_usage =
  p_tokens_in :: u64
  p_tokens_out :: u64
  p_cache_creation_tokens :: u64
  p_cache_read_tokens :: u64
  p_cache_read_observation :: "cache_read_observation option"
  p_reasoning_tokens :: u64
  p_reasoning_included :: "bool option"
  p_duration_ms :: "u64 option"
  p_time_to_first_token_ms :: "u64 option"

definition usage_v2_from :: "parsed_usage \<Rightarrow> usage_v2" where
  "usage_v2_from p = usage_v2_default
     \<lparr>u_tokens_in := p_tokens_in p, u_tokens_out := p_tokens_out p,
      u_cache_creation_tokens := p_cache_creation_tokens p,
      u_cache_read_tokens := p_cache_read_tokens p,
      u_cache_read_observation := Option.bind (p_cache_read_observation p) observation_validated,
      u_reasoning_tokens := then_some (p_reasoning_tokens p > 0) (p_reasoning_tokens p),
      u_reasoning_included := p_reasoning_included p,
      u_duration_ms := p_duration_ms p,
      u_duration_source := map_option (\<lambda>_. Origin) (p_duration_ms p),
      u_time_to_first_token_ms := p_time_to_first_token_ms p,
      u_time_to_first_token_source := map_option (\<lambda>_. Origin) (p_time_to_first_token_ms p),
      u_completeness := Final\<rparr>"

definition usage_apply :: "parsed_usage \<Rightarrow> usage_event \<Rightarrow> usage_event" where
  "usage_apply p event =
     (let event = event\<lparr>ev_cache_read_observation :=
                          Option.bind (p_cache_read_observation p) observation_validated\<rparr>;
          event = with_tokens (p_tokens_in p) (p_tokens_out p) event;
          event = with_cache (p_cache_creation_tokens p) (p_cache_read_tokens p) event;
          event = with_reasoning (then_some (p_reasoning_tokens p > 0) (p_reasoning_tokens p)) event;
          event = with_reasoning_included (p_reasoning_included p) event;
          event = (case p_duration_ms p of
                     Some duration \<Rightarrow>
                       event\<lparr>ev_duration_ms := Some duration, ev_duration_source := Some Origin\<rparr>
                   | None \<Rightarrow> event);
          event = (case p_time_to_first_token_ms p of
                     Some ttft \<Rightarrow>
                       event\<lparr>ev_time_to_first_token_ms := Some ttft,
                             ev_time_to_first_token_source := Some Origin\<rparr>
                   | None \<Rightarrow> event);
          event = (if ev_usage_completeness event = Unavailable
                   then event\<lparr>ev_usage_completeness := Final\<rparr> else event);
          event = event\<lparr>ev_attempts := max (ev_attempts event) 1\<rparr>
      in event\<lparr>ev_outcome := Some (unwrap_or (ev_outcome event) ''success'')\<rparr>)"

section \<open>Reading fields\<close>

definition u64_at :: "'v json_api \<Rightarrow> 'v \<Rightarrow> string \<Rightarrow> u64" where
  "u64_at J v key =
     (case Option.bind (j_get J v key) (j_as_u64 J) of
        Some n \<Rightarrow> if n \<le> MAX_PLAUSIBLE_TOKENS then n else 0
      | None \<Rightarrow> 0)"

text \<open>\<^verbatim>\<open>f64::round\<close> of a non-negative value: half-way cases go up.\<close>

definition round_half_up :: "real \<Rightarrow> int" where
  "round_half_up r = \<lfloor>r + 1 / 2\<rfloor>"

definition millis_at :: "'v json_api \<Rightarrow> 'v \<Rightarrow> string \<Rightarrow> u64 option" where
  "millis_at J v key =
     (case Option.bind (j_get J v key) (j_as_f64 J) of
        None \<Rightarrow> None
      | Some Not_finite \<Rightarrow> None
      | Some (Finite value) \<Rightarrow>
          if value < 0 \<or> round_half_up value \<ge> 2 ^ 63 then None
          else Some (word_of_int (round_half_up value)))"

definition split_prompt :: "u64 \<Rightarrow> u64 \<Rightarrow> u64 \<times> bool" where
  "split_prompt prompt cached = (if cached > prompt then (0, True) else (prompt - cached, False))"

section \<open>Strict qualification of OpenAI usage\<close>

datatype buffered_usage_error =
  InvalidResponse | MissingUsage | InvalidField string | InconsistentUsage

definition required_count ::
  "'v json_api \<Rightarrow> 'v \<Rightarrow> string \<Rightarrow> string \<Rightarrow> buffered_usage_error + u64" where
  "required_count J object key field =
     (case Option.bind (j_get J object key) (j_as_u64 J) of
        Some n \<Rightarrow> if n \<le> MAX_PLAUSIBLE_TOKENS then Inr n else Inl (InvalidField field)
      | None \<Rightarrow> Inl (InvalidField field))"

definition optional_count ::
  "'v json_api \<Rightarrow> 'v \<Rightarrow> string \<Rightarrow> string \<Rightarrow> buffered_usage_error + u64 option" where
  "optional_count J object key field =
     (case j_get J object key of
        None \<Rightarrow> Inr None
      | Some _ \<Rightarrow> map_sum id Some (required_count J object key field))"

definition details_count ::
  "'v json_api \<Rightarrow> 'v \<Rightarrow> string \<Rightarrow> string \<Rightarrow> string \<Rightarrow> buffered_usage_error + u64 option" where
  "details_count J usage key counter field =
     (case j_get J usage key of
        None \<Rightarrow> Inr None
      | Some object \<Rightarrow>
          if j_is_null J object then Inr None
          else if j_is_object J object then optional_count J object counter field
          else Inl (InvalidField key))"

text \<open>The cross-field checks at the end of the validation.\<close>

definition usage_counts_disagree ::
  "u64 \<Rightarrow> u64 \<Rightarrow> u64 option \<Rightarrow> u64 option \<Rightarrow> u64 option \<Rightarrow> u64 option \<Rightarrow> bool" where
  "usage_counts_disagree prompt completion cached reasoning hit miss \<longleftrightarrow>
     is_some_and cached (\<lambda>n. n > prompt) \<or>
     is_some_and reasoning (\<lambda>n. n > completion) \<or>
     is_some_and hit (\<lambda>n. n > prompt) \<or>
     is_some_and miss (\<lambda>n. is_none_or hit (\<lambda>hit. checked_add hit n \<noteq> Some prompt)) \<or>
     (case (hit, cached) of (Some a, Some b) \<Rightarrow> a \<noteq> b | _ \<Rightarrow> False)"

definition validate_openai_buffered_usage ::
  "'v json_api \<Rightarrow> 'v \<Rightarrow> buffered_usage_error + unit" where
  "validate_openai_buffered_usage J response =
     (if \<not> j_is_object J response then Inl InvalidResponse
      else case j_get J response ''usage'' of
        None \<Rightarrow> Inl MissingUsage
      | Some usage \<Rightarrow>
          if \<not> j_is_object J usage then Inl (InvalidField ''usage'')
          else
            bind_res (required_count J usage ''prompt_tokens'' ''prompt_tokens'') (\<lambda>prompt.
            bind_res (required_count J usage ''completion_tokens'' ''completion_tokens'') (\<lambda>completion.
            bind_res (details_count J usage ''prompt_tokens_details'' ''cached_tokens''
                        ''prompt_tokens_details.cached_tokens'') (\<lambda>cached.
            bind_res (details_count J usage ''completion_tokens_details'' ''reasoning_tokens''
                        ''completion_tokens_details.reasoning_tokens'') (\<lambda>reasoning.
            bind_res (optional_count J usage ''prompt_cache_hit_tokens'' ''prompt_cache_hit_tokens'') (\<lambda>hit.
            bind_res (optional_count J usage ''prompt_cache_miss_tokens'' ''prompt_cache_miss_tokens'') (\<lambda>miss.
              if usage_counts_disagree prompt completion cached reasoning hit miss
              then Inl InconsistentUsage
              else case j_get J usage ''total_tokens'' of
                None \<Rightarrow> Inr ()
              | Some v \<Rightarrow>
                  (case j_as_u64 J v of
                     None \<Rightarrow> Inl (InvalidField ''total_tokens'')
                   | Some n \<Rightarrow>
                       if checked_add prompt completion \<noteq> Some n
                       then Inl InconsistentUsage else Inr ()))))))))"

section \<open>The parsers\<close>

text \<open>\<^verbatim>\<open>usage.get(key).map(|d| u64_at(d, field)).unwrap_or(0)\<close>.\<close>

definition nested_u64 :: "'v json_api \<Rightarrow> 'v \<Rightarrow> string \<Rightarrow> string \<Rightarrow> u64" where
  "nested_u64 J v key field = unwrap_or (map_option (\<lambda>d. u64_at J d field) (j_get J v key)) 0"

definition parse_openai_usage :: "'v json_api \<Rightarrow> 'v \<Rightarrow> parsed_usage option" where
  "parse_openai_usage J response =
     Option.bind (j_get J response ''usage'') (\<lambda>usage.
       let duration_ms = millis_at J usage ''duration_ms'';
           ttft_ms = millis_at J usage ''time_to_first_token_ms'';
           completion = u64_at J usage ''completion_tokens'';
           reasoning = nested_u64 J usage ''completion_tokens_details'' ''reasoning_tokens''
       in if j_get J usage ''prompt_cache_hit_tokens'' \<noteq> None
          then
            (let hit = u64_at J usage ''prompt_cache_hit_tokens'';
                 fresh = (if j_get J usage ''prompt_cache_miss_tokens'' \<noteq> None
                          then u64_at J usage ''prompt_cache_miss_tokens''
                          else sat_sub (u64_at J usage ''prompt_tokens'') hit)
             in Some \<lparr>p_tokens_in = fresh, p_tokens_out = completion,
                      p_cache_creation_tokens = 0, p_cache_read_tokens = hit,
                      p_cache_read_observation = Some (observe_cache_read J OpenAi response),
                      p_reasoning_tokens = reasoning, p_reasoning_included = Some True,
                      p_duration_ms = duration_ms, p_time_to_first_token_ms = ttft_ms\<rparr>)
          else
            (let prompt = u64_at J usage ''prompt_tokens'';
                 cached = nested_u64 J usage ''prompt_tokens_details'' ''cached_tokens''
             in Some \<lparr>p_tokens_in = fst (split_prompt prompt cached), p_tokens_out = completion,
                      p_cache_creation_tokens = 0, p_cache_read_tokens = cached,
                      p_cache_read_observation = Some (observe_cache_read J OpenAi response),
                      p_reasoning_tokens = reasoning, p_reasoning_included = Some True,
                      p_duration_ms = duration_ms, p_time_to_first_token_ms = ttft_ms\<rparr>))"

definition parse_openai_responses_usage :: "'v json_api \<Rightarrow> 'v \<Rightarrow> parsed_usage option" where
  "parse_openai_responses_usage J response =
     Option.bind (j_get J response ''usage'') (\<lambda>usage.
       let input = u64_at J usage ''input_tokens'';
           out = u64_at J usage ''output_tokens'';
           cached = nested_u64 J usage ''input_tokens_details'' ''cached_tokens'';
           reasoning = nested_u64 J usage ''output_tokens_details'' ''reasoning_tokens''
       in Some \<lparr>p_tokens_in = fst (split_prompt input cached), p_tokens_out = out,
                p_cache_creation_tokens = 0, p_cache_read_tokens = cached,
                p_cache_read_observation = Some (observe_cache_read J OpenAiResponses response),
                p_reasoning_tokens = reasoning, p_reasoning_included = Some True,
                p_duration_ms = None, p_time_to_first_token_ms = None\<rparr>)"

text \<open>\<^verbatim>\<open>field.unwrap_or(0).max(0) as u64\<close> on an \<^verbatim>\<open>i64\<close> field.\<close>

definition count_of_i64 :: "int option \<Rightarrow> u64" where
  "count_of_i64 n = word_of_int (max (unwrap_or n 0) 0)"

definition parse_anthropic_usage :: "'v json_api \<Rightarrow> 'v \<Rightarrow> parsed_usage option" where
  "parse_anthropic_usage J response =
     Option.bind (j_get J response ''usage'') (\<lambda>usage.
     Option.bind (j_anthropic_usage J usage) (\<lambda>u.
       Some \<lparr>p_tokens_in = count_of_i64 (a_input_tokens u),
             p_tokens_out = count_of_i64 (a_output_tokens u),
             p_cache_creation_tokens = count_of_i64 (a_cache_creation_input_tokens u),
             p_cache_read_tokens = count_of_i64 (a_cache_read_input_tokens u),
             p_cache_read_observation = Some (observe_cache_read J Anthropic response),
             p_reasoning_tokens = 0, p_reasoning_included = Some True,
             p_duration_ms = None, p_time_to_first_token_ms = None\<rparr>))"

definition parse_gemini_usage :: "'v json_api \<Rightarrow> 'v \<Rightarrow> parsed_usage option" where
  "parse_gemini_usage J response =
     Option.bind (j_get J response ''usageMetadata'') (\<lambda>usage.
       let prompt = u64_at J usage ''promptTokenCount'';
           cached = u64_at J usage ''cachedContentTokenCount''
       in Some \<lparr>p_tokens_in = fst (split_prompt prompt cached),
                p_tokens_out = u64_at J usage ''candidatesTokenCount'',
                p_cache_creation_tokens = 0, p_cache_read_tokens = cached,
                p_cache_read_observation = Some (observe_cache_read J Gemini response),
                p_reasoning_tokens = u64_at J usage ''thoughtsTokenCount'',
                p_reasoning_included = Some False,
                p_duration_ms = None, p_time_to_first_token_ms = None\<rparr>)"

definition parse_cohere_usage :: "'v json_api \<Rightarrow> 'v \<Rightarrow> parsed_usage option" where
  "parse_cohere_usage J response =
     Option.bind (j_get J response ''usage'') (\<lambda>usage.
       let units = (case j_get J usage ''billed_units'' of
                      Some b \<Rightarrow> b
                    | None \<Rightarrow> unwrap_or (j_get J usage ''tokens'') usage);
           tokens_in = u64_at J units ''input_tokens'';
           tokens_out = u64_at J units ''output_tokens''
       in if tokens_in = 0 \<and> tokens_out = 0 then None
          else Some \<lparr>p_tokens_in = tokens_in, p_tokens_out = tokens_out,
                     p_cache_creation_tokens = 0, p_cache_read_tokens = 0,
                     p_cache_read_observation = Some (observe_cache_read J Cohere response),
                     p_reasoning_tokens = 0, p_reasoning_included = Some True,
                     p_duration_ms = None, p_time_to_first_token_ms = None\<rparr>)"

definition parse_ollama_usage :: "'v json_api \<Rightarrow> 'v \<Rightarrow> parsed_usage option" where
  "parse_ollama_usage J response =
     (if j_get J response ''prompt_eval_count'' = None \<and> j_get J response ''eval_count'' = None
      then None
      else Some \<lparr>p_tokens_in = u64_at J response ''prompt_eval_count'',
                 p_tokens_out = u64_at J response ''eval_count'',
                 p_cache_creation_tokens = 0, p_cache_read_tokens = 0,
                 p_cache_read_observation = Some (observe_cache_read J Ollama response),
                 p_reasoning_tokens = 0, p_reasoning_included = Some True,
                 p_duration_ms = None, p_time_to_first_token_ms = None\<rparr>)"

definition parse_bedrock_usage :: "'v json_api \<Rightarrow> 'v \<Rightarrow> parsed_usage option" where
  "parse_bedrock_usage J response =
     (case j_get J response ''usage'' of
        Some usage \<Rightarrow>
          Some \<lparr>p_tokens_in = u64_at J usage ''input_tokens'',
                p_tokens_out = u64_at J usage ''output_tokens'',
                p_cache_creation_tokens = u64_at J usage ''cache_creation_input_tokens'',
                p_cache_read_tokens = u64_at J usage ''cache_read_input_tokens'',
                p_cache_read_observation = Some (observe_cache_read J Bedrock response),
                p_reasoning_tokens = 0, p_reasoning_included = Some True,
                p_duration_ms = None, p_time_to_first_token_ms = None\<rparr>
      | None \<Rightarrow>
          if j_get J response ''inputTextTokenCount'' \<noteq> None
          then
            (let out = unwrap_or
               (map_option (\<lambda>r. sum_list (map (\<lambda>x. u64_at J x ''tokenCount'') r))
                 (Option.bind (j_get J response ''results'') (j_as_array J))) 0
             in Some \<lparr>p_tokens_in = u64_at J response ''inputTextTokenCount'',
                      p_tokens_out = out,
                      p_cache_creation_tokens = 0, p_cache_read_tokens = 0,
                      p_cache_read_observation = Some (observe_cache_read J Bedrock response),
                      p_reasoning_tokens = 0, p_reasoning_included = Some True,
                      p_duration_ms = None, p_time_to_first_token_ms = None\<rparr>)
          else None)"

section \<open>Qualified stream usage and observed usage\<close>

datatype stream_usage_error =
  InvalidChunk | NonFinalUsage | InvalidUsage buffered_usage_error

definition qualify_openai_stream_usage ::
  "'v json_api \<Rightarrow> 'v \<Rightarrow> stream_usage_error + parsed_usage option" where
  "qualify_openai_stream_usage J event =
     (if Option.bind (j_get J event ''object'') (j_as_str J) \<noteq> Some ''chat.completion.chunk'' \<or>
         j_get J event ''error'' \<noteq> None
      then Inl InvalidChunk
      else case Option.bind (j_get J event ''choices'') (j_as_array J) of
        None \<Rightarrow> Inl InvalidChunk
      | Some choices \<Rightarrow>
          if is_none_or (j_get J event ''usage'') (j_is_null J) then Inr None
          else if choices \<noteq> [] then Inl NonFinalUsage
          else case validate_openai_buffered_usage J event of
            Inl e \<Rightarrow> Inl (InvalidUsage e)
          | Inr _ \<Rightarrow>
              (case parse_openai_usage J event of
                 Some u \<Rightarrow> Inr (Some u)
               | None \<Rightarrow> Inl (InvalidUsage MissingUsage)))"

record observed_usage =
  ou_usage :: "parsed_usage option"
  ou_cache_read_observation :: "cache_read_observation option"

definition observe_usage :: "'v json_api \<Rightarrow> cache_read_family \<Rightarrow> 'v \<Rightarrow> observed_usage" where
  "observe_usage J family response =
     \<lparr>ou_usage =
        (case family of
           OpenAi \<Rightarrow> parse_openai_usage J response
         | OpenAiResponses \<Rightarrow> parse_openai_responses_usage J response
         | Anthropic \<Rightarrow> parse_anthropic_usage J response
         | Gemini \<Rightarrow> parse_gemini_usage J response
         | Cohere \<Rightarrow> parse_cohere_usage J response
         | Ollama \<Rightarrow> parse_ollama_usage J response
         | Bedrock \<Rightarrow> parse_bedrock_usage J response),
      ou_cache_read_observation = Some (observe_cache_read J family response)\<rparr>"

section \<open>Lemmas\<close>

lemma u64_at_le: "u64_at J v key \<le> MAX_PLAUSIBLE_TOKENS"
  by (simp add: u64_at_def MAX_PLAUSIBLE_TOKENS_def split: option.split)

lemma nested_u64_le: "nested_u64 J v key field \<le> MAX_PLAUSIBLE_TOKENS"
  by (simp add: nested_u64_def unwrap_or_def u64_at_le MAX_PLAUSIBLE_TOKENS_def split: option.split)
     (simp add: u64_at_le [unfolded MAX_PLAUSIBLE_TOKENS_def])

lemma split_prompt_le: "fst (split_prompt prompt cached) \<le> prompt"
  by (simp add: split_prompt_def word_sub_le not_less)

lemma required_count_Inr:
  "required_count J v key field = Inr n \<Longrightarrow> u64_at J v key = n \<and> j_get J v key \<noteq> None"
  by (cases "j_get J v key") (auto simp: required_count_def u64_at_def split: option.splits if_splits)

lemma optional_count_Inr:
  assumes "optional_count J v key field = Inr x"
  shows "u64_at J v key = unwrap_or x 0 \<and> (j_get J v key = None) = (x = None)"
proof (cases "j_get J v key")
  case None
  with assms show ?thesis by (simp add: optional_count_def u64_at_def)
next
  case (Some w)
  with assms required_count_Inr [of J v key field] show ?thesis
    by (cases "required_count J v key field") (auto simp: optional_count_def)
qed

lemma details_count_Inr:
  assumes "json_laws J" and "details_count J v key counter field = Inr x"
  shows "nested_u64 J v key counter = unwrap_or x 0"
proof (cases "j_get J v key")
  case None
  with assms show ?thesis by (simp add: details_count_def nested_u64_def)
next
  case (Some w)
  with assms optional_count_Inr [of J w counter field] json_null_get [of J w counter] show ?thesis
    by (auto simp: details_count_def nested_u64_def u64_at_def split: if_splits)
qed

text \<open>What an accepted usage object is known to satisfy.\<close>

lemma validate_Inr:
  assumes "json_laws J" and "validate_openai_buffered_usage J response = Inr ()"
  obtains usage cached reasoning hit miss where
    "j_get J response ''usage'' = Some usage"
    "nested_u64 J usage ''prompt_tokens_details'' ''cached_tokens'' = unwrap_or cached 0"
    "nested_u64 J usage ''completion_tokens_details'' ''reasoning_tokens'' = unwrap_or reasoning 0"
    "u64_at J usage ''prompt_cache_hit_tokens'' = unwrap_or hit 0"
    "(j_get J usage ''prompt_cache_hit_tokens'' = None) = (hit = None)"
    "u64_at J usage ''prompt_cache_miss_tokens'' = unwrap_or miss 0"
    "(j_get J usage ''prompt_cache_miss_tokens'' = None) = (miss = None)"
    "\<not> usage_counts_disagree (u64_at J usage ''prompt_tokens'') (u64_at J usage ''completion_tokens'')
       cached reasoning hit miss"
proof -
  from assms(2) obtain usage prompt completion cached reasoning hit miss where
    u: "j_get J response ''usage'' = Some usage"
    and r: "required_count J usage ''prompt_tokens'' ''prompt_tokens'' = Inr prompt"
      "required_count J usage ''completion_tokens'' ''completion_tokens'' = Inr completion"
    and d: "details_count J usage ''prompt_tokens_details'' ''cached_tokens''
        ''prompt_tokens_details.cached_tokens'' = Inr cached"
      "details_count J usage ''completion_tokens_details'' ''reasoning_tokens''
        ''completion_tokens_details.reasoning_tokens'' = Inr reasoning"
    and o: "optional_count J usage ''prompt_cache_hit_tokens'' ''prompt_cache_hit_tokens'' = Inr hit"
      "optional_count J usage ''prompt_cache_miss_tokens'' ''prompt_cache_miss_tokens'' = Inr miss"
    and ok: "\<not> usage_counts_disagree prompt completion cached reasoning hit miss"
    by (auto simp: validate_openai_buffered_usage_def bind_res_def
        split: if_splits option.splits sum.splits)
  note hit = optional_count_Inr [OF o(1)] and miss = optional_count_Inr [OF o(2)]
  show thesis
    by (rule that [OF u details_count_Inr [OF assms(1) d(1)] details_count_Inr [OF assms(1) d(2)]
          conjunct1 [OF hit] conjunct2 [OF hit] conjunct1 [OF miss] conjunct2 [OF miss]])
       (simp add: ok required_count_Inr [OF r(1)] required_count_Inr [OF r(2)])
qed

text \<open>The fields of a parsed OpenAI usage object.\<close>

lemma parse_openai_fields:
  assumes "j_get J response ''usage'' = Some usage"
  obtains p where "parse_openai_usage J response = Some p"
    "p_tokens_out p = u64_at J usage ''completion_tokens''"
    "p_cache_creation_tokens p = 0" "p_reasoning_included p = Some True"
    "p_reasoning_tokens p = nested_u64 J usage ''completion_tokens_details'' ''reasoning_tokens''"
    "p_cache_read_tokens p =
       (if j_get J usage ''prompt_cache_hit_tokens'' \<noteq> None
        then u64_at J usage ''prompt_cache_hit_tokens''
        else nested_u64 J usage ''prompt_tokens_details'' ''cached_tokens'')"
    "p_tokens_in p =
       (if j_get J usage ''prompt_cache_hit_tokens'' = None
        then fst (split_prompt (u64_at J usage ''prompt_tokens'')
               (nested_u64 J usage ''prompt_tokens_details'' ''cached_tokens''))
        else if j_get J usage ''prompt_cache_miss_tokens'' = None
        then sat_sub (u64_at J usage ''prompt_tokens'') (u64_at J usage ''prompt_cache_hit_tokens'')
        else u64_at J usage ''prompt_cache_miss_tokens'')"
proof (cases "j_get J usage ''prompt_cache_hit_tokens'' = None")
  case True
  show thesis
    by (rule that [of "the (parse_openai_usage J response)"])
       (simp_all add: parse_openai_usage_def assms True Let_def)
next
  case False
  show thesis
    by (rule that [of "the (parse_openai_usage J response)"])
       (simp_all add: parse_openai_usage_def assms False Let_def del: not_None_eq)
qed

lemma unat_sub_exact: "b \<le> a \<Longrightarrow> unat (a - b) = unat a - unat (b :: 'a::len word)"
  by (simp add: unat_sub)

text \<open>The counts that the parser extracts from an accepted usage object.\<close>

lemma validated_counts:
  assumes "json_laws J" and "validate_openai_buffered_usage J response = Inr ()"
  obtains usage p where "j_get J response ''usage'' = Some usage" "parse_openai_usage J response = Some p"
    "unat (p_tokens_in p) + unat (p_cache_read_tokens p) = unat (u64_at J usage ''prompt_tokens'')"
    "p_tokens_out p = u64_at J usage ''completion_tokens''"
    "p_reasoning_tokens p \<le> p_tokens_out p" "p_cache_creation_tokens p = 0"
    "p_reasoning_included p = Some True"
proof -
  from assms obtain usage cached reasoning hit miss where
    u: "j_get J response ''usage'' = Some usage"
    and c: "nested_u64 J usage ''prompt_tokens_details'' ''cached_tokens'' = unwrap_or cached 0"
    and r: "nested_u64 J usage ''completion_tokens_details'' ''reasoning_tokens'' = unwrap_or reasoning 0"
    and h: "u64_at J usage ''prompt_cache_hit_tokens'' = unwrap_or hit 0"
      "(j_get J usage ''prompt_cache_hit_tokens'' = None) = (hit = None)"
    and m: "u64_at J usage ''prompt_cache_miss_tokens'' = unwrap_or miss 0"
      "(j_get J usage ''prompt_cache_miss_tokens'' = None) = (miss = None)"
    and ok: "\<not> usage_counts_disagree (u64_at J usage ''prompt_tokens'')
        (u64_at J usage ''completion_tokens'') cached reasoning hit miss"
    by (rule validate_Inr)
  let ?prompt = "u64_at J usage ''prompt_tokens''"
  from u obtain p where p: "parse_openai_usage J response = Some p"
    and fields: "p_tokens_out p = u64_at J usage ''completion_tokens''"
      "p_cache_creation_tokens p = 0" "p_reasoning_included p = Some True"
      "p_reasoning_tokens p = unwrap_or reasoning 0"
    and read: "p_cache_read_tokens p = (if hit \<noteq> None then unwrap_or hit 0 else unwrap_or cached 0)"
    and fresh: "p_tokens_in p =
       (if hit = None then fst (split_prompt ?prompt (unwrap_or cached 0))
        else if miss = None then sat_sub ?prompt (unwrap_or hit 0) else unwrap_or miss 0)"
    by (rule parse_openai_fields) (simp only: c r h m)
  have "p_reasoning_tokens p \<le> p_tokens_out p"
    using ok fields
    by (cases reasoning) (auto simp: usage_counts_disagree_def is_some_and_def not_less)
  moreover have "unat (p_tokens_in p) + unat (p_cache_read_tokens p) = unat ?prompt"
  proof (cases hit)
    case None
    with ok have "miss = None" by (auto simp: usage_counts_disagree_def is_some_and_def is_none_or_def
          split: option.splits)
    moreover have "unwrap_or cached 0 \<le> ?prompt"
      using ok by (cases cached) (auto simp: usage_counts_disagree_def is_some_and_def not_less)
    ultimately show ?thesis
      by (simp add: read fresh None split_prompt_def unat_sub_exact not_less word_le_nat_alt
          word_less_nat_alt)
  next
    case (Some x)
    then have le: "x \<le> ?prompt"
      using ok by (auto simp: usage_counts_disagree_def is_some_and_def not_less)
    show ?thesis
    proof (cases miss)
      case None
      with Some le show ?thesis
        by (simp add: read fresh sat_sub_def unat_sub_exact word_le_nat_alt)
    next
      case (Some y)
      with \<open>hit = Some x\<close> ok have "checked_add x y = Some ?prompt"
        by (auto simp: usage_counts_disagree_def is_some_and_def is_none_or_def)
      with Some \<open>hit = Some x\<close> show ?thesis
        by (simp add: read fresh checked_add_eq_Some)
    qed
  qed
  ultimately show thesis using that u p fields by blast
qed

lemma field_status_unreported:
  assumes "json_laws J" and "field_status J v [key] \<noteq> Reported"
  shows "u64_at J v key = 0"
  using assms(2) json_get_not_object [OF assms(1), of v key]
  by (auto simp: u64_at_def split: option.splits if_splits)

lemma field_status_reported:
  assumes "field_status J v [key] = Reported"
  shows "\<exists>w. j_get J v key = Some w \<and> j_as_u64 J w = Some (u64_at J v key)"
  using assms by (auto simp: u64_at_def split: option.splits if_splits)

lemma nested_unreported:
  assumes "json_laws J" and "field_status J v [key, field] \<noteq> Reported"
  shows "nested_u64 J v key field = 0"
proof (cases "j_get J v key")
  case (Some d)
  with assms(2) json_get_object [OF assms(1) Some] have "field_status J d [field] \<noteq> Reported" by simp
  with Some field_status_unreported [OF assms(1)] show ?thesis by (simp add: nested_u64_def)
qed (simp add: nested_u64_def)

lemma field_status_under:
  assumes "json_laws J" and "j_get J v key = Some w"
  shows "field_status J v (key # path) = field_status J w path"
  using assms json_get_object [OF assms] by simp

lemma validated_billable:
  assumes "json_laws J" and "validate_openai_buffered_usage J response = Inr ()"
  shows "\<exists>usage p. j_get J response ''usage'' = Some usage \<and> parse_openai_usage J response = Some p \<and>
    unat (p_tokens_in p) + unat (p_cache_read_tokens p) = unat (u64_at J usage ''prompt_tokens'') \<and>
    p_tokens_out p = u64_at J usage ''completion_tokens'' \<and>
    p_reasoning_tokens p \<le> p_tokens_out p \<and>
    unat (billable (usage_v2_from p)) =
      unat (u64_at J usage ''prompt_tokens'') + unat (u64_at J usage ''completion_tokens'')"
proof -
  from assms obtain usage p where u: "j_get J response ''usage'' = Some usage"
      "parse_openai_usage J response = Some p"
    and counts: "unat (p_tokens_in p) + unat (p_cache_read_tokens p) = unat (u64_at J usage ''prompt_tokens'')"
      "p_tokens_out p = u64_at J usage ''completion_tokens''" "p_reasoning_tokens p \<le> p_tokens_out p"
      "p_cache_creation_tokens p = 0" "p_reasoning_included p = Some True"
    by (rule validated_counts)
  have small: "unat (u64_at J usage k) \<le> 50000000000" for k
    using u64_at_le [of J usage k] by (simp add: word_le_nat_alt MAX_PLAUSIBLE_TOKENS_def)
  have "unat (billable (usage_v2_from p)) =
      unat (u64_at J usage ''prompt_tokens'') + unat (u64_at J usage ''completion_tokens'')"
    using counts small [of "''prompt_tokens''"] small [of "''completion_tokens''"]
    by (simp add: billable_def unat_billable_parts usage_v2_from_def unfolded_reasoning_def)
  with u counts show ?thesis by blast
qed

lemma count_not_missing:
  "required_count J v key field \<noteq> Inl MissingUsage"
  "optional_count J v key field \<noteq> Inl MissingUsage"
  "details_count J v key counter field \<noteq> Inl MissingUsage"
proof -
  show req: "required_count J v key field \<noteq> Inl MissingUsage" for v key field
    by (simp add: required_count_def split: option.split)
  show opt: "optional_count J v key field \<noteq> Inl MissingUsage" for v key field
    using req [of v key field]
    by (cases "required_count J v key field") (simp_all add: optional_count_def split: option.split)
  show "details_count J v key counter field \<noteq> Inl MissingUsage"
    by (simp add: details_count_def opt split: option.split)
qed

lemma bind_res_not_missing:
  "r \<noteq> Inl MissingUsage \<Longrightarrow> (\<And>v. f v \<noteq> Inl MissingUsage) \<Longrightarrow> bind_res r f \<noteq> Inl MissingUsage"
  by (cases r) (simp_all add: bind_res_def)

lemma validate_not_missing:
  assumes "j_get J response ''usage'' = Some usage"
  shows "validate_openai_buffered_usage J response \<noteq> Inl MissingUsage"
proof -
  have "(if d then Inl InconsistentUsage
         else case t of
                None \<Rightarrow> Inr ()
              | Some v \<Rightarrow> (case j_as_u64 J v of
                             None \<Rightarrow> Inl (InvalidField f)
                           | Some n \<Rightarrow> if c n then Inl InconsistentUsage else Inr ()))
      \<noteq> Inl MissingUsage" for d t f c
    by (simp split: option.split)
  then show ?thesis
    unfolding validate_openai_buffered_usage_def assms
    by (simp add: bind_res_not_missing count_not_missing)
qed

section \<open>Properties\<close>

text \<open>
  C33: a qualified OpenAI usage object is metered exactly. Once the strict validation accepts a
  response, the parser returns a measurement, its fresh and cached input add up to the prompt
  tokens, its output is the completion tokens with the reasoning inside it, and the tokens billed
  for it are prompt plus completion, whichever way the cache split was reported.
\<close>
theorem qualified_usage_exact:
  assumes "json_laws J" and "validate_openai_buffered_usage J response = Inr ()"
  shows "\<exists>usage p. j_get J response ''usage'' = Some usage \<and> parse_openai_usage J response = Some p \<and>
    unat (p_tokens_in p) + unat (p_cache_read_tokens p) = unat (u64_at J usage ''prompt_tokens'') \<and>
    p_tokens_out p = u64_at J usage ''completion_tokens'' \<and>
    p_reasoning_tokens p \<le> p_tokens_out p \<and>
    unat (billable (usage_v2_from p)) =
      unat (u64_at J usage ''prompt_tokens'') + unat (u64_at J usage ''completion_tokens'')"
  using assms by (rule validated_billable)

text \<open>
  An event billed from a parsed measurement costs what the typed record costs. Stamping the
  counts on any event gives the billable quantity of the record built from them, stamping twice is
  stamping once, an outcome already set is kept, and the attribution is untouched.
\<close>
theorem apply_bills_the_measurement:
  "billable_tokens (usage_apply p e) = billable (usage_v2_from p) \<and>
   usage_apply p (usage_apply p e) = usage_apply p e \<and>
   ev_outcome (usage_apply p (e\<lparr>ev_outcome := Some out\<rparr>)) = Some out \<and>
   ev_subject_id (usage_apply p e) = ev_subject_id e \<and>
   ev_virtual_key_id (usage_apply p e) = ev_virtual_key_id e \<and>
   ev_run_id (usage_apply p e) = ev_run_id e"
proof -
  have eq: "usage_apply p e =
    e\<lparr>ev_tokens_in := p_tokens_in p, ev_tokens_out := p_tokens_out p,
      ev_cache_creation_tokens := p_cache_creation_tokens p,
      ev_cache_read_tokens := p_cache_read_tokens p,
      ev_cache_read_observation := Option.bind (p_cache_read_observation p) observation_validated,
      ev_usage_completeness :=
        (if ev_usage_completeness e = Unavailable then Final else ev_usage_completeness e),
      ev_attempts := max (ev_attempts e) 1,
      ev_outcome := Some (unwrap_or (ev_outcome e) ''success''),
      ev_duration_ms := (case p_duration_ms p of Some d \<Rightarrow> Some d | None \<Rightarrow> ev_duration_ms e),
      ev_duration_source :=
        (case p_duration_ms p of Some d \<Rightarrow> Some Origin | None \<Rightarrow> ev_duration_source e),
      ev_time_to_first_token_ms :=
        (case p_time_to_first_token_ms p of Some d \<Rightarrow> Some d | None \<Rightarrow> ev_time_to_first_token_ms e),
      ev_time_to_first_token_source :=
        (case p_time_to_first_token_ms p of
           Some d \<Rightarrow> Some Origin | None \<Rightarrow> ev_time_to_first_token_source e),
      ev_reasoning_tokens := then_some (p_reasoning_tokens p > 0) (p_reasoning_tokens p),
      ev_reasoning_included := p_reasoning_included p\<rparr>" for e
    by (cases e) (simp add: usage_apply_def Let_def event_setters split: option.split)
  show ?thesis
    by (simp add: eq billable_tokens_def billable_def usage_v2_from_def split: option.split)
qed

text \<open>The counts of one measurement are plausible, and an unreported cache count is zero.\<close>

definition plausible :: "parsed_usage \<Rightarrow> bool" where
  "plausible p \<longleftrightarrow>
     p_tokens_in p \<le> MAX_PLAUSIBLE_TOKENS \<and> p_cache_creation_tokens p \<le> MAX_PLAUSIBLE_TOKENS \<and>
     p_cache_read_tokens p \<le> MAX_PLAUSIBLE_TOKENS \<and> p_reasoning_tokens p \<le> MAX_PLAUSIBLE_TOKENS"

lemma fresh_le: "prompt \<le> m \<Longrightarrow> fst (split_prompt prompt cached) \<le> m"
  by (rule order_trans [OF split_prompt_le])

lemma sat_sub_le: "a \<le> m \<Longrightarrow> sat_sub a b \<le> (m :: 'a::len word)"
  using word_sub_le [of b a] by (auto simp: sat_sub_def intro: order_trans)

lemma zero_le_max: "0 \<le> MAX_PLAUSIBLE_TOKENS"
  by simp

lemmas count_bounds = u64_at_le nested_u64_le fresh_le sat_sub_le zero_le_max

lemma openai_plausible:
  assumes "json_laws J" and "parse_openai_usage J response = Some p"
  shows "plausible p \<and> p_tokens_out p \<le> MAX_PLAUSIBLE_TOKENS \<and>
    (cache_read_status_of J OpenAi response \<noteq> Reported \<longrightarrow> p_cache_read_tokens p = 0)"
proof -
  from assms(2) obtain usage where u: "j_get J response ''usage'' = Some usage"
    by (cases "j_get J response ''usage''") (simp_all add: parse_openai_usage_def)
  from u obtain q where q: "parse_openai_usage J response = Some q"
    and f: "p_tokens_out q = u64_at J usage ''completion_tokens''" "p_cache_creation_tokens q = 0"
      "p_reasoning_tokens q = nested_u64 J usage ''completion_tokens_details'' ''reasoning_tokens''"
    and read: "p_cache_read_tokens q =
       (if j_get J usage ''prompt_cache_hit_tokens'' \<noteq> None
        then u64_at J usage ''prompt_cache_hit_tokens''
        else nested_u64 J usage ''prompt_tokens_details'' ''cached_tokens'')"
    and fresh: "p_tokens_in q =
       (if j_get J usage ''prompt_cache_hit_tokens'' = None
        then fst (split_prompt (u64_at J usage ''prompt_tokens'')
               (nested_u64 J usage ''prompt_tokens_details'' ''cached_tokens''))
        else if j_get J usage ''prompt_cache_miss_tokens'' = None
        then sat_sub (u64_at J usage ''prompt_tokens'') (u64_at J usage ''prompt_cache_hit_tokens'')
        else u64_at J usage ''prompt_cache_miss_tokens'')"
    by (rule parse_openai_fields)
  have "p = q" using assms(2) q by simp
  have "cache_read_status_of J OpenAi response =
      (if j_get J usage ''prompt_cache_hit_tokens'' \<noteq> None
       then field_status J usage [''prompt_cache_hit_tokens'']
       else field_status J usage [''prompt_tokens_details'', ''cached_tokens''])"
    unfolding cache_read_status_of_def
    by (simp only: u Option.bind.bind_lunit cache_read_family.case field_status_under [OF assms(1) u])
  then have "cache_read_status_of J OpenAi response \<noteq> Reported \<longrightarrow> p_cache_read_tokens q = 0"
    unfolding read
    by (simp only: split: if_split)
       (blast intro: field_status_unreported [OF assms(1)] nested_unreported [OF assms(1)])
  moreover have "plausible q \<and> p_tokens_out q \<le> MAX_PLAUSIBLE_TOKENS"
    by (simp only: plausible_def f read fresh count_bounds simp_thms split: if_split)
  ultimately show ?thesis unfolding \<open>p = q\<close> by blast
qed

lemma responses_plausible:
  assumes "json_laws J" and "parse_openai_responses_usage J response = Some p"
  shows "plausible p \<and> p_tokens_out p \<le> MAX_PLAUSIBLE_TOKENS \<and>
    (cache_read_status_of J OpenAiResponses response \<noteq> Reported \<longrightarrow> p_cache_read_tokens p = 0)"
proof -
  from assms(2) obtain usage where u: "j_get J response ''usage'' = Some usage"
    by (cases "j_get J response ''usage''") (simp_all add: parse_openai_responses_usage_def)
  show ?thesis
    using assms(2) nested_unreported [OF assms(1), of usage "''input_tokens_details''" "''cached_tokens''"]
    by (auto simp: parse_openai_responses_usage_def u Let_def plausible_def count_bounds
        cache_read_status_of_def field_status_under [OF assms(1) u] simp del: field_status.simps)
qed

lemma gemini_plausible:
  assumes "json_laws J" and "parse_gemini_usage J response = Some p"
  shows "plausible p \<and> p_tokens_out p \<le> MAX_PLAUSIBLE_TOKENS \<and>
    (cache_read_status_of J Gemini response \<noteq> Reported \<longrightarrow> p_cache_read_tokens p = 0)"
proof -
  from assms(2) obtain usage where u: "j_get J response ''usageMetadata'' = Some usage"
    by (cases "j_get J response ''usageMetadata''") (simp_all add: parse_gemini_usage_def)
  show ?thesis
    using assms(2) field_status_unreported [OF assms(1), of usage "''cachedContentTokenCount''"]
    by (auto simp: parse_gemini_usage_def u Let_def plausible_def count_bounds
        cache_read_status_of_def field_status_under [OF assms(1) u] simp del: field_status.simps)
qed

lemma cohere_plausible:
  "parse_cohere_usage J response = Some p \<Longrightarrow>
     plausible p \<and> p_tokens_out p \<le> MAX_PLAUSIBLE_TOKENS \<and> p_cache_read_tokens p = 0"
  by (auto simp: parse_cohere_usage_def Let_def plausible_def count_bounds bind_eq_Some_conv
      split: if_splits)

lemma ollama_plausible:
  "parse_ollama_usage J response = Some p \<Longrightarrow>
     plausible p \<and> p_tokens_out p \<le> MAX_PLAUSIBLE_TOKENS \<and> p_cache_read_tokens p = 0"
  by (auto simp: parse_ollama_usage_def plausible_def count_bounds split: if_splits)

lemma bedrock_plausible:
  assumes "json_laws J" and "parse_bedrock_usage J response = Some p"
  shows "plausible p \<and>
    (cache_read_status_of J Bedrock response \<noteq> Reported \<longrightarrow> p_cache_read_tokens p = 0)"
proof (cases "j_get J response ''usage''")
  case None
  with assms(2) show ?thesis
    by (auto simp: parse_bedrock_usage_def Let_def plausible_def count_bounds split: if_splits)
next
  case (Some usage)
  with assms(2) field_status_unreported [OF assms(1), of usage "''cache_read_input_tokens''"]
  show ?thesis
    by (auto simp: parse_bedrock_usage_def plausible_def count_bounds
        cache_read_status_of_def field_status_under [OF assms(1) Some] simp del: field_status.simps)
qed

text \<open>
  Measurements and cache metadata agree. For every family but Anthropic, no parsed input, cache
  or reasoning count exceeds the plausibility ceiling, and the cache-read count of a measurement
  whose observation is not \<open>reported\<close> is zero: a malformed or absent field never adds cache tokens.
\<close>
theorem unreported_cache_is_zero:
  assumes "json_laws J" and "family \<noteq> Anthropic"
    and "ou_usage (observe_usage J family response) = Some p"
  shows "plausible p \<and>
    (map_option o_status (ou_cache_read_observation (observe_usage J family response)) \<noteq> Some Reported
      \<longrightarrow> p_cache_read_tokens p = 0)"
  using assms
  by (cases family)
     (simp_all add: observe_usage_def observe_cache_read_def observation_origin_def
       openai_plausible responses_plausible gemini_plausible cohere_plausible ollama_plausible
       bedrock_plausible)

text \<open>
  C34: what a qualified stream event means. The final usage event of a stream is accepted only with
  empty choices, then carries the parser's measurement and bills prompt plus completion; the
  fallback error for a missing usage object cannot occur, and an event without usage is no error.
\<close>
theorem qualified_stream_usage:
  assumes "json_laws J"
  shows "qualify_openai_stream_usage J event \<noteq> Inl (InvalidUsage MissingUsage) \<and>
    (\<forall>p. qualify_openai_stream_usage J event = Inr (Some p) \<longrightarrow>
       Option.bind (j_get J event ''choices'') (j_as_array J) = Some [] \<and>
       parse_openai_usage J event = Some p \<and>
       (\<exists>usage. j_get J event ''usage'' = Some usage \<and>
          unat (billable (usage_v2_from p)) =
            unat (u64_at J usage ''prompt_tokens'') + unat (u64_at J usage ''completion_tokens'')))"
proof (intro conjI allI impI)
  show "qualify_openai_stream_usage J event \<noteq> Inl (InvalidUsage MissingUsage)"
  proof
    assume bad: "qualify_openai_stream_usage J event = Inl (InvalidUsage MissingUsage)"
    then obtain usage where u: "j_get J event ''usage'' = Some usage"
      by (cases "j_get J event ''usage''")
         (auto simp: qualify_openai_stream_usage_def is_none_or_def split: if_splits option.splits)
    then obtain q where "parse_openai_usage J event = Some q" by (rule parse_openai_fields)
    with bad have "validate_openai_buffered_usage J event = Inl MissingUsage"
      by (auto simp: qualify_openai_stream_usage_def split: if_splits option.splits sum.splits)
    with validate_not_missing [OF u] show False by simp
  qed
next
  fix p assume q: "qualify_openai_stream_usage J event = Inr (Some p)"
  then have ok: "validate_openai_buffered_usage J event = Inr ()"
    and p: "parse_openai_usage J event = Some p"
    and c: "Option.bind (j_get J event ''choices'') (j_as_array J) = Some []"
    by (auto simp: qualify_openai_stream_usage_def split: if_splits option.splits sum.splits)
  from c show "Option.bind (j_get J event ''choices'') (j_as_array J) = Some []" .
  from p show "parse_openai_usage J event = Some p" .
  from validated_billable [OF assms ok] p
  show "\<exists>usage. j_get J event ''usage'' = Some usage \<and>
      unat (billable (usage_v2_from p)) =
        unat (u64_at J usage ''prompt_tokens'') + unat (u64_at J usage ''completion_tokens'')"
    by auto
qed

section \<open>Concrete runs\<close>

text \<open>A final usage event with a hit/miss cache split.\<close>

definition ex_usage :: jvalue where
  "ex_usage = JObj
     [(''prompt_tokens'', JNat 100), (''completion_tokens'', JNat 20),
      (''prompt_cache_hit_tokens'', JNat 60), (''prompt_cache_miss_tokens'', JNat 40),
      (''completion_tokens_details'', JObj [(''reasoning_tokens'', JNat 5)]),
      (''total_tokens'', JNat 120)]"

definition ex_chunk :: jvalue where
  "ex_chunk = JObj
     [(''object'', JStr ''chat.completion.chunk''), (''choices'', JArr []), (''usage'', ex_usage)]"

lemmas usage_eval_defs = ex_chunk_def ex_usage_def validate_openai_buffered_usage_def bind_res_def
  required_count_def optional_count_def details_count_def usage_counts_disagree_def is_some_and_def
  is_none_or_def checked_add_def MAX_PLAUSIBLE_TOKENS_def u64_at_def qualify_openai_stream_usage_def

lemma ex_chunk_valid: "validate_openai_buffered_usage jv_api ex_chunk = Inr ()"
  by (simp add: usage_eval_defs)

theorem qualified_usage_exact_witness:
  "\<exists>p. parse_openai_usage jv_api ex_chunk = Some p \<and> unat (billable (usage_v2_from p)) = 120"
  using qualified_usage_exact [OF jv_laws ex_chunk_valid]
  by (auto simp: ex_chunk_def) (simp add: ex_usage_def u64_at_def MAX_PLAUSIBLE_TOKENS_def)

theorem qualified_stream_usage_witness:
  "\<exists>p. qualify_openai_stream_usage jv_api ex_chunk = Inr (Some p) \<and>
     unat (billable (usage_v2_from p)) = 120"
proof -
  obtain p where p: "parse_openai_usage jv_api ex_chunk = Some p"
    using validated_billable [OF jv_laws ex_chunk_valid] by blast
  have "qualify_openai_stream_usage jv_api ex_chunk = Inr (Some p)"
    unfolding qualify_openai_stream_usage_def ex_chunk_valid p
    by (simp add: ex_chunk_def ex_usage_def is_none_or_def)
  moreover from qualified_stream_usage [OF jv_laws, of ex_chunk] this
  have "unat (billable (usage_v2_from p)) = 120"
    by (auto simp: ex_chunk_def) (simp add: ex_usage_def u64_at_def MAX_PLAUSIBLE_TOKENS_def)
  ultimately show ?thesis by blast
qed

text \<open>A Gemini response whose cached count is not a number.\<close>

definition ex_gemini :: jvalue where
  "ex_gemini = JObj [(''usageMetadata'', JObj
     [(''promptTokenCount'', JNat 30), (''cachedContentTokenCount'', JStr ''many''),
      (''candidatesTokenCount'', JNat 7)])]"

theorem unreported_cache_is_zero_witness:
  "map_option o_status (ou_cache_read_observation (observe_usage jv_api Gemini ex_gemini)) = Some Malformed \<and>
   map_option p_cache_read_tokens (ou_usage (observe_usage jv_api Gemini ex_gemini)) = Some 0"
proof -
  obtain p where p: "ou_usage (observe_usage jv_api Gemini ex_gemini) = Some p"
    by (simp add: observe_usage_def parse_gemini_usage_def ex_gemini_def Let_def)
  moreover have "map_option o_status (ou_cache_read_observation (observe_usage jv_api Gemini ex_gemini)) =
      Some Malformed"
    by (simp add: observe_usage_def observe_cache_read_def observation_origin_def
        cache_read_status_of_def ex_gemini_def)
  ultimately show ?thesis
    using unreported_cache_is_zero [OF jv_laws _ p] by auto
qed

text \<open>
  The Anthropic parser is the exception: a count above the plausibility ceiling is classified as
  malformed and metered all the same.
\<close>

lemma anthropic_keeps_absurd_counts:
  "let response = JObj [(''usage'', JObj [(''cache_read_input_tokens'', JNat 50000000001)])] in
   map_option p_cache_read_tokens (parse_anthropic_usage jv_api response) = Some 50000000001 \<and>
   cache_read_status_of jv_api Anthropic response = Malformed"
  by (simp add: parse_anthropic_usage_def jv_anthropic_usage_def jv_int_def count_of_i64_def
      cache_read_status_of_def MAX_PLAUSIBLE_TOKENS_def)

end
