(* ===== verification/Allowance.thy ===== *)
theory Allowance
  imports Event
begin

text \<open>
  \<^verbatim>\<open>crates/sandhi-core/src/allowance.rs\<close>: weighted allowance quotes. A quote is exact
  fixed-point arithmetic in 128 bits over a final, provider-reported measurement, or an error.
\<close>

section \<open>Weights and quotes\<close>

definition UNITS_PER_TOKEN :: u64 where "UNITS_PER_TOKEN = 10000"

datatype allowance_error =
    InvalidWeight
  | UsageNotFinal
  | UsageEstimated
  | CacheEvidenceUnavailable
  | ReasoningCountUnavailable
  | ReasoningConventionUnavailable
  | InconsistentReasoning
  | Overflow

datatype weight = Weight (basis_points: u32)

definition weight_new :: "u32 \<Rightarrow> allowance_error + weight" where
  "weight_new bp = (if bp > 1000000 then Inl InvalidWeight else Inr (Weight bp))"

definition weight_default :: weight where "weight_default = Weight 10000"

record allowance_weights =
  w_fresh_input :: weight
  w_cache_creation :: weight
  w_cache_read :: weight
  w_output :: weight
  w_reasoning :: "weight option"

definition weights_default :: allowance_weights where
  "weights_default =
     \<lparr>w_fresh_input = weight_default, w_cache_creation = weight_default,
      w_cache_read = weight_default, w_output = weight_default, w_reasoning = None\<rparr>"

record allowance_quote_v1 =
  q_fresh_input_units :: u64
  q_cache_creation_units :: u64
  q_cache_read_units :: u64
  q_output_units :: u64
  q_reasoning_units :: "u64 option"
  q_total_units :: u64

definition storage_units :: "128 word \<Rightarrow> allowance_error + u64" where
  "storage_units value = (if value > 2 ^ 63 - 1 then Inl Overflow else Inr (ucast value))"

definition units :: "u64 \<Rightarrow> weight \<Rightarrow> allowance_error + u64" where
  "units tokens w = storage_units (ucast tokens * ucast (basis_points w))"

text \<open>The guard of \<^verbatim>\<open>quote\<close> on cache evidence.\<close>

definition cache_evidence_ok :: "usage_v2 \<Rightarrow> bool" where
  "cache_evidence_ok usage =
     (case Option.bind (u_cache_read_observation usage) observation_validated of
        Some obs \<Rightarrow>
          (o_status obs = Reported \<and> o_source obs = OriginUsage) \<or>
          (o_status obs = Unsupported \<and> o_source obs = ExplicitCapability \<and>
           u_cache_read_tokens usage = 0)
      | None \<Rightarrow> False)"

definition transpose_units :: "u64 option \<Rightarrow> weight \<Rightarrow> allowance_error + u64 option" where
  "transpose_units n w =
     (case n of None \<Rightarrow> Inr None | Some n \<Rightarrow> bind_res (units n w) (\<lambda>u. Inr (Some u)))"

text \<open>The output left once included reasoning is split off, and the arithmetic at the end of \<^verbatim>\<open>quote\<close>.\<close>

definition quote_output :: "usage_v2 \<Rightarrow> allowance_error + u64" where
  "quote_output usage =
     (if u_reasoning_included usage = Some True
      then (case checked_sub (u_tokens_out usage) (unwrap_or (u_reasoning_tokens usage) 0) of
              Some n \<Rightarrow> Inr n
            | None \<Rightarrow> Inl InconsistentReasoning)
      else Inr (u_tokens_out usage))"

definition quote_units ::
  "allowance_weights \<Rightarrow> usage_v2 \<Rightarrow> weight \<Rightarrow> u64 \<Rightarrow> allowance_error + allowance_quote_v1" where
  "quote_units W usage reasoning_weight output =
     bind_res (units (u_tokens_in usage) (w_fresh_input W)) (\<lambda>fresh_units.
     bind_res (units (u_cache_creation_tokens usage) (w_cache_creation W)) (\<lambda>creation_units.
     bind_res (units (u_cache_read_tokens usage) (w_cache_read W)) (\<lambda>read_units.
     bind_res (units output (w_output W)) (\<lambda>output_units.
     bind_res (transpose_units (u_reasoning_tokens usage) reasoning_weight) (\<lambda>reasoning_units.
     bind_res
       (storage_units
          (ucast fresh_units + ucast creation_units + ucast read_units
           + ucast output_units + ucast (unwrap_or reasoning_units 0))) (\<lambda>total_units.
     Inr \<lparr>q_fresh_input_units = fresh_units, q_cache_creation_units = creation_units,
          q_cache_read_units = read_units, q_output_units = output_units,
          q_reasoning_units = reasoning_units, q_total_units = total_units\<rparr>))))))"

definition quote :: "allowance_weights \<Rightarrow> usage_v2 \<Rightarrow> allowance_error + allowance_quote_v1" where
  "quote W usage =
     (if u_completeness usage \<noteq> Final then Inl UsageNotFinal
      else if u_basis usage \<noteq> ProviderReported then Inl UsageEstimated
      else if w_cache_read W \<noteq> w_fresh_input W \<and> \<not> cache_evidence_ok usage
      then Inl CacheEvidenceUnavailable
      else
        (let reasoning_weight = unwrap_or (w_reasoning W) (w_output W);
             differential_reasoning = (reasoning_weight \<noteq> w_output W);
             reasoning = u_reasoning_tokens usage
         in if reasoning = None \<and>
               (differential_reasoning \<or> u_reasoning_included usage = Some False)
            then Inl ReasoningCountUnavailable
            else if u_reasoning_included usage = None \<and>
               (differential_reasoning \<or> reasoning = None \<or> unwrap_or reasoning 0 > 0)
            then Inl ReasoningConventionUnavailable
            else bind_res (quote_output usage) (quote_units W usage reasoning_weight)))"

section \<open>Lemmas\<close>

lemma storage_units_Inr:
  "storage_units v = Inr u \<longleftrightarrow> unat u = unat v \<and> unat v < 2 ^ 63"
proof -
  have lt: "v > 2 ^ 63 - 1 \<longleftrightarrow> \<not> unat v < 2 ^ 63"
    by (simp add: word_less_nat_alt) linarith
  have "unat (ucast v :: u64) = unat v" if "unat v < 2 ^ 63"
    using that by (simp add: unsigned_ucast_eq take_bit_nat_eq_self_iff)
  then show ?thesis
    using lt by (auto simp: storage_units_def word_unat_eq_iff)
qed

lemma units_Inr:
  "units n w = Inr u \<longleftrightarrow> unat u = unat n * unat (basis_points w) \<and> unat u < 2 ^ 63"
proof -
  have "unat n * unat (basis_points w) \<le> (2 ^ 64 - 1) * (2 ^ 32 - 1)"
    by (rule mult_mono) (use unat_le_max [of n] unat_le_max [of "basis_points w"] in simp_all)
  then have "unat (ucast n * ucast (basis_points w) :: 128 word) = unat n * unat (basis_points w)"
    by (simp add: unat_word_ariths unat_ucast_up)
  then show ?thesis by (auto simp: units_def storage_units_Inr)
qed

lemma transpose_units_Inr:
  "transpose_units n w = Inr u \<Longrightarrow>
     unat (unwrap_or u 0) = unat (unwrap_or n 0) * unat (basis_points w) \<and> (u = None) = (n = None)"
  by (auto simp: transpose_units_def bind_res_Inr units_Inr split: option.splits)

lemma unat_sum5:
  "unat (ucast (a :: u64) + ucast (b :: u64) + ucast (c :: u64) + ucast (d :: u64)
     + ucast (e :: u64) :: 128 word) = unat a + unat b + unat c + unat d + unat e"
  using unat_lt_pow [of a] unat_lt_pow [of b] unat_lt_pow [of c] unat_lt_pow [of d]
    unat_lt_pow [of e]
  by (simp add: unat_word_ariths unat_ucast_up)

text \<open>Output that is billed at the output weight: what is left of it once included reasoning is split off.\<close>

definition split_output :: "usage_v2 \<Rightarrow> nat" where
  "split_output u =
     (if u_reasoning_included u = Some True
      then unat (u_tokens_out u) - unat (unwrap_or (u_reasoning_tokens u) 0)
      else unat (u_tokens_out u))"

definition bp :: "weight \<Rightarrow> nat" where "bp w = unat (basis_points w)"

lemma quote_Inr:
  assumes "quote W u = Inr q"
  defines "rw \<equiv> unwrap_or (w_reasoning W) (w_output W)"
  shows quote_measured: "u_completeness u = Final \<and> u_basis u = ProviderReported"
    and quote_evidence: "w_cache_read W \<noteq> w_fresh_input W \<longrightarrow> cache_evidence_ok u"
    and quote_included: "u_reasoning_included u = Some True \<longrightarrow>
      unwrap_or (u_reasoning_tokens u) 0 \<le> u_tokens_out u"
    and quote_unmarked: "u_reasoning_included u = None \<longrightarrow>
      u_reasoning_tokens u = Some 0 \<and> rw = w_output W"
    and quote_uncounted: "u_reasoning_tokens u = None \<longrightarrow>
      rw = w_output W \<and> u_reasoning_included u = Some True"
    and quote_total: "unat (q_total_units q) =
       unat (u_tokens_in u) * bp (w_fresh_input W)
       + unat (u_cache_creation_tokens u) * bp (w_cache_creation W)
       + unat (u_cache_read_tokens u) * bp (w_cache_read W)
       + split_output u * bp (w_output W)
       + unat (unwrap_or (u_reasoning_tokens u) 0) * bp rw"
    and quote_bound: "unat (q_total_units q) < 2 ^ 63"
    and quote_parts: "unat (q_total_units q) =
       unat (q_fresh_input_units q) + unat (q_cache_creation_units q) + unat (q_cache_read_units q)
       + unat (q_output_units q) + unat (unwrap_or (q_reasoning_units q) 0)"
proof -
  have guards: "u_completeness u = Final" "u_basis u = ProviderReported"
      "w_cache_read W \<noteq> w_fresh_input W \<longrightarrow> cache_evidence_ok u"
      "\<not> (u_reasoning_tokens u = None \<and> (rw \<noteq> w_output W \<or> u_reasoning_included u = Some False))"
      "\<not> (u_reasoning_included u = None \<and>
         (rw \<noteq> w_output W \<or> u_reasoning_tokens u = None \<or> unwrap_or (u_reasoning_tokens u) 0 > 0))"
    and tail: "bind_res (quote_output u) (quote_units W u rw) = Inr q"
    using assms(1) unfolding quote_def Let_def rw_def [symmetric] by (auto split: if_split_asm)
  then show "u_completeness u = Final \<and> u_basis u = ProviderReported"
    and "w_cache_read W \<noteq> w_fresh_input W \<longrightarrow> cache_evidence_ok u" by simp_all
  show "u_reasoning_included u = None \<longrightarrow> u_reasoning_tokens u = Some 0 \<and> rw = w_output W"
    and "u_reasoning_tokens u = None \<longrightarrow> rw = w_output W \<and> u_reasoning_included u = Some True"
    using guards(4,5) by (cases "u_reasoning_included u"; cases "u_reasoning_tokens u"; simp add: word_gt_0)+
  from tail obtain out fresh creation read outu re tot where
    o: "quote_output u = Inr out"
    and un: "units (u_tokens_in u) (w_fresh_input W) = Inr fresh"
      "units (u_cache_creation_tokens u) (w_cache_creation W) = Inr creation"
      "units (u_cache_read_tokens u) (w_cache_read W) = Inr read"
      "units out (w_output W) = Inr outu" "transpose_units (u_reasoning_tokens u) rw = Inr re"
    and tot: "storage_units (ucast fresh + ucast creation + ucast read + ucast outu
        + ucast (unwrap_or re 0)) = Inr tot"
    and q: "q = \<lparr>q_fresh_input_units = fresh, q_cache_creation_units = creation,
        q_cache_read_units = read, q_output_units = outu, q_reasoning_units = re, q_total_units = tot\<rparr>"
    unfolding quote_units_def bind_res_Inr by blast
  have out: "unat out = split_output u \<and>
      (u_reasoning_included u = Some True \<longrightarrow> unwrap_or (u_reasoning_tokens u) 0 \<le> u_tokens_out u)"
    using o by (auto simp: quote_output_def split_output_def checked_sub_eq_Some word_le_nat_alt
        split: if_splits option.splits)
  then show "u_reasoning_included u = Some True \<longrightarrow> unwrap_or (u_reasoning_tokens u) 0 \<le> u_tokens_out u"
    by simp
  show "unat (q_total_units q) < 2 ^ 63"
    and parts: "unat (q_total_units q) =
       unat (q_fresh_input_units q) + unat (q_cache_creation_units q) + unat (q_cache_read_units q)
       + unat (q_output_units q) + unat (unwrap_or (q_reasoning_units q) 0)"
    using tot by (simp_all add: q storage_units_Inr unat_sum5)
  show "unat (q_total_units q) =
       unat (u_tokens_in u) * bp (w_fresh_input W)
       + unat (u_cache_creation_tokens u) * bp (w_cache_creation W)
       + unat (u_cache_read_tokens u) * bp (w_cache_read W)
       + split_output u * bp (w_output W)
       + unat (unwrap_or (u_reasoning_tokens u) 0) * bp rw"
    using un out transpose_units_Inr [OF un(5)] parts by (simp add: q units_Inr bp_def)
qed

section \<open>Properties\<close>

text \<open>
  C36: a quote is exact. Its total is the weighted sum of the measured categories in fixed-point
  units, with included reasoning split out of the output so that no token is counted twice; the
  reported parts add up to the total, and the total fits signed 64-bit storage.
\<close>
theorem quote_exact:
  assumes "quote W u = Inr q"
  shows "unat (q_total_units q) =
      unat (u_tokens_in u) * bp (w_fresh_input W)
      + unat (u_cache_creation_tokens u) * bp (w_cache_creation W)
      + unat (u_cache_read_tokens u) * bp (w_cache_read W)
      + split_output u * bp (w_output W)
      + unat (unwrap_or (u_reasoning_tokens u) 0) * bp (unwrap_or (w_reasoning W) (w_output W)) \<and>
    unat (q_total_units q) =
      unat (q_fresh_input_units q) + unat (q_cache_creation_units q) + unat (q_cache_read_units q)
      + unat (q_output_units q) + unat (unwrap_or (q_reasoning_units q) 0) \<and>
    unat (q_total_units q) < 2 ^ 63"
  by (intro conjI quote_total [OF assms] quote_parts [OF assms] quote_bound [OF assms])

text \<open>
  C35: neutral weights reproduce the meter. With every category at 1x, a quote is the billable token
  total of the same measurement times the units of one token.
\<close>
theorem quote_neutral_is_billable:
  assumes "quote weights_default u = Inr q"
  shows "unat (q_total_units q) = unat UNITS_PER_TOKEN * unat (billable u)"
proof -
  let ?r = "unwrap_or (u_reasoning_tokens u) 0"
  have total: "unat (q_total_units q) = 10000 *
      (unat (u_tokens_in u) + unat (u_cache_creation_tokens u) + unat (u_cache_read_tokens u)
       + split_output u + unat ?r)"
    using quote_total [OF assms] by (simp add: weights_default_def weight_default_def bp_def)
  have "split_output u + unat ?r =
      unat (u_tokens_out u) + unat (unfolded_reasoning ?r (u_tokens_out u) (u_reasoning_included u))"
    using quote_included [OF assms] quote_unmarked [OF assms]
    by (cases "u_reasoning_included u")
       (auto simp: split_output_def unfolded_reasoning_def word_le_nat_alt)
  with total quote_bound [OF assms] show ?thesis
    by (simp add: UNITS_PER_TOKEN_def billable_def unat_billable_parts)
qed


text \<open>A final measurement of 120 tokens, 60 of them read from the cache and 5 of the output reasoning.\<close>

definition ex_measured :: usage_v2 where
  "ex_measured = usage_v2_default
     \<lparr>u_tokens_in := 40, u_cache_read_tokens := 60, u_tokens_out := 20,
      u_cache_read_observation := Some \<lparr>o_status = Reported, o_source = OriginUsage\<rparr>,
      u_reasoning_tokens := Some 5, u_reasoning_included := Some True, u_completeness := Final\<rparr>"

definition ex_weights :: allowance_weights where
  "ex_weights = weights_default\<lparr>w_cache_read := Weight 1000, w_reasoning := Some (Weight 20000)\<rparr>"

lemmas quote_eval_defs = quote_def quote_output_def quote_units_def ex_measured_def ex_weights_def weights_default_def
  weight_default_def usage_v2_default_def cache_evidence_ok_def observation_validated_def
  units_def storage_units_def transpose_units_def checked_sub_def Let_def

lemma ex_quote: "\<exists>q. quote ex_weights ex_measured = Inr q"
  by (simp add: quote_eval_defs)

theorem quote_exact_witness:
  "\<exists>q. quote ex_weights ex_measured = Inr q \<and> unat (q_total_units q) = 710000"
proof -
  obtain q where q: "quote ex_weights ex_measured = Inr q" using ex_quote by blast
  have "unat (q_total_units q) = 710000"
    using quote_exact [OF q]
    by (simp add: ex_measured_def ex_weights_def weights_default_def weight_default_def
        usage_v2_default_def split_output_def bp_def)
  with q show ?thesis by blast
qed

theorem quote_neutral_is_billable_witness:
  "\<exists>q. quote weights_default ex_measured = Inr q \<and> unat (q_total_units q) = 10000 * unat (billable ex_measured)"
proof -
  obtain q where q: "quote weights_default ex_measured = Inr q"
    by (simp add: quote_eval_defs)
  with quote_neutral_is_billable [OF q] show ?thesis by (simp add: UNITS_PER_TOKEN_def)
qed


end
