(* ===== verification/Keys.thy ===== *)
theory Keys
  imports Prelude
begin

text \<open>
  \<^verbatim>\<open>crates/sandhi-core/src/keys.rs\<close>: virtual keys and the in-memory key store. The RFC 3339
  parser of the \<^verbatim>\<open>time\<close> package is a parameter. The store's table is an association list
  with one entry per key; its mutex makes the operations atomic.
\<close>

record virtual_key =
  k_id :: string
  k_subject_id :: "string option"
  k_group_id :: "string option"
  k_upstream_ref :: string
  k_models :: "string list option"
  k_budget_scope :: "string option"
  k_expires_at :: "string option"
  k_rate_limit_per_min :: "u32 option"

definition is_expired :: "(string \<Rightarrow> instant option) \<Rightarrow> virtual_key \<Rightarrow> string \<Rightarrow> bool" where
  "is_expired parse_rfc3339 key now_rfc3339 =
     (case k_expires_at key of
        None \<Rightarrow> False
      | Some expiry \<Rightarrow>
          (case (parse_rfc3339 expiry, parse_rfc3339 now_rfc3339) of
             (Some exp_t, Some now_t) \<Rightarrow> exp_t \<le> now_t
           | _ \<Rightarrow> expiry \<le> now_rfc3339))"

definition permits_model :: "virtual_key \<Rightarrow> string \<Rightarrow> bool" where
  "permits_model key model =
     (case k_models key of
        None \<Rightarrow> True
      | Some [] \<Rightarrow> True
      | Some allowed \<Rightarrow> list_ex (\<lambda>m. eq_ignore_ascii_case m model) allowed)"

definition echoes_binding :: "string option \<Rightarrow> string option \<Rightarrow> bool" where
  "echoes_binding bound presented =
     (case presented of None \<Rightarrow> True | Some p \<Rightarrow> bound = Some p)"

definition permits_attribution :: "virtual_key \<Rightarrow> string option \<Rightarrow> string option \<Rightarrow> bool" where
  "permits_attribution key subject grp \<longleftrightarrow>
     echoes_binding (k_subject_id key) subject \<and> echoes_binding (k_group_id key) grp"

type_synonym key_store = "(string \<times> virtual_key) list"

definition store_new :: key_store where "store_new = []"

definition store_insert :: "key_store \<Rightarrow> virtual_key \<Rightarrow> key_store" where
  "store_insert s key = AList.update (k_id key) key s"

definition store_insert_keyed :: "key_store \<Rightarrow> string \<Rightarrow> virtual_key \<Rightarrow> key_store" where
  "store_insert_keyed s lookup_key key = AList.update lookup_key key s"

definition store_resolve :: "key_store \<Rightarrow> string \<Rightarrow> virtual_key option" where
  "store_resolve s lookup_key = map_of s lookup_key"

definition store_revoke :: "key_store \<Rightarrow> string \<Rightarrow> bool \<times> key_store" where
  "store_revoke s lookup_key = (map_of s lookup_key \<noteq> None, AList.delete lookup_key s)"

definition store_len :: "key_store \<Rightarrow> nat" where "store_len s = length s"

definition store_is_empty :: "key_store \<Rightarrow> bool" where "store_is_empty s \<longleftrightarrow> store_len s = 0"

section \<open>Runs of the store\<close>

datatype key_op = Insert virtual_key | InsertKeyed string virtual_key | Revoke string

fun key_step :: "key_store \<Rightarrow> key_op \<Rightarrow> key_store" where
  "key_step s (Insert key) = store_insert s key"
| "key_step s (InsertKeyed lookup_key key) = store_insert_keyed s lookup_key key"
| "key_step s (Revoke lookup_key) = snd (store_revoke s lookup_key)"

definition key_run :: "key_op list \<Rightarrow> key_store" where
  "key_run ops = foldl key_step store_new ops"

text \<open>The table entry an operation writes, and what the last operation on a key left there.\<close>

fun key_effect :: "key_op \<Rightarrow> string \<times> virtual_key option" where
  "key_effect (Insert key) = (k_id key, Some key)"
| "key_effect (InsertKeyed lookup_key key) = (lookup_key, Some key)"
| "key_effect (Revoke lookup_key) = (lookup_key, None)"

definition last_effect :: "key_op list \<Rightarrow> string \<Rightarrow> virtual_key option" where
  "last_effect ops k = Option.bind (map_of (map key_effect (rev ops)) k) id"

lemma key_step_distinct: "distinct (map fst s) \<Longrightarrow> distinct (map fst (key_step s op))"
  by (cases op) (simp_all add: store_insert_def store_insert_keyed_def store_revoke_def
      distinct_update distinct_delete)

lemma key_run_snoc: "key_run (ops @ [op]) = key_step (key_run ops) op"
  by (simp add: key_run_def)

lemma key_run_distinct: "distinct (map fst (key_run ops))"
  by (induction ops rule: rev_induct)
     (simp_all add: key_run_snoc key_step_distinct, simp add: key_run_def store_new_def)

lemma key_run_lookup: "map_of (key_run ops) k = last_effect ops k"
proof (induction ops rule: rev_induct)
  case Nil
  then show ?case by (simp add: key_run_def store_new_def last_effect_def)
next
  case (snoc op ops)
  then show ?case
    by (cases op) (auto simp: key_run_snoc store_insert_def store_insert_keyed_def store_revoke_def
        last_effect_def update_conv' map_of_alist_delete)
qed

text \<open>
  A presented token resolves to what the last operation on it left. After any sequence of
  inserts and revocations a lookup returns the key written last under that token, nothing once it
  was revoked, and the size of the store is the number of tokens that resolve.
\<close>
theorem key_store_resolves_last:
  "store_resolve (key_run ops) k = last_effect ops k \<and>
   store_len (key_run ops) = card {k. store_resolve (key_run ops) k \<noteq> None} \<and>
   fst (store_revoke (key_run ops) k) = (last_effect ops k \<noteq> None) \<and>
   store_resolve (snd (store_revoke (key_run ops) k)) k = None"
proof -
  have "{k. map_of (key_run ops) k \<noteq> None} = fst ` set (key_run ops)"
    using dom_map_of_conv_image_fst [of "key_run ops"] by (simp add: dom_def)
  then have "card {k. map_of (key_run ops) k \<noteq> None} = length (key_run ops)"
    using key_run_distinct [of ops] by (metis distinct_card length_map set_map)
  then show ?thesis
    by (simp add: store_resolve_def store_len_def store_revoke_def key_run_lookup
        map_of_alist_delete)
qed

text \<open>
  Time compares as instants, not as text. Where the timestamps parse, a key that has expired
  stays expired at every later instant and one without a parsed expiry before now is live,
  however the timestamps are spelled.
\<close>
theorem expiry_by_instant:
  assumes "k_expires_at key = Some x" and "parse x = Some e"
    and "parse now = Some t" and "parse later = Some t'" and "t \<le> t'"
  shows "is_expired parse key now = (e \<le> t) \<and>
    (is_expired parse key now \<longrightarrow> is_expired parse key later)"
  using assms by (simp add: is_expired_def)

definition ex_parse :: "string \<Rightarrow> instant option" where
  "ex_parse s =
     (if s = ''2030-01-01T00:00:00.5Z'' then Some 500000000
      else if s = ''2030-01-01T05:00:00+05:00'' then Some 0 else None)"

definition ex_key :: virtual_key where
  "ex_key =
     \<lparr>k_id = ''vk_1'', k_subject_id = None, k_group_id = None, k_upstream_ref = ''up'',
      k_models = None, k_budget_scope = None, k_expires_at = Some ''2030-01-01T00:00:00.5Z'',
      k_rate_limit_per_min = None\<rparr>"

theorem expiry_by_instant_witness: "\<not> is_expired ex_parse ex_key ''2030-01-01T05:00:00+05:00''"
  using expiry_by_instant [of ex_key "''2030-01-01T00:00:00.5Z''" ex_parse 500000000
      "''2030-01-01T05:00:00+05:00''" 0 "''2030-01-01T05:00:00+05:00''" 0]
  by (simp add: ex_key_def ex_parse_def)

end
