(* ===== verification/Alerts.thy ===== *)
theory Alerts
  imports Prelude
begin

text \<open>
  \<^verbatim>\<open>crates/sandhi-core/src/alerts.rs\<close>: threshold alerts of budget scopes. The clock's
  reading and the RFC 3339 parser of the \<^verbatim>\<open>time\<close> package are arguments; the webhook transport
  is an identifier and the list of messages each transport was handed. Writing the log line is not part of the model.
\<close>

section \<open>Channels, rules and alerts\<close>

datatype alert_channel = Log | Webhook string

definition channel_as_str :: "alert_channel \<Rightarrow> string" where
  "channel_as_str c = (case c of Log \<Rightarrow> ''log'' | Webhook url \<Rightarrow> ''webhook:'' @ url)"

text \<open>\<^verbatim>\<open>split_once(':')\<close> keeps what follows the first colon.\<close>

definition after_colon :: "string \<Rightarrow> string option" where
  "after_colon s =
     map_option (\<lambda>i. drop (Suc i) s) (position (\<lambda>c. c = CHR '':'') s)"

definition channel_parse :: "string \<Rightarrow> alert_channel" where
  "channel_parse s =
     (let s = trim s in
      if ascii_lower s = ''log'' then Log
      else if take 8 (ascii_lower s) = ''webhook:'' then
        (let url = unwrap_or (map_option trim (after_colon s)) [] in
         if url = [] then Log else Webhook url)
      else Log)"

record alert_rule =
  ar_id :: string
  ar_scope :: string
  ar_threshold_pct :: u8
  ar_channel :: alert_channel

record alert =
  al_rule_id :: string
  al_scope :: string
  al_threshold_pct :: u8
  al_spent :: u64
  al_limit :: u64
  al_pct :: u64
  al_message :: string
  al_fired_at :: string

definition checked_div :: "u64 \<Rightarrow> u64 \<Rightarrow> u64 option" where
  "checked_div a b = (if b = 0 then None else Some (a div b))"

definition from_rule :: "alert_rule \<Rightarrow> u64 \<Rightarrow> u64 \<Rightarrow> string \<Rightarrow> alert" where
  "from_rule rule spent limit fired_at =
     (let pct = unwrap_or (checked_div (spent * 100) (max limit 1)) 100 in
      \<lparr>al_rule_id = ar_id rule, al_scope = ar_scope rule,
       al_threshold_pct = ar_threshold_pct rule, al_spent = spent, al_limit = limit, al_pct = pct,
       al_message = ''budget alert: scope '' @ [CHR 0x27] @ ar_scope rule @ [CHR 0x27] @ '' at '' @
         decimal (unat pct) @ ''% ('' @ decimal (unat spent) @ '' of '' @ decimal (unat limit) @
         '' tokens, threshold '' @ decimal (unat (ar_threshold_pct rule)) @ ''%)'',
       al_fired_at = fired_at\<rparr>)"

section \<open>The registry\<close>

record alert_registry =
  rg_rules :: "alert_rule list"
  rg_last_fired_at :: "string \<times> string \<rightharpoonup> string"
  rg_cooldown_secs :: int
  rg_webhook_sender :: nat
  rg_sent :: "(nat \<times> string \<times> alert) list"

definition DEFAULT_COOLDOWN_SECS :: int where "DEFAULT_COOLDOWN_SECS = 3600"

definition registry_new :: "int \<Rightarrow> nat \<Rightarrow> alert_registry" where
  "registry_new cooldown_secs webhook_sender =
     \<lparr>rg_rules = [], rg_last_fired_at = Map.empty, rg_cooldown_secs = cooldown_secs,
      rg_webhook_sender = webhook_sender, rg_sent = []\<rparr>"

definition set_webhook_sender :: "alert_registry \<Rightarrow> nat \<Rightarrow> alert_registry" where
  "set_webhook_sender R sender = R\<lparr>rg_webhook_sender := sender\<rparr>"

definition add_rule :: "alert_registry \<Rightarrow> alert_rule \<Rightarrow> alert_registry" where
  "add_rule R rule =
     (if \<not> list_ex (\<lambda>r. ar_id r = ar_id rule) (rg_rules R)
      then R\<lparr>rg_rules := rg_rules R @ [rule]\<rparr> else R)"

definition remove_rule :: "alert_registry \<Rightarrow> string \<Rightarrow> bool \<times> alert_registry" where
  "remove_rule R rid =
     (let rules = filter (\<lambda>r. ar_id r \<noteq> rid) (rg_rules R) in
      (length rules \<noteq> length (rg_rules R),
       R\<lparr>rg_rules := rules,
         rg_last_fired_at :=
           (\<lambda>(scope, rule_id). if rule_id \<noteq> rid then rg_last_fired_at R (scope, rule_id) else None)\<rparr>))"

definition set_last_fired_at :: "alert_registry \<Rightarrow> string \<Rightarrow> string \<Rightarrow> string option \<Rightarrow> alert_registry" where
  "set_last_fired_at R scope rule_id fired_at =
     (case fired_at of
        Some ts \<Rightarrow> R\<lparr>rg_last_fired_at := (rg_last_fired_at R)((scope, rule_id) \<mapsto> ts)\<rparr>
      | None \<Rightarrow> R)"

definition last_fired_at :: "alert_registry \<Rightarrow> string \<Rightarrow> string \<Rightarrow> string option" where
  "last_fired_at R scope rule_id = rg_last_fired_at R (scope, rule_id)"

definition i64_saturating_sub :: "int \<Rightarrow> int \<Rightarrow> int" where
  "i64_saturating_sub a b = max (- (2 ^ 63)) (min (2 ^ 63 - 1) (a - b))"

text \<open>The conditions of the loop body of \<^verbatim>\<open>evaluate\<close>, and the loop.\<close>

definition suppressed :: "(string \<Rightarrow> int option) \<Rightarrow> alert_registry \<Rightarrow> string \<Rightarrow> string \<Rightarrow> int \<Rightarrow> bool" where
  "suppressed parse_ts R scope rule_id now_ts =
     (case Option.bind (rg_last_fired_at R (scope, rule_id)) parse_ts of
        Some fired \<Rightarrow> i64_saturating_sub now_ts fired < rg_cooldown_secs R
      | None \<Rightarrow> False)"

fun evaluate_rules ::
  "(string \<Rightarrow> int option) \<Rightarrow> string \<Rightarrow> int \<Rightarrow> string \<Rightarrow> u64 \<Rightarrow> u64 \<Rightarrow> alert_rule list \<Rightarrow>
     alert_registry \<Rightarrow> alert list \<times> alert_registry" where
  "evaluate_rules parse_ts now now_ts scope spent limit [] R = ([], R)"
| "evaluate_rules parse_ts now now_ts scope spent limit (rule # rules) R =
     (if spent * 100 div limit < ucast (ar_threshold_pct rule) \<or>
         suppressed parse_ts R scope (ar_id rule) now_ts
      then evaluate_rules parse_ts now now_ts scope spent limit rules R
      else
        (let alert = from_rule rule spent limit now;
             R = (case ar_channel rule of
                    Webhook url \<Rightarrow> R\<lparr>rg_sent := rg_sent R @ [(rg_webhook_sender R, url, alert)]\<rparr>
                  | Log \<Rightarrow> R);
             R = R\<lparr>rg_last_fired_at := (rg_last_fired_at R)((scope, ar_id rule) \<mapsto> now)\<rparr>
         in case evaluate_rules parse_ts now now_ts scope spent limit rules R of
              (fired, R) \<Rightarrow> (alert # fired, R)))"

definition evaluate ::
  "(string \<Rightarrow> int option) \<Rightarrow> string \<Rightarrow> alert_registry \<Rightarrow> string \<Rightarrow> u64 \<Rightarrow> u64 option \<Rightarrow>
     alert list \<times> alert_registry" where
  "evaluate parse_ts now R scope spent limit =
     (case limit of
        None \<Rightarrow> ([], R)
      | Some limit \<Rightarrow>
          if limit = 0 then ([], R)
          else evaluate_rules parse_ts now (unwrap_or (parse_ts now) 0) scope spent limit
                 (filter (\<lambda>r. ar_scope r = scope) (rg_rules R)) R)"

section \<open>What an evaluation does\<close>

text \<open>The rules that are due: the threshold is reached and the cooldown is over.\<close>

definition due ::
  "(string \<Rightarrow> int option) \<Rightarrow> int \<Rightarrow> alert_registry \<Rightarrow> string \<Rightarrow> u64 \<Rightarrow> u64 \<Rightarrow> alert_rule \<Rightarrow> bool" where
  "due parse_ts now_ts R scope spent limit rule \<longleftrightarrow>
     ucast (ar_threshold_pct rule) \<le> spent * 100 div limit \<and>
     \<not> suppressed parse_ts R scope (ar_id rule) now_ts"

definition webhook_message :: "nat \<Rightarrow> alert_rule \<Rightarrow> alert \<Rightarrow> (nat \<times> string \<times> alert) list" where
  "webhook_message sender rule alert =
     (case ar_channel rule of Webhook url \<Rightarrow> [(sender, url, alert)] | Log \<Rightarrow> [])"

definition unique_ids :: "alert_registry \<Rightarrow> bool" where
  "unique_ids R \<longleftrightarrow> distinct (map ar_id (rg_rules R))"

lemma evaluate_rules_spec:
  assumes "distinct (map ar_id rules)"
  shows "evaluate_rules ps now ts scope spent limit rules R =
    (let firing = filter (due ps ts R scope spent limit) rules in
     (map (\<lambda>r. from_rule r spent limit now) firing,
      R\<lparr>rg_last_fired_at := (\<lambda>k. if k \<in> (\<lambda>r. (scope, ar_id r)) ` set firing then Some now
                                   else rg_last_fired_at R k),
        rg_sent := rg_sent R @ concat (map (\<lambda>r. webhook_message (rg_webhook_sender R) r
                                              (from_rule r spent limit now)) firing)\<rparr>))"
  using assms
proof (induction rules arbitrary: R)
  case Nil
  then show ?case by simp
next
  case (Cons rule rules)
  let ?msg = "webhook_message (rg_webhook_sender R) rule (from_rule rule spent limit now)"
  let ?R = "R\<lparr>rg_sent := rg_sent R @ ?msg,
              rg_last_fired_at := (rg_last_fired_at R)((scope, ar_id rule) \<mapsto> now)\<rparr>"
  show ?case
  proof (cases "due ps ts R scope spent limit rule")
    case False
    then have "spent * 100 div limit < ucast (ar_threshold_pct rule) \<or>
        suppressed ps R scope (ar_id rule) ts"
      by (auto simp: due_def not_le)
    then have "evaluate_rules ps now ts scope spent limit (rule # rules) R =
        evaluate_rules ps now ts scope spent limit rules R" by simp
    with False Cons show ?thesis by (simp add: Let_def)
  next
    case True
    then have "\<not> (spent * 100 div limit < ucast (ar_threshold_pct rule) \<or>
        suppressed ps R scope (ar_id rule) ts)"
      by (auto simp: due_def not_le)
    then have step: "evaluate_rules ps now ts scope spent limit (rule # rules) R =
        (case evaluate_rules ps now ts scope spent limit rules ?R of
           (fired, R) \<Rightarrow> (from_rule rule spent limit now # fired, R))"
      by (cases "ar_channel rule") (simp_all add: webhook_message_def Let_def)
    have same: "filter (due ps ts ?R scope spent limit) rules = filter (due ps ts R scope spent limit) rules"
    proof (intro filter_cong refl)
      fix r assume "r \<in> set rules"
      with Cons.prems have "ar_id r \<noteq> ar_id rule" by (metis distinct.simps(2) image_eqI list.map(2) set_map)
      then show "due ps ts ?R scope spent limit r = due ps ts R scope spent limit r"
        by (simp add: due_def suppressed_def split: option.split)
    qed
    show ?thesis
      using True Cons.prems by (subst step, subst Cons.IH) (auto simp: Let_def same fun_eq_iff)
  qed
qed

text \<open>The rule list of a registry keeps one rule per id.\<close>

lemma registry_unique_ids:
  "unique_ids (registry_new c w)"
  "unique_ids R \<Longrightarrow> unique_ids (add_rule R rule)"
  "unique_ids R \<Longrightarrow> unique_ids (snd (remove_rule R i))"
  "unique_ids R \<Longrightarrow> unique_ids (set_last_fired_at R scope i fired)"
  by (simp_all add: unique_ids_def registry_new_def add_rule_def remove_rule_def Let_def
      set_last_fired_at_def list_ex_iff distinct_map_filter image_iff split: option.split) metis

lemma evaluate_spec:
  assumes "unique_ids R" and "limit \<noteq> 0"
  shows "evaluate ps now R scope spent (Some limit) =
    (let firing = filter (\<lambda>r. ar_scope r = scope \<and>
           due ps (unwrap_or (ps now) 0) R scope spent limit r) (rg_rules R) in
     (map (\<lambda>r. from_rule r spent limit now) firing,
      R\<lparr>rg_last_fired_at := (\<lambda>k. if k \<in> (\<lambda>r. (scope, ar_id r)) ` set firing then Some now
                                   else rg_last_fired_at R k),
        rg_sent := rg_sent R @ concat (map (\<lambda>r. webhook_message (rg_webhook_sender R) r
                                              (from_rule r spent limit now)) firing)\<rparr>))"
proof -
  have "distinct (map ar_id (filter (\<lambda>r. ar_scope r = scope) (rg_rules R)))"
    using assms(1) by (simp add: unique_ids_def distinct_map_filter)
  note spec = evaluate_rules_spec [OF this]
  show ?thesis
    using assms(2) by (simp add: evaluate_def spec Let_def conj_commute)
qed

lemma evaluate_unique_ids:
  "unique_ids R \<Longrightarrow> unique_ids (snd (evaluate ps now R scope spent limit))"
  by (cases limit; cases "the limit = 0")
     (simp_all add: evaluate_spec Let_def, simp_all add: evaluate_def unique_ids_def)

section \<open>Properties\<close>


text \<open>
  No alert storms. Once a rule has fired, a later evaluation less than a cooldown after it,
  on the same registry and for whatever spend, does not fire that rule again.
\<close>
theorem cooldown_suppresses:
  assumes "unique_ids R"
    and "evaluate ps now R scope spent (Some limit) = (fired, R')" and "a \<in> set fired"
    and "ps now = Some t" and "ps later = Some t'"
    and "\<bar>t' - t\<bar> < 2 ^ 63" and "t' - t < rg_cooldown_secs R"
  shows "al_rule_id a \<notin> al_rule_id ` set (fst (evaluate ps later R' scope spent' limit'))"
proof -
  have lim: "limit \<noteq> 0" using assms(2,3) by (auto simp: evaluate_def)
  note spec = evaluate_spec [OF assms(1) lim, of ps now scope spent]
  from assms(2,3) spec have stamped: "rg_last_fired_at R' (scope, al_rule_id a) = Some now"
    by (auto simp: Let_def from_rule_def)
  have cool: "rg_cooldown_secs R' = rg_cooldown_secs R"
    using assms(2) spec by (auto simp: Let_def)
  have "i64_saturating_sub t' t = t' - t"
    using assms(6) by (simp add: i64_saturating_sub_def)
  then have quiet: "suppressed ps R' scope (al_rule_id a) t'"
    using stamped assms(4,7) by (simp add: suppressed_def cool)
  have "unique_ids R'" using evaluate_unique_ids [OF assms(1), of ps now scope spent "Some limit"] assms(2) by simp
  note spec' = evaluate_spec [OF this, of _ ps later scope spent']
  show ?thesis
  proof (cases "limit' = None \<or> limit' = Some 0")
    case True
    then show ?thesis by (auto simp: evaluate_def)
  next
    case False
    then obtain l where "limit' = Some l" "l \<noteq> 0" by auto
    with quiet assms(5) show ?thesis
      by (auto simp: spec' Let_def from_rule_def due_def)
  qed
qed

text \<open>
  Channel spellings round-trip. A log channel and a webhook whose URL is non-empty and trimmed
  read back as themselves from the spelling stored beside a rule.
\<close>
theorem channel_round_trip:
  assumes "\<forall>url. c = Webhook url \<longrightarrow> url \<noteq> [] \<and> trim url = url"
  shows "channel_parse (channel_as_str c) = c"
proof (cases c)
  case Log
  have "trim ''log'' = ''log''" by code_simp
  with Log show ?thesis
    by (simp add: channel_parse_def channel_as_str_def ascii_lower_def ascii_lower_char_def less_eq_char_def)
next
  case (Webhook url)
  with assms have url: "url \<noteq> []" "trim url = url" by simp_all
  have "trim_end (''webhook:'' @ url) = ''webhook:'' @ url" and t: "trim (''webhook:'' @ url) = ''webhook:'' @ url"
    by (simp_all add: trim_Cons printable_def url trim_fixD)
  moreover have "ascii_lower (''webhook:'' @ url) = ''webhook:'' @ ascii_lower url"
    by (simp add: ascii_lower_def ascii_lower_char_def less_eq_char_def)
  ultimately show ?thesis
    by (simp add: channel_parse_def channel_as_str_def Webhook after_colon_def url)
qed

theorem channel_round_trip_witness:
  "channel_parse (channel_as_str (Webhook ''https://ops.example/hook'')) = Webhook ''https://ops.example/hook''"
proof (rule channel_round_trip)
  have "trim ''https://ops.example/hook'' = ''https://ops.example/hook''" by code_simp
  then show "\<forall>url. Webhook ''https://ops.example/hook'' = Webhook url \<longrightarrow> url \<noteq> [] \<and> trim url = url"
    by simp
qed

text \<open>
  The percentage is computed in 64 bits. A scope whose limit and spend are both 2^64 / 100 rounded up has
  used up its budget, but the product wraps and no rule fires.
\<close>
theorem percentage_wraps:
  "let rule = \<lparr>ar_id = ''a'', ar_scope = ''s'', ar_threshold_pct = 80, ar_channel = Log\<rparr>;
       R = add_rule (registry_new 3600 0) rule
   in fst (evaluate ps now R ''s'' 184467440737095517 (Some 184467440737095517)) = []"
  by (simp add: evaluate_def add_rule_def registry_new_def)

text \<open>A registry with a log rule at 80 and a webhook rule at 50 per cent.\<close>

definition ex_registry :: alert_registry where
  "ex_registry =
     add_rule (add_rule (registry_new DEFAULT_COOLDOWN_SECS 0)
       \<lparr>ar_id = ''a'', ar_scope = ''team'', ar_threshold_pct = 80, ar_channel = Log\<rparr>)
       \<lparr>ar_id = ''b'', ar_scope = ''team'', ar_threshold_pct = 50, ar_channel = Webhook ''u''\<rparr>"

definition ex_ts :: "string \<Rightarrow> int option" where
  "ex_ts s = (if s = ''t0'' then Some 1000 else if s = ''t1'' then Some 1600 else None)"

lemmas registry_eval_defs = ex_registry_def ex_ts_def registry_new_def add_rule_def
  DEFAULT_COOLDOWN_SECS_def suppressed_def i64_saturating_sub_def Let_def

lemma ex_registry_unique: "unique_ids ex_registry"
  unfolding ex_registry_def by (intro registry_unique_ids)


theorem cooldown_suppresses_witness:
  "map al_rule_id (fst (evaluate ex_ts ''t0'' ex_registry ''team'' 60 (Some 100))) = [''b''] \<and>
   ''b'' \<notin> al_rule_id ` set (fst (evaluate ex_ts ''t1''
      (snd (evaluate ex_ts ''t0'' ex_registry ''team'' 60 (Some 100))) ''team'' 99 (Some 100)))"
proof -
  have fired: "fst (evaluate ex_ts ''t0'' ex_registry ''team'' 60 (Some 100)) =
      [from_rule \<lparr>ar_id = ''b'', ar_scope = ''team'', ar_threshold_pct = 50, ar_channel = Webhook ''u''\<rparr>
         60 100 ''t0'']"
    by (simp add: evaluate_def registry_eval_defs)
  have "evaluate ex_ts ''t0'' ex_registry ''team'' 60 (Some 100) =
      (fst (evaluate ex_ts ''t0'' ex_registry ''team'' 60 (Some 100)),
       snd (evaluate ex_ts ''t0'' ex_registry ''team'' 60 (Some 100)))" by simp
  from cooldown_suppresses [OF ex_registry_unique this, of _ 1000 "''t1''" 1600 99 "Some 100"] fired
  show ?thesis by (simp add: registry_eval_defs from_rule_def)
qed

end
