(* ===== verification/Sink.thy ===== *)
theory Sink
  imports Event
begin

text \<open>
  \<^verbatim>\<open>crates/sandhi-core/src/sink.rs\<close>: where usage events go. The bounded in-memory ring and
  the JSON-lines writer are sequential; the buffered sink is a concurrent system of emitters, one
  writer thread and a closer, modelled as a step relation whose steps are the source's critical
  sections and channel operations. Its counters are guarded by one mutex, so each critical section
  is one step. Ghost fields record the events accepted, those handed to the inner sink, and how
  many were refused or abandoned; no operation reads them. Log lines are not part of the model.
\<close>

section \<open>The in-memory ring\<close>

definition DEFAULT_MEMORY_SINK_CAPACITY :: nat where "DEFAULT_MEMORY_SINK_CAPACITY = 10000"

record in_memory_sink =
  ms_events :: "usage_event list"
  ms_capacity :: nat
  ms_dropped :: u64

definition ring_with_capacity :: "nat \<Rightarrow> in_memory_sink" where
  "ring_with_capacity capacity = \<lparr>ms_events = [], ms_capacity = max capacity 1, ms_dropped = 0\<rparr>"

definition ring_new :: in_memory_sink where
  "ring_new = ring_with_capacity DEFAULT_MEMORY_SINK_CAPACITY"

definition ring_events :: "in_memory_sink \<Rightarrow> usage_event list" where
  "ring_events s = ms_events s"

definition ring_len :: "in_memory_sink \<Rightarrow> nat" where "ring_len s = length (ms_events s)"

definition ring_is_empty :: "in_memory_sink \<Rightarrow> bool" where "ring_is_empty s \<longleftrightarrow> ring_len s = 0"

definition ring_dropped_events :: "in_memory_sink \<Rightarrow> u64" where "ring_dropped_events s = ms_dropped s"

definition ring_record_drop :: "in_memory_sink \<Rightarrow> in_memory_sink" where
  "ring_record_drop s = s\<lparr>ms_dropped := ms_dropped s + 1\<rparr>"

definition ring_emit :: "in_memory_sink \<Rightarrow> usage_event \<Rightarrow> in_memory_sink" where
  "ring_emit s event =
     (let evicted = length (ms_events s) \<ge> ms_capacity s;
          s = (if evicted then s\<lparr>ms_events := tl (ms_events s)\<rparr> else s);
          s = s\<lparr>ms_events := ms_events s @ [event]\<rparr>
      in if evicted then ring_record_drop s else s)"

section \<open>The JSON-lines writer\<close>

text \<open>Serialisation and the underlying writer are parameters; a write that fails is ignored.\<close>

definition jsonl_emit ::
  "(usage_event \<Rightarrow> string option) \<Rightarrow> ('w \<Rightarrow> string \<Rightarrow> 'w) \<Rightarrow> 'w \<Rightarrow> usage_event \<Rightarrow> 'w" where
  "jsonl_emit to_string write w event =
     (case to_string event of
        Some line \<Rightarrow> write w (line @ [CHR 0x0A])
      | None \<Rightarrow> w)"

section \<open>The buffered sink\<close>

datatype buffered_message = EventMsg usage_event | FlushMsg | ShutdownMsg

text \<open>
  The writer thread: waiting for a message, holding an event it has received but not claimed,
  running the inner sink's callback, or gone (after a shutdown message, or by a panic of the
  callback).
\<close>

datatype worker = Waiting | Received usage_event | Running usage_event | Stopped | Panicked

text \<open>The one call of \<^verbatim>\<open>close\<close> that finds the sink open, from start to result.\<close>

datatype closer =
  NotClosing | SendFlush | AwaitAck | SendShutdown | TakeWorker | Joining | Closed bool

record buffer_snapshot =
  sn_capacity :: nat
  sn_queued :: nat
  sn_in_flight :: nat
  sn_dropped :: u64

record buffered_sink = buffer_snapshot +
  bs_channel :: "buffered_message list"
  bs_worker :: worker
  bs_closed :: bool
  bs_closer :: closer
  bs_acked :: bool
  bs_taken :: bool
  bs_accepted :: "usage_event list"
  bs_invoked :: "usage_event list"
  bs_refused :: nat
  bs_abandoned :: nat

definition sink_new :: "nat \<Rightarrow> buffered_sink" where
  "sink_new capacity =
     \<lparr>sn_capacity = max capacity 1, sn_queued = 0, sn_in_flight = 0, sn_dropped = 0,
      bs_channel = [], bs_worker = Waiting, bs_closed = False, bs_closer = NotClosing,
      bs_acked = False, bs_taken = False, bs_accepted = [], bs_invoked = [], bs_refused = 0, bs_abandoned = 0\<rparr>"

definition sink_snapshot :: "buffered_sink \<Rightarrow> buffer_snapshot" where
  "sink_snapshot s =
     \<lparr>sn_capacity = sn_capacity s, sn_queued = sn_queued s, sn_in_flight = sn_in_flight s,
      sn_dropped = sn_dropped s\<rparr>"

definition sink_dropped_events :: "buffered_sink \<Rightarrow> u64" where
  "sink_dropped_events s = sn_dropped (sink_snapshot s)"

datatype try_send = Sent | Full | Disconnected

text \<open>\<^verbatim>\<open>SyncSender::try_send\<close>: the channel holds \<open>capacity\<close> messages, and its receiver is dropped when the writer ends.\<close>

definition receiver_gone :: "buffered_sink \<Rightarrow> bool" where
  "receiver_gone s \<longleftrightarrow> bs_worker s = Stopped \<or> bs_worker s = Panicked"

definition channel_try_send :: "buffered_sink \<Rightarrow> buffered_message \<Rightarrow> try_send \<times> buffered_sink" where
  "channel_try_send s m =
     (if receiver_gone s then (Disconnected, s)
      else if length (bs_channel s) \<ge> sn_capacity s then (Full, s)
      else (Sent, s\<lparr>bs_channel := bs_channel s @ [m]\<rparr>))"

definition sink_refuse :: "buffered_sink \<Rightarrow> buffered_sink" where
  "sink_refuse s = s\<lparr>sn_dropped := sn_dropped s + 1, bs_refused := bs_refused s + 1\<rparr>"

definition sink_emit :: "buffered_sink \<Rightarrow> usage_event \<Rightarrow> buffered_sink" where
  "sink_emit s event =
     (if bs_closed s \<or> sn_queued s \<ge> sn_capacity s then sink_refuse s
      else case channel_try_send s (EventMsg event) of
             (Sent, s) \<Rightarrow>
               s\<lparr>sn_queued := sn_queued s + 1, bs_accepted := bs_accepted s @ [event]\<rparr>
           | (_, s) \<Rightarrow> sink_refuse s)"

text \<open>The writer's loop: receive a message, claim a received event, and the return of the callback.\<close>

definition worker_recv :: "buffered_sink \<Rightarrow> buffered_sink option" where
  "worker_recv s =
     (case (bs_worker s, bs_channel s) of
        (Waiting, m # ms) \<Rightarrow>
          (let s = s\<lparr>bs_channel := ms\<rparr> in
           case m of
             EventMsg event \<Rightarrow> Some (s\<lparr>bs_worker := Received event\<rparr>)
           | FlushMsg \<Rightarrow> Some (s\<lparr>bs_acked := True\<rparr>)
           | ShutdownMsg \<Rightarrow> Some (s\<lparr>bs_worker := Stopped, bs_channel := []\<rparr>))
      | _ \<Rightarrow> None)"

definition worker_claim :: "buffered_sink \<Rightarrow> buffered_sink option" where
  "worker_claim s =
     (case bs_worker s of
        Received event \<Rightarrow>
          Some (s\<lparr>sn_queued := sn_queued s - 1, sn_in_flight := sn_in_flight s + 1,
                  bs_worker := Running event, bs_invoked := bs_invoked s @ [event]\<rparr>)
      | _ \<Rightarrow> None)"

definition worker_return :: "bool \<Rightarrow> buffered_sink \<Rightarrow> buffered_sink option" where
  "worker_return panicked s =
     (case bs_worker s of
        Running event \<Rightarrow>
          (let s = s\<lparr>sn_in_flight := sn_in_flight s - 1\<rparr> in
           if panicked
           then Some (s\<lparr>sn_dropped := sn_dropped s + of_nat (sn_queued s), sn_queued := 0,
                        bs_channel := [], bs_worker := Panicked,
                        bs_abandoned := bs_abandoned s + sn_queued s\<rparr>)
           else Some (s\<lparr>bs_worker := Waiting\<rparr>))
      | _ \<Rightarrow> None)"

text \<open>
  The steps of \<^verbatim>\<open>close\<close>; its timeouts may strike wherever it waits. A later call of
  \<^verbatim>\<open>close\<close> only reports whether the first one has taken the writer's handle.
\<close>

definition close_begin :: "buffered_sink \<Rightarrow> buffered_sink option" where
  "close_begin s =
     (if bs_closed s then None else Some (s\<lparr>bs_closed := True, bs_closer := SendFlush\<rparr>))"

definition close_again :: "buffered_sink \<Rightarrow> bool" where
  "close_again s \<longleftrightarrow> bs_closed s \<and> bs_taken s"

definition send_control_until :: "bool \<Rightarrow> buffered_message \<Rightarrow> closer \<Rightarrow> buffered_sink \<Rightarrow> buffered_sink" where
  "send_control_until deadline_passed m next s =
     (case channel_try_send s m of
        (Sent, s) \<Rightarrow> s\<lparr>bs_closer := next\<rparr>
      | (Disconnected, s) \<Rightarrow> s\<lparr>bs_closer := Closed False\<rparr>
      | (Full, s) \<Rightarrow> if deadline_passed then s\<lparr>bs_closer := Closed False\<rparr> else s)"

definition close_step :: "bool \<Rightarrow> buffered_sink \<Rightarrow> buffered_sink option" where
  "close_step deadline_passed s =
     (case bs_closer s of
        SendFlush \<Rightarrow> Some (send_control_until deadline_passed FlushMsg AwaitAck s)
      | AwaitAck \<Rightarrow>
          if deadline_passed then Some (s\<lparr>bs_closer := Closed False\<rparr>)
          else if bs_acked s then Some (s\<lparr>bs_closer := SendShutdown\<rparr>)
          else if receiver_gone s then Some (s\<lparr>bs_closer := Closed False\<rparr>)
          else None
      | SendShutdown \<Rightarrow> Some (send_control_until deadline_passed ShutdownMsg TakeWorker s)
      | TakeWorker \<Rightarrow> Some (s\<lparr>bs_closer := Joining, bs_taken := True\<rparr>)
      | Joining \<Rightarrow>
          if receiver_gone s then Some (s\<lparr>bs_closer := Closed (bs_worker s = Stopped)\<rparr>) else None
      | _ \<Rightarrow> None)"

inductive sink_step :: "buffered_sink \<Rightarrow> buffered_sink \<Rightarrow> bool" where
  Emit: "sink_step s (sink_emit s event)"
| Recv: "worker_recv s = Some s' \<Longrightarrow> sink_step s s'"
| Claim: "worker_claim s = Some s' \<Longrightarrow> sink_step s s'"
| Return: "worker_return panicked s = Some s' \<Longrightarrow> sink_step s s'"
| Begin: "close_begin s = Some s' \<Longrightarrow> sink_step s s'"
| Close: "close_step deadline_passed s = Some s' \<Longrightarrow> sink_step s s'"

inductive_cases sink_stepE: "sink_step s s'"

section \<open>Invariant of the buffered sink\<close>

definition events_of :: "buffered_message list \<Rightarrow> usage_event list" where
  "events_of = List.map_filter (\<lambda>m. case m of EventMsg e \<Rightarrow> Some e | _ \<Rightarrow> None)"

lemma events_of_simps [simp]:
  "events_of [] = []" "events_of (EventMsg e # ms) = e # events_of ms"
  "events_of (FlushMsg # ms) = events_of ms" "events_of (ShutdownMsg # ms) = events_of ms"
  "events_of (xs @ ys) = events_of xs @ events_of ys"
  by (simp_all add: events_of_def List.map_filter_def)

definition held_event :: "worker \<Rightarrow> usage_event list" where
  "held_event w = (case w of Received e \<Rightarrow> [e] | _ \<Rightarrow> [])"

text \<open>The accepted events that the inner sink has not been handed yet, oldest first.\<close>

definition pending :: "buffered_sink \<Rightarrow> usage_event list" where
  "pending s = held_event (bs_worker s) @ events_of (bs_channel s)"

text \<open>No event follows a control message in the channel.\<close>

fun is_event :: "buffered_message \<Rightarrow> bool" where
  "is_event (EventMsg _) = True"
| "is_event _ = False"

definition controls_last :: "buffered_message list \<Rightarrow> bool" where
  "controls_last ms \<longleftrightarrow> events_of (dropWhile is_event ms) = []"

text \<open>The writer has acknowledged the flush by the time \<^verbatim>\<open>close\<close> sends the shutdown message.\<close>

definition past_ack :: "closer \<Rightarrow> bool" where
  "past_ack c = (case c of SendShutdown \<Rightarrow> True | TakeWorker \<Rightarrow> True | Joining \<Rightarrow> True | _ \<Rightarrow> False)"

lemma past_ack_simps [simp]:
  "\<not> past_ack NotClosing" "\<not> past_ack SendFlush" "\<not> past_ack AwaitAck" "past_ack SendShutdown"
  "past_ack TakeWorker" "past_ack Joining" "\<not> past_ack (Closed b)"
  by (simp_all add: past_ack_def)

definition sink_inv :: "buffered_sink \<Rightarrow> bool" where
  "sink_inv s \<longleftrightarrow>
     length (bs_channel s) \<le> sn_capacity s \<and> sn_queued s \<le> sn_capacity s \<and>
     sn_dropped s = of_nat (bs_refused s + bs_abandoned s) \<and>
     sn_in_flight s = (case bs_worker s of Running _ \<Rightarrow> 1 | _ \<Rightarrow> 0) \<and>
     bs_closed s = (bs_closer s \<noteq> NotClosing) \<and>
     controls_last (bs_channel s) \<and>
     (bs_closer s = NotClosing \<longrightarrow> list_all is_event (bs_channel s)) \<and>
     (bs_acked s \<longrightarrow> bs_closer s \<noteq> NotClosing \<and> events_of (bs_channel s) = [] \<and>
        (bs_worker s = Waiting \<or> bs_worker s = Stopped)) \<and>
     (\<not> bs_acked s \<longrightarrow> \<not> past_ack (bs_closer s) \<and> \<not> bs_taken s) \<and>
     (bs_closer s = Closed True \<longrightarrow> bs_worker s = Stopped) \<and>
     (bs_worker s = Stopped \<longrightarrow> bs_channel s = []) \<and>
     (if bs_worker s = Panicked
      then bs_channel s = [] \<and> sn_queued s = 0 \<and>
           (\<exists>rest. bs_accepted s = bs_invoked s @ rest \<and> length rest = bs_abandoned s)
      else bs_accepted s = bs_invoked s @ pending s \<and> sn_queued s = length (pending s) \<and>
           bs_abandoned s = 0)"

lemma controls_last_simps [simp]:
  "controls_last []" "controls_last (EventMsg e # ms) = controls_last ms"
  "controls_last (FlushMsg # ms) = (events_of ms = [])"
  "controls_last (ShutdownMsg # ms) = (events_of ms = [])"
  by (simp_all add: controls_last_def)

lemma is_event_cases: "is_event m \<longleftrightarrow> (\<exists>e. m = EventMsg e)"
  by (cases m) simp_all

lemma no_events_controls_last: "events_of ms = [] \<Longrightarrow> controls_last ms"
  by (induction ms) (auto simp: events_of_def List.map_filter_def split: buffered_message.splits)

lemma controls_last_snoc_event: "list_all is_event ms \<Longrightarrow> controls_last (ms @ [EventMsg e])"
  by (induction ms) (auto simp: is_event_cases)

lemma controls_last_snoc_control:
  "controls_last ms \<Longrightarrow> \<not> is_event m \<Longrightarrow> controls_last (ms @ [m])"
proof (induction ms)
  case (Cons x ms)
  then show ?case by (cases x; cases m) auto
qed (cases m; simp)

lemma controls_last_tl: "controls_last (m # ms) \<Longrightarrow> controls_last ms \<and> (\<not> is_event m \<longrightarrow> events_of ms = [])"
  by (cases m) (auto intro: no_events_controls_last)

lemma sink_inv_new: "sink_inv (sink_new capacity)"
  by (simp add: sink_inv_def sink_new_def pending_def held_event_def)

lemma sink_inv_refuse: "sink_inv s \<Longrightarrow> sink_inv (sink_refuse s)"
  by (simp add: sink_inv_def sink_refuse_def pending_def algebra_simps)

lemma channel_try_send_cases:
  obtains (Sent) "channel_try_send s m = (Sent, s\<lparr>bs_channel := bs_channel s @ [m]\<rparr>)"
      "\<not> receiver_gone s" "length (bs_channel s) < sn_capacity s"
  | (Full) "channel_try_send s m = (Full, s)"
  | (Disconnected) "channel_try_send s m = (Disconnected, s)"
  by (cases "receiver_gone s"; cases "length (bs_channel s) < sn_capacity s")
     (auto simp: channel_try_send_def)

lemma sink_inv_emit: "sink_inv s \<Longrightarrow> sink_inv (sink_emit s event)"
proof (cases "bs_closed s \<or> sn_queued s \<ge> sn_capacity s")
  case True
  then show "sink_inv s \<Longrightarrow> ?thesis" by (simp add: sink_emit_def sink_inv_refuse)
next
  case False
  assume inv: "sink_inv s"
  show ?thesis
  proof (cases rule: channel_try_send_cases [of s "EventMsg event"])
    case Sent
    with False inv show ?thesis
      by (auto simp: sink_emit_def sink_inv_def controls_last_snoc_event pending_def receiver_gone_def
          split: if_splits)
  qed (use False inv in \<open>simp_all add: sink_emit_def sink_inv_refuse\<close>)
qed

lemma worker_recv_SomeE:
  assumes "worker_recv s = Some s'"
  obtains (Event) e ms where "bs_worker s = Waiting" "bs_channel s = EventMsg e # ms"
      "s' = s\<lparr>bs_channel := ms, bs_worker := Received e\<rparr>"
  | (Flush) ms where "bs_worker s = Waiting" "bs_channel s = FlushMsg # ms"
      "s' = s\<lparr>bs_channel := ms, bs_acked := True\<rparr>"
  | (Shutdown) ms where "bs_worker s = Waiting" "bs_channel s = ShutdownMsg # ms"
      "s' = s\<lparr>bs_worker := Stopped, bs_channel := []\<rparr>"
proof -
  from assms have w: "bs_worker s = Waiting"
    by (simp add: worker_recv_def split: worker.splits)
  from assms obtain m ms where c: "bs_channel s = m # ms"
    by (cases "bs_channel s") (simp_all add: worker_recv_def w)
  show thesis
  proof (cases m)
    case (EventMsg e)
    with assms w c that(1) show thesis by (simp add: worker_recv_def)
  next
    case FlushMsg
    with assms w c that(2) show thesis by (simp add: worker_recv_def)
  next
    case ShutdownMsg
    with assms w c that(3) show thesis by (simp add: worker_recv_def)
  qed
qed

lemma channel_tl:
  "sink_inv s \<Longrightarrow> bs_channel s = m # ms \<Longrightarrow> controls_last ms \<and> (\<not> is_event m \<longrightarrow> events_of ms = [])"
  by (rule controls_last_tl) (simp add: sink_inv_def)

lemma control_closed:
  "sink_inv s \<Longrightarrow> bs_channel s = m # ms \<Longrightarrow> \<not> is_event m \<Longrightarrow> bs_closed s"
  by (auto simp: sink_inv_def)

lemma sink_inv_recv:
  assumes "sink_inv s" and "worker_recv s = Some s'"
  shows "sink_inv s'"
  using assms(2)
proof (cases rule: worker_recv_SomeE)
  case (Event e ms)
  have "controls_last ms" using channel_tl [OF assms(1) Event(2)] by simp
  with assms(1) Event(1,2) show ?thesis
    unfolding Event(3) by (simp add: sink_inv_def pending_def held_event_def)
next
  case (Flush ms)
  have "controls_last ms" "events_of ms = []" "bs_closed s"
    using channel_tl [OF assms(1) Flush(2)] control_closed [OF assms(1) Flush(2)] by simp_all
  with assms(1) Flush(1,2) show ?thesis
    unfolding Flush(3) by (simp add: sink_inv_def pending_def held_event_def)
next
  case (Shutdown ms)
  have "events_of ms = []" using channel_tl [OF assms(1) Shutdown(2)] by simp
  with assms(1) Shutdown(1,2) show ?thesis
    unfolding Shutdown(3) by (simp add: sink_inv_def pending_def held_event_def)
qed

lemma sink_inv_claim:
  assumes "sink_inv s" and "worker_claim s = Some s'"
  shows "sink_inv s'"
proof -
  from assms(2) obtain e where w: "bs_worker s = Received e"
    by (cases "bs_worker s") (simp_all add: worker_claim_def)
  from assms(2) have s': "s' = s\<lparr>sn_queued := sn_queued s - 1, sn_in_flight := sn_in_flight s + 1,
      bs_worker := Running e, bs_invoked := bs_invoked s @ [e]\<rparr>"
    by (simp add: worker_claim_def w)
  show ?thesis
    using assms(1) by (simp add: s' w sink_inv_def pending_def held_event_def)
qed

lemma sink_inv_return:
  assumes "sink_inv s" and "worker_return panicked s = Some s'"
  shows "sink_inv s'"
proof -
  from assms(2) obtain e where w: "bs_worker s = Running e"
    by (cases "bs_worker s") (simp_all add: worker_return_def)
  show ?thesis
  proof (cases panicked)
    case True
    with assms(2) have s': "s' = s\<lparr>sn_in_flight := sn_in_flight s - 1,
        sn_dropped := sn_dropped s + of_nat (sn_queued s), sn_queued := 0, bs_channel := [],
        bs_worker := Panicked, bs_abandoned := bs_abandoned s + sn_queued s\<rparr>"
      by (simp add: worker_return_def w Let_def)
    show ?thesis
      using assms(1) by (simp add: s' w sink_inv_def pending_def held_event_def)
  next
    case False
    with assms(2) have s': "s' = s\<lparr>sn_in_flight := sn_in_flight s - 1, bs_worker := Waiting\<rparr>"
      by (simp add: worker_return_def w Let_def)
    show ?thesis
      using assms(1) by (simp add: s' w sink_inv_def pending_def held_event_def)
  qed
qed

lemma sink_inv_begin: "sink_inv s \<Longrightarrow> close_begin s = Some s' \<Longrightarrow> sink_inv s'"
  by (auto simp: close_begin_def sink_inv_def pending_def split: if_splits)

lemma sink_inv_control:
  assumes "sink_inv s" and "bs_closer s \<in> {SendFlush, SendShutdown}"
    and "m = FlushMsg \<and> next = AwaitAck \<or> m = ShutdownMsg \<and> next = TakeWorker \<and> bs_acked s"
  shows "sink_inv (send_control_until deadline_passed m next s)"
proof (cases rule: channel_try_send_cases [of s m])
  case Sent
  with assms show ?thesis
    by (auto simp: send_control_until_def sink_inv_def controls_last_snoc_control pending_def
        receiver_gone_def split: if_splits)
qed (use assms in \<open>auto simp: send_control_until_def sink_inv_def pending_def\<close>)

lemma sink_inv_close:
  assumes "sink_inv s" and "close_step deadline_passed s = Some s'"
  shows "sink_inv s'"
proof (cases "bs_closer s")
  case SendFlush
  then have "s' = send_control_until deadline_passed FlushMsg AwaitAck s"
    using assms(2) by (simp add: close_step_def)
  then show ?thesis using sink_inv_control [OF assms(1)] SendFlush by simp
next
  case AwaitAck
  then have "s' = s\<lparr>bs_closer := Closed False\<rparr> \<or> bs_acked s \<and> s' = s\<lparr>bs_closer := SendShutdown\<rparr>"
    using assms(2) by (auto simp: close_step_def split: if_splits)
  then show ?thesis
    using assms(1) AwaitAck by (elim disjE conjE) (simp_all add: sink_inv_def pending_def)
next
  case SendShutdown
  then have "s' = send_control_until deadline_passed ShutdownMsg TakeWorker s"
    using assms(2) by (simp add: close_step_def)
  moreover have "bs_acked s"
    using assms(1) SendShutdown by (cases "bs_acked s") (simp_all add: sink_inv_def)
  ultimately show ?thesis using sink_inv_control [OF assms(1)] SendShutdown by simp
next
  case TakeWorker
  then have "s' = s\<lparr>bs_closer := Joining, bs_taken := True\<rparr>"
    using assms(2) by (simp add: close_step_def)
  moreover have "bs_acked s"
    using assms(1) TakeWorker by (cases "bs_acked s") (simp_all add: sink_inv_def)
  ultimately show ?thesis
    using assms(1) TakeWorker by (simp add: sink_inv_def pending_def)
next
  case Joining
  then have "s' = s\<lparr>bs_closer := Closed (bs_worker s = Stopped)\<rparr>"
    using assms(2) by (auto simp: close_step_def split: if_splits)
  then show ?thesis
    using assms(1) Joining by (simp add: sink_inv_def pending_def)
qed (use assms(2) in \<open>simp_all add: close_step_def\<close>)

lemma sink_inv_step: "sink_step s s' \<Longrightarrow> sink_inv s \<Longrightarrow> sink_inv s'"
  by (erule sink_stepE)
     (auto intro: sink_inv_emit sink_inv_recv sink_inv_claim sink_inv_return sink_inv_begin sink_inv_close)

lemma sink_reachable_inv: "sink_step\<^sup>*\<^sup>* (sink_new capacity) s \<Longrightarrow> sink_inv s"
  by (induction rule: rtranclp_induct) (auto simp: sink_inv_new intro: sink_inv_step)

lemma try_send_capacity [simp]: "sn_capacity (snd (channel_try_send s m)) = sn_capacity s"
  by (simp add: channel_try_send_def)

lemma sink_step_capacity: "sink_step s s' \<Longrightarrow> sn_capacity s' = sn_capacity s"
proof (erule sink_stepE)
  show "s' = sink_emit s event \<Longrightarrow> sn_capacity s' = sn_capacity s" for event
    by (cases rule: channel_try_send_cases [of s "EventMsg event"])
       (simp_all add: sink_emit_def sink_refuse_def)
  show "worker_recv s = Some s' \<Longrightarrow> sn_capacity s' = sn_capacity s"
    by (erule worker_recv_SomeE) simp_all
  show "worker_claim s = Some s' \<Longrightarrow> sn_capacity s' = sn_capacity s"
    by (auto simp: worker_claim_def split: worker.splits)
  show "worker_return panicked s = Some s' \<Longrightarrow> sn_capacity s' = sn_capacity s" for panicked
    by (auto simp: worker_return_def Let_def split: worker.splits if_splits)
  show "close_begin s = Some s' \<Longrightarrow> sn_capacity s' = sn_capacity s"
    by (auto simp: close_begin_def split: if_splits)
  have "sn_capacity (send_control_until d m n s) = sn_capacity s" for d m n
    by (cases rule: channel_try_send_cases [of s m]) (simp_all add: send_control_until_def)
  then show "close_step d s = Some s' \<Longrightarrow> sn_capacity s' = sn_capacity s" for d
    by (auto simp: close_step_def split: closer.splits if_splits)
qed

lemma ring_emits:
  assumes "k = max c 1"
  shows "fold (\<lambda>e s. ring_emit s e) es (ring_with_capacity c) =
     \<lparr>ms_events = drop (length es - k) es, ms_capacity = k, ms_dropped = of_nat (length es - k)\<rparr>"
proof (induction es rule: rev_induct)
  case Nil
  then show ?case by (simp add: ring_with_capacity_def assms)
next
  case (snoc e es)
  have k: "1 \<le> k" using assms by simp
  have step: "fold (\<lambda>e s. ring_emit s e) (es @ [e]) (ring_with_capacity c) =
      ring_emit \<lparr>ms_events = drop (length es - k) es, ms_capacity = k,
        ms_dropped = of_nat (length es - k)\<rparr> e"
    using snoc by simp
  show ?case
  proof (cases "length es < k")
    case True
    then show ?thesis unfolding step by (simp add: ring_emit_def)
  next
    case False
    with k have "tl (drop (length es - k) es) @ [e] = drop (Suc (length es - k)) (es @ [e])"
      by (simp add: drop_Suc tl_drop)
    with False k show ?thesis
      unfolding step by (simp add: ring_emit_def ring_record_drop_def Suc_diff_le)
  qed
qed

section \<open>Properties\<close>

text \<open>
  C12: nothing is lost unseen. In every reachable state of the buffered sink, the accepted events are
  those handed to the inner sink, in order and once each, followed by those still queued; after a
  panic of the inner sink the remaining ones are counted as dropped. The dropped counter is
  exactly the refused and abandoned events, and at most one callback runs.
\<close>
theorem sink_accounts_for_every_event:
  assumes "sink_step\<^sup>*\<^sup>* (sink_new capacity) s"
  shows "\<exists>rest. bs_accepted s = bs_invoked s @ rest \<and>
    length rest = sn_queued s + bs_abandoned s \<and>
    (bs_worker s \<noteq> Panicked \<longrightarrow> rest = pending s \<and> bs_abandoned s = 0) \<and>
    sink_dropped_events s = of_nat (bs_refused s + bs_abandoned s) \<and> sn_in_flight s \<le> 1"
  using sink_reachable_inv [OF assms]
  by (auto simp: sink_inv_def sink_dropped_events_def sink_snapshot_def split: if_splits worker.split)

text \<open>
  Memory stays bounded. However emitters, writer and closer interleave, neither the channel nor the
  accepted and unclaimed events exceed the configured capacity, which is at least one.
\<close>
theorem sink_bounded:
  assumes "sink_step\<^sup>*\<^sup>* (sink_new capacity) s"
  shows "length (bs_channel s) \<le> max capacity 1 \<and> sn_queued s \<le> max capacity 1"
proof -
  have "sn_capacity s = max capacity 1"
    using assms by (induction rule: rtranclp_induct) (auto simp: sink_new_def dest: sink_step_capacity)
  with sink_reachable_inv [OF assms] show ?thesis by (simp add: sink_inv_def)
qed

text \<open>
  C32: a successful close has drained. When \<open>close\<close> reports success, on the first call or a
  later one, every event ever accepted has been handed to the inner sink, in order; none is queued,
  running or abandoned, and no later emit can be accepted.
\<close>
theorem close_true_drains:
  assumes "sink_step\<^sup>*\<^sup>* (sink_new capacity) s" and "bs_closer s = Closed True \<or> close_again s"
  shows "bs_invoked s = bs_accepted s \<and> sn_queued s = 0 \<and> sn_in_flight s = 0 \<and>
    bs_abandoned s = 0 \<and> bs_accepted (sink_emit s e) = bs_accepted s"
proof -
  note inv = sink_reachable_inv [OF assms(1), unfolded sink_inv_def]
  from assms(2) inv have "bs_closed s" "events_of (bs_channel s) = []"
      "bs_worker s = Waiting \<or> bs_worker s = Stopped"
    by (auto simp: close_again_def)
  with inv show ?thesis
    by (auto simp: pending_def held_event_def sink_emit_def sink_refuse_def)
qed

text \<open>
  The in-memory ring keeps the newest events. After any number of emits it holds the last
  \<open>capacity\<close> of them, oldest first, and has counted the others as dropped.
\<close>
theorem ring_keeps_newest:
  "ring_events (fold (\<lambda>e s. ring_emit s e) es (ring_with_capacity c)) = drop (length es - max c 1) es \<and>
   ring_dropped_events (fold (\<lambda>e s. ring_emit s e) es (ring_with_capacity c)) =
     of_nat (length es - max c 1) \<and>
   ring_len (fold (\<lambda>e s. ring_emit s e) es (ring_with_capacity c)) \<le> max c 1"
  by (simp add: ring_emits [OF refl] ring_events_def ring_dropped_events_def ring_len_def)

section \<open>A concrete run\<close>

text \<open>One event through a sink of capacity one, and an orderly close.\<close>

definition ex_event :: usage_event where
  "ex_event = event_new ''r1'' ''2030-01-01T00:00:00Z'' ''openai'' ''m'' External"

definition ex_schedule :: "(buffered_sink \<Rightarrow> buffered_sink option) list" where
  "ex_schedule =
     [\<lambda>s. Some (sink_emit s ex_event), worker_recv, worker_claim, worker_return False, close_begin,
      close_step False, worker_recv, close_step False, close_step False, close_step False,
      worker_recv, close_step False]"

definition run_schedule ::
  "(buffered_sink \<Rightarrow> buffered_sink option) list \<Rightarrow> buffered_sink \<Rightarrow> buffered_sink option" where
  "run_schedule fs s = foldl Option.bind (Some s) fs"

lemma run_schedule_reachable:
  assumes "\<And>f s s'. f \<in> set fs \<Longrightarrow> f s = Some s' \<Longrightarrow> sink_step s s'" and "run_schedule fs s = Some s'"
  shows "sink_step\<^sup>*\<^sup>* s s'"
  using assms
proof (induction fs arbitrary: s' rule: rev_induct)
  case Nil
  then show ?case by (simp add: run_schedule_def)
next
  case (snoc f fs)
  then obtain t where t: "run_schedule fs s = Some t" "f t = Some s'"
    by (auto simp: run_schedule_def bind_eq_Some_conv)
  have "sink_step\<^sup>*\<^sup>* s t" by (rule snoc.IH) (use snoc.prems(1) t(1) in auto)
  moreover have "sink_step t s'" using snoc.prems(1) [of f t s'] t(2) by simp
  ultimately show ?case by (rule rtranclp.rtrancl_into_rtrancl)
qed

definition ex_final :: buffered_sink where
  "ex_final = (sink_new 1)\<lparr>bs_worker := Stopped, bs_closed := True, bs_closer := Closed True,
     bs_acked := True, bs_taken := True, bs_accepted := [ex_event], bs_invoked := [ex_event]\<rparr>"

lemma ex_final_run: "run_schedule ex_schedule (sink_new 1) = Some ex_final"
  by (simp add: run_schedule_def ex_schedule_def ex_final_def sink_new_def sink_emit_def
      channel_try_send_def receiver_gone_def worker_recv_def worker_claim_def worker_return_def
      close_begin_def close_step_def send_control_until_def)

lemma ex_final_reachable: "sink_step\<^sup>*\<^sup>* (sink_new 1) ex_final"
  by (rule run_schedule_reachable [OF _ ex_final_run])
     (auto simp: ex_schedule_def intro: sink_step.intros)

theorem sink_accounts_for_every_event_witness:
  "\<exists>rest. bs_accepted ex_final = bs_invoked ex_final @ rest \<and>
     length rest = sn_queued ex_final + bs_abandoned ex_final"
  using sink_accounts_for_every_event [OF ex_final_reachable] by blast

theorem sink_bounded_witness: "length (bs_channel ex_final) \<le> 1"
  using sink_bounded [OF ex_final_reachable] by simp

theorem close_true_drains_witness: "bs_closer ex_final = Closed True \<and> bs_invoked ex_final = bs_accepted ex_final"
  using close_true_drains [OF ex_final_reachable] by (simp add: ex_final_def)

end
