(* ===== verification/Sql_Engine.thy ===== *)
theory Sql_Engine
  imports Prelude
begin

text \<open>
  What the durable stores use of \<^verbatim>\<open>rusqlite\<close> and \<^verbatim>\<open>time\<close>.

  The SQL statements of the sources are translated to operations on tables. The engine that runs
  them is a parameter: it says of every statement of a call whether it is done, fails, or (a
  commit, or a statement outside a transaction) takes effect although the caller is told of a
  failure. A transaction that is dropped without a commit is rolled back. The calendar of
  \<^verbatim>\<open>time::OffsetDateTime\<close> is a parameter too.
\<close>

section \<open>Integers in the database\<close>

datatype sql_error =
    EngineFailure
  | ConstraintViolation
  | QueryReturnedNoRows
  | IntegralValueOutOfRange
  | InvalidColumnType
  | ToSqlConversionFailure
  | IntegerOverflow
  | DatabaseFull

text \<open>\<^verbatim>\<open>i64::try_from\<close> of an unsigned value, and the unsigned reading of a column.\<close>

definition in_i64 :: "int \<Rightarrow> bool" where
  "in_i64 x \<longleftrightarrow> - (2 ^ 63) \<le> x \<and> x < 2 ^ 63"

definition i64_try_from :: "u64 \<Rightarrow> sql_error + int" where
  "i64_try_from x = (if unat x < 2 ^ 63 then Inr (uint x) else Inl ToSqlConversionFailure)"

definition get_u64 :: "int \<Rightarrow> sql_error + u64" where
  "get_u64 v = (if 0 \<le> v then Inr (word_of_int v) else Inl IntegralValueOutOfRange)"

definition clamp_u64 :: "int \<Rightarrow> u64" where
  "clamp_u64 v = word_of_int (max v 0)"

text \<open>
  \<^verbatim>\<open>COALESCE(SUM(column), 0)\<close>: the sum over integers, an error as soon as an
  intermediate value leaves the 64-bit range.
\<close>

fun sql_sum_from :: "int \<Rightarrow> int list \<Rightarrow> sql_error + int" where
  "sql_sum_from acc [] = Inr acc"
| "sql_sum_from acc (x # xs) =
     (if in_i64 (acc + x) then sql_sum_from (acc + x) xs else Inl IntegerOverflow)"

definition sql_sum :: "int list \<Rightarrow> sql_error + int" where
  "sql_sum = sql_sum_from 0"

lemma sql_sum_from_Inr: "sql_sum_from acc xs = Inr v \<Longrightarrow> v = acc + sum_list xs"
  by (induction xs arbitrary: acc) (fastforce split: if_splits)+

lemma sql_sum_Inr: "sql_sum xs = Inr v \<Longrightarrow> v = sum_list xs"
  by (auto simp: sql_sum_def dest: sql_sum_from_Inr)

lemma sum_list_nonneg_int: "\<forall>x \<in> set xs. 0 \<le> x \<Longrightarrow> 0 \<le> sum_list xs" for xs :: "int list"
  by (induction xs) auto

lemma sql_sum_from_nonneg:
  assumes "\<forall>x \<in> set xs. 0 \<le> x" and "0 \<le> acc" and "acc + sum_list xs < 2 ^ 63"
  shows "sql_sum_from acc xs = Inr (acc + sum_list xs)"
  using assms
proof (induction xs arbitrary: acc)
  case (Cons x xs)
  then have "0 \<le> sum_list xs" by (simp add: sum_list_nonneg_int)
  with Cons show ?case by (simp add: in_i64_def)
qed simp

lemma sql_sum_nonneg:
  "\<lbrakk>\<forall>x \<in> set xs. 0 \<le> x; sum_list xs < 2 ^ 63\<rbrakk> \<Longrightarrow> sql_sum xs = Inr (sum_list xs)"
  using sql_sum_from_nonneg [of xs 0] by (simp add: sql_sum_def)

lemma sql_sum_nonneg_cases:
  assumes "\<forall>x \<in> set xs. 0 \<le> x"
  shows "sql_sum xs = (if sum_list xs < 2 ^ 63 then Inr (sum_list xs) else Inl IntegerOverflow)"
proof -
  have "sql_sum_from acc xs =
      (if acc + sum_list xs < 2 ^ 63 then Inr (acc + sum_list xs) else Inl IntegerOverflow)"
    if "0 \<le> acc" "acc < 2 ^ 63" for acc
    using assms that
  proof (induction xs arbitrary: acc)
    case (Cons x xs)
    then have "0 \<le> sum_list xs" by (simp add: sum_list_nonneg_int)
    with Cons show ?case by (auto simp: in_i64_def)
  qed simp
  from this [of 0] show ?thesis by (simp add: sql_sum_def)
qed

lemma i64_try_from_Inr: "i64_try_from x = Inr v \<longleftrightarrow> unat x < 2 ^ 63 \<and> v = int (unat x)"
  by (auto simp: i64_try_from_def)

lemma unat_word_of_int: "0 \<le> v \<Longrightarrow> v < 2 ^ 64 \<Longrightarrow> unat (word_of_int v :: u64) = nat v"
  by (simp add: unsigned_of_int take_bit_int_eq_self nat_eq_iff)

lemma unat_clamp_u64: "v < 2 ^ 64 \<Longrightarrow> unat (clamp_u64 v) = nat v"
  by (simp add: clamp_u64_def unat_word_of_int max_def)

lemma sint_small: "unat x < 2 ^ 63 \<Longrightarrow> sint (x :: u64) = int (unat x)"
proof -
  assume "unat x < 2 ^ 63"
  then have "uint x < 2 ^ 63" 
    by (metis int_nat_eq of_nat_numeral of_nat_power_less_of_nat_cancel_iff uint_nat
        unat_eq_nat_uint)
  then have "signed_take_bit 63 (uint x) = uint x"
    by (intro signed_take_bit_int_eq_self) (auto intro: order_trans [OF _ uint_ge_0])
  then show ?thesis by (simp add: sint_uint)
qed

lemma sint_small_uint: "uint x < 2 ^ 63 \<Longrightarrow> sint (x :: u64) = int (unat x)"
  by (rule sint_small) (metis of_nat_less_iff of_nat_numeral of_nat_power uint_nat)

lemma sint_word_of_int: "0 \<le> v \<Longrightarrow> v < 2 ^ 63 \<Longrightarrow> sint (word_of_int v :: u64) = v"
  using sint_small [of "word_of_int v"] unat_word_of_int [of v] by simp

lemma uint_word_of_int_eq: "0 \<le> v \<Longrightarrow> v < 2 ^ 64 \<Longrightarrow> uint (word_of_int v :: u64) = v"
  by (simp add: unsigned_of_int take_bit_int_eq_self)

lemma nat_add_int: "0 \<le> x \<Longrightarrow> nat (x + int n) = nat x + n"
  by (simp add: nat_add_distrib)

lemma nat_diff_int: "int n \<le> x \<Longrightarrow> nat (x - int n) + n = nat x"
  by linarith

lemma bind_resE:
  assumes "bind_res r f = Inr y"
  obtains v where "r = Inr v" and "f v = Inr y"
  using assms by (cases r) simp_all

section \<open>Statements and transactions\<close>

datatype engine_result = Done | Failed | Unconfirmed

text \<open>A name for every statement the ledger runs.\<close>

datatype stmt =
    BeginTransaction | Commit
  | UpsertLimit | SelectWindow | SelectPolicy | SelectLimit | ListBudgets
  | ReclaimScope | SelectBudget | SumActual | SumCeiling | InsertReservation
  | SelectTracked | SettleReservation | ReplaceLimit | ReplaceReservation
  | SelectDedup | DeleteDedup | UpsertDedup | ReclaimLeases | ReclaimDedup
  | SelectBinding | SelectRetained | SelectObservation | SelectReservation | SelectReceipt
  | SettleWithReceipt | InsertReceipt | CountIntents | InsertIntent | InsertFence
  | InsertCorrelation | SelectIntent | SelectCorrelation | InsertObservation
  | SelectFence | SelectFenced | SelectExpiry | UpdateFence | CloseReservation
  | SelectPending | ClaimReceipt | AcknowledgeReceipt
  | SelectOrphans | SelectThrough | SelectPage | SelectScopes
  | OpenDatabase | SelectMaster | SelectLegacyOutbox | SelectLegacyIntents | SelectLegacyLimits
  | SelectLegacyReservations | DeleteLegacyReservations | DeleteLegacyLimits

type_synonym engine = "stmt \<Rightarrow> engine_result"

abbreviation all_done :: engine where
  "all_done \<equiv> \<lambda>_. Done"

definition statement :: "engine \<Rightarrow> stmt \<Rightarrow> sql_error + unit" where
  "statement E q = (if E q = Done then Inr () else Inl EngineFailure)"

lemma statement_done [simp]: "statement all_done q = Inr ()"
  by (simp add: statement_def)

lemma statement_Inr: "statement E q = Inr u \<longleftrightarrow> E q = Done"
  by (simp add: statement_def)

text \<open>One statement outside a transaction, with the state and the value it produces.\<close>

definition autocommit :: "engine \<Rightarrow> stmt \<Rightarrow> 's \<Rightarrow> 's \<Rightarrow> 'a \<Rightarrow> (sql_error + 'a) \<times> 's" where
  "autocommit E q s s' v =
     (case E q of
        Done \<Rightarrow> (Inr v, s')
      | Failed \<Rightarrow> (Inl EngineFailure, s)
      | Unconfirmed \<Rightarrow> (Inl EngineFailure, s'))"

text \<open>
  A transaction around \<open>body\<close>: the body returns a value with the state to commit, or with None
  when it lets the transaction drop; an error drops it. \<open>storage\<close> wraps the engine's errors.
\<close>

definition transaction ::
  "engine \<Rightarrow> (sql_error \<Rightarrow> 'e) \<Rightarrow> ('s \<Rightarrow> 'e + 'a \<times> 's option) \<Rightarrow> 's \<Rightarrow> ('e + 'a) \<times> 's" where
  "transaction E storage body s =
     (if E BeginTransaction \<noteq> Done then (Inl (storage EngineFailure), s)
      else
        (case body s of
           Inl e \<Rightarrow> (Inl e, s)
         | Inr (v, None) \<Rightarrow> (Inr v, s)
         | Inr (v, Some s') \<Rightarrow>
             (case E Commit of
                Done \<Rightarrow> (Inr v, s')
              | Failed \<Rightarrow> (Inl (storage EngineFailure), s)
              | Unconfirmed \<Rightarrow> (Inl (storage EngineFailure), s'))))"

text \<open>The engine's failures are definite: what is reported as failed has not happened.\<close>

definition definite :: "engine \<Rightarrow> bool" where
  "definite E \<longleftrightarrow> (\<forall>q. E q \<noteq> Unconfirmed)"

lemma definite_all_done [simp]: "definite all_done"
  by (simp add: definite_def)

lemma autocommit_done [simp]: "autocommit all_done q s s' v = (Inr v, s')"
  by (simp add: autocommit_def)

lemma autocommit_state: "snd (autocommit E q s s' v) \<in> {s, s'}"
  by (simp add: autocommit_def split: engine_result.split)

lemma autocommit_Inr: "autocommit E q s s' v = (Inr w, t) \<Longrightarrow> w = v \<and> t = s'"
  by (auto simp: autocommit_def split: engine_result.splits)

lemma autocommit_Inl: "definite E \<Longrightarrow> autocommit E q s s' v = (Inl e, t) \<Longrightarrow> t = s"
  by (auto simp: autocommit_def definite_def split: engine_result.splits)

lemma transaction_done:
  "transaction all_done storage body s =
     (case body s of
        Inl e \<Rightarrow> (Inl e, s) | Inr (v, None) \<Rightarrow> (Inr v, s) | Inr (v, Some s') \<Rightarrow> (Inr v, s'))"
  by (simp add: transaction_def split: sum.split prod.split option.split)

lemma transaction_Inr:
  assumes "transaction E storage body s = (Inr v, t)"
  obtains (Committed) "body s = Inr (v, Some t)" | (Dropped) "body s = Inr (v, None)" "t = s"
  using assms
  by (auto simp: transaction_def split: if_splits sum.splits prod.splits option.splits
      engine_result.splits)

lemma transaction_Inl: "definite E \<Longrightarrow> transaction E storage body s = (Inl e, t) \<Longrightarrow> t = s"
  by (auto simp: transaction_def definite_def split: if_splits sum.splits prod.splits
      option.splits engine_result.splits)

lemma transaction_state:
  assumes "transaction E storage body s = (r, t)"
  obtains (Same) "t = s" | (Changed) v where "body s = Inr (v, Some t)"
  using assms
  by (auto simp: transaction_def split: if_splits sum.splits prod.splits option.splits
      engine_result.splits)

lemma transaction_inv:
  assumes "P s" and "\<And>v t. body s = Inr (v, Some t) \<Longrightarrow> P t"
  shows "P (snd (transaction E storage body s))"
  using assms
  by (auto simp: transaction_def split: sum.split prod.split option.split engine_result.split)

section \<open>Time\<close>

text \<open>
  Instants count nanoseconds from the Unix epoch. Reading the day and the month of an instant,
  and the range of the representable dates, belong to the \<^verbatim>\<open>time\<close> crate.
\<close>

definition unix_timestamp :: "instant \<Rightarrow> int" where
  "unix_timestamp now = now div 1000000000"

record calendar =
  replace_time_midnight :: "instant \<Rightarrow> instant"
  replace_day_1 :: "instant \<Rightarrow> instant option"
  checked_add_time :: "instant \<Rightarrow> duration \<Rightarrow> instant option"
  from_unix_timestamp :: "int \<Rightarrow> instant option"

lemma unix_timestamp_mono: "a \<le> b \<Longrightarrow> unix_timestamp a \<le> unix_timestamp b"
  by (simp add: unix_timestamp_def zdiv_mono1)

end
