(* ===== verification/Store_Ledger.thy ===== *)
theory Store_Ledger
  imports Sql_Engine Budget Lease_Interface
begin

text \<open>
  \<^verbatim>\<open>crates/sandhi-store/src/ledger.rs\<close>: the durable enforcement ledger on SQLite. Its
  tables are association lists by primary key, its integer columns are \<^typ>\<open>int\<close>, and every
  statement goes through the engine of \<open>Sql_Engine\<close>. The tables of the evidence module
  (\<^verbatim>\<open>ledger/evidence.rs\<close>) are part of the same database and declared here, because
  admission and reclamation read them. The ledger interprets the contract \<open>lease_ledger\<close>.
\<close>

section \<open>Tables\<close>

record limit_row =
  lr_limit_tokens :: "int option"
  lr_window :: string
  lr_policy :: string

record reservation_row =
  rr_scope :: string
  rr_ceiling :: int
  rr_actual :: int
  rr_settled :: int
  rr_settled_at :: "int option"
  rr_expires_at :: int

record dedup_row =
  dd_reservation :: int
  dd_actual :: int
  dd_seen_at :: int
  dd_expires_at :: int

record intent_row =
  in_reservation_id :: int
  in_created_at :: int

record fence_row =
  f_phase :: int
  f_transitioned_at :: "int option"

record outbox_row =
  ob_reservation_id :: int
  ob_scope :: string
  ob_charged_tokens :: int
  ob_settled_at :: int
  ob_claim_token :: "string option"
  ob_claim_until :: "int option"
  ob_acknowledged_at :: "int option"

record observation_row =
  to_version :: int
  to_usage_json :: string
  to_frozen_charge :: "int option"
  to_observed_at :: int

text \<open>
  \<open>sl_sequence\<close> is the largest id the \<^verbatim>\<open>AUTOINCREMENT\<close> column has ever held.
\<close>

record sqlite_ledger =
  sl_path :: "string option"
  sl_limits :: "(string \<times> limit_row) list"
  sl_reservations :: "(int \<times> reservation_row) list"
  sl_sequence :: int
  sl_dedup :: "((string \<times> string) \<times> dedup_row) list"
  sl_intents :: "(string \<times> intent_row) list"
  sl_correlations :: "(string \<times> string) list"
  sl_fences :: "(string \<times> fence_row) list"
  sl_outbox :: "(string \<times> outbox_row) list"
  sl_observations :: "(string \<times> observation_row) list"

definition sqlite_open :: "string option \<Rightarrow> sqlite_ledger" where
  "sqlite_open path =
     \<lparr>sl_path = path, sl_limits = [], sl_reservations = [], sl_sequence = 0, sl_dedup = [],
      sl_intents = [], sl_correlations = [], sl_fences = [], sl_outbox = [], sl_observations = []\<rparr>"

definition is_file_backed :: "sqlite_ledger \<Rightarrow> bool" where
  "is_file_backed L = is_some_and (sl_path L) (\<lambda>path. path \<noteq> [])"

datatype reserve_outcome = Admitted reservation | Denied denied

record budget_row =
  br_scope :: string
  br_limit :: "u64 option"
  br_window :: window
  br_policy :: policy

section \<open>Limits\<close>

fun window_start_ts :: "calendar \<Rightarrow> instant \<Rightarrow> window \<Rightarrow> int" where
  "window_start_ts K now Total = 0"
| "window_start_ts K now Daily = unix_timestamp (replace_time_midnight K now)"
| "window_start_ts K now Monthly =
     unix_timestamp (replace_time_midnight K (unwrap_or (replace_day_1 K now) now))"

definition set_limit_durable ::
  "engine \<Rightarrow> sqlite_ledger \<Rightarrow> string \<Rightarrow> u64 option \<Rightarrow> window \<Rightarrow> policy \<Rightarrow>
     (sql_error + unit) \<times> sqlite_ledger" where
  "set_limit_durable E L scope limit window policy =
     (case (case limit of None \<Rightarrow> Inr None | Some v \<Rightarrow> map_sum (\<lambda>e. e) Some (i64_try_from v)) of
        Inl e \<Rightarrow> (Inl e, L)
      | Inr limit \<Rightarrow>
          autocommit E UpsertLimit L
            (L\<lparr>sl_limits := AList.update scope
                 \<lparr>lr_limit_tokens = limit, lr_window = window_as_str window,
                  lr_policy = policy_as_str policy\<rparr> (sl_limits L)\<rparr>) ())"

definition window_of_durable :: "engine \<Rightarrow> sqlite_ledger \<Rightarrow> string \<Rightarrow> sql_error + window" where
  "window_of_durable E L scope =
     bind_res (statement E SelectWindow) (\<lambda>_.
     Inr (case map_of (sl_limits L) scope of
            Some row \<Rightarrow> window_parse (lr_window row) | None \<Rightarrow> window_default))"

definition policy_of_durable :: "engine \<Rightarrow> sqlite_ledger \<Rightarrow> string \<Rightarrow> sql_error + policy" where
  "policy_of_durable E L scope =
     bind_res (statement E SelectPolicy) (\<lambda>_.
     Inr (case map_of (sl_limits L) scope of
            Some row \<Rightarrow> policy_parse (lr_policy row) | None \<Rightarrow> policy_default))"

definition limit_durable :: "engine \<Rightarrow> sqlite_ledger \<Rightarrow> string \<Rightarrow> sql_error + u64 option" where
  "limit_durable E L scope =
     bind_res (statement E SelectLimit) (\<lambda>_.
     Inr (map_option clamp_u64 (Option.bind (map_of (sl_limits L) scope) lr_limit_tokens)))"

definition list_budgets_durable :: "engine \<Rightarrow> sqlite_ledger \<Rightarrow> sql_error + budget_row list" where
  "list_budgets_durable E L =
     bind_res (statement E ListBudgets) (\<lambda>_.
     Inr (map (\<lambda>(scope, row).
                 \<lparr>br_scope = scope, br_limit = map_option clamp_u64 (lr_limit_tokens row),
                  br_window = window_parse (lr_window row),
                  br_policy = policy_parse (lr_policy row)\<rparr>)
            (sort_key fst (sl_limits L))))"

section \<open>Reading spend and holds\<close>

definition settled_actuals :: "sqlite_ledger \<Rightarrow> string \<Rightarrow> int \<Rightarrow> int list" where
  "settled_actuals L scope start =
     map (\<lambda>(_, r). rr_actual r)
       (filter (\<lambda>(_, r). rr_scope r = scope \<and> rr_settled r = 1 \<and>
                  start \<le> unwrap_or (rr_settled_at r) 0) (sl_reservations L))"

definition held_ceilings :: "sqlite_ledger \<Rightarrow> string \<Rightarrow> int list" where
  "held_ceilings L scope =
     map (\<lambda>(_, r). rr_ceiling r)
       (filter (\<lambda>(_, r). rr_scope r = scope \<and> rr_settled r = 0) (sl_reservations L))"

definition select_spent :: "engine \<Rightarrow> sqlite_ledger \<Rightarrow> string \<Rightarrow> int \<Rightarrow> sql_error + int" where
  "select_spent E L scope start =
     bind_res (statement E SumActual) (\<lambda>_. sql_sum (settled_actuals L scope start))"

definition select_reserved :: "engine \<Rightarrow> sqlite_ledger \<Rightarrow> string \<Rightarrow> sql_error + int" where
  "select_reserved E L scope =
     bind_res (statement E SumCeiling) (\<lambda>_. sql_sum (held_ceilings L scope))"

definition spent_durable ::
  "calendar \<Rightarrow> engine \<Rightarrow> instant \<Rightarrow> sqlite_ledger \<Rightarrow> string \<Rightarrow> sql_error + u64" where
  "spent_durable K E now_utc L scope =
     bind_res (window_of_durable E L scope) (\<lambda>window.
     bind_res (select_spent E L scope (window_start_ts K now_utc window)) (\<lambda>spent.
     Inr (clamp_u64 spent)))"

definition reserved_durable :: "engine \<Rightarrow> sqlite_ledger \<Rightarrow> string \<Rightarrow> sql_error + u64" where
  "reserved_durable E L scope =
     bind_res (select_reserved E L scope) (\<lambda>reserved. Inr (clamp_u64 reserved))"

section \<open>Admission\<close>

definition is_tracked :: "sqlite_ledger \<Rightarrow> int \<Rightarrow> bool" where
  "is_tracked L i \<longleftrightarrow> (\<exists>(_, intent) \<in> set (sl_intents L). in_reservation_id intent = i)"

text \<open>An unsettled lease past its expiry that no execution intent keeps.\<close>

definition reclaimable :: "sqlite_ledger \<Rightarrow> int \<Rightarrow> int \<times> reservation_row \<Rightarrow> bool" where
  "reclaimable L now_ts = (\<lambda>(i, r).
     rr_settled r = 0 \<and> rr_expires_at r \<le> now_ts \<and> \<not> is_tracked L i)"

definition reclaim_scope :: "sqlite_ledger \<Rightarrow> string \<Rightarrow> int \<Rightarrow> sqlite_ledger" where
  "reclaim_scope L scope now_ts =
     L\<lparr>sl_reservations :=
         filter (\<lambda>p. \<not> (rr_scope (snd p) = scope \<and> reclaimable L now_ts p)) (sl_reservations L)\<rparr>"

text \<open>The check against the scope's cap, None when the ceiling is admitted.\<close>

definition cap_breach ::
  "calendar \<Rightarrow> engine \<Rightarrow> sqlite_ledger \<Rightarrow> string \<Rightarrow> u64 \<Rightarrow> instant \<Rightarrow> sql_error + denied option" where
  "cap_breach K E L scope ceil now =
     (case map_of (sl_limits L) scope of
        None \<Rightarrow> Inr None
      | Some row \<Rightarrow>
          (case lr_limit_tokens row of
             None \<Rightarrow> Inr None
           | Some limit \<Rightarrow>
               bind_res (select_spent E L scope
                   (window_start_ts K now (window_parse (lr_window row)))) (\<lambda>spent.
               bind_res (select_reserved E L scope) (\<lambda>reserved.
               if policy_parse (lr_policy row) = Block \<and> spent + reserved + uint ceil > limit
               then Inr (Some \<lparr>d_scope = scope, d_limit = clamp_u64 limit,
                               d_spent = clamp_u64 spent, d_reserved = clamp_u64 reserved,
                               d_requested_ceiling = ceil\<rparr>)
               else Inr None))))"

definition insert_reservation ::
  "engine \<Rightarrow> sqlite_ledger \<Rightarrow> string \<Rightarrow> int \<Rightarrow> int \<Rightarrow> sql_error + int \<times> sqlite_ledger" where
  "insert_reservation E L scope ceil expires_at =
     bind_res (statement E InsertReservation) (\<lambda>_.
     let rowid = sl_sequence L + 1 in
     if rowid < 2 ^ 63
     then Inr (rowid, L\<lparr>sl_sequence := rowid,
                 sl_reservations := sl_reservations L @
                   [(rowid, \<lparr>rr_scope = scope, rr_ceiling = ceil, rr_actual = 0, rr_settled = 0,
                             rr_settled_at = None, rr_expires_at = expires_at\<rparr>)]\<rparr>)
     else Inl DatabaseFull)"

definition reserve_in_transaction ::
  "calendar \<Rightarrow> engine \<Rightarrow> sqlite_ledger \<Rightarrow> string \<Rightarrow> u64 \<Rightarrow> instant \<Rightarrow> duration \<Rightarrow>
     sql_error + reserve_outcome \<times> sqlite_ledger" where
  "reserve_in_transaction K E L scope ceil now ttl =
     bind_res (i64_try_from ceil) (\<lambda>checked_ceiling.
     let now_ts = unix_timestamp now;
         expires_at = unix_timestamp (now + ttl) in
     bind_res (statement E ReclaimScope) (\<lambda>_.
     let L = reclaim_scope L scope now_ts in
     bind_res (statement E SelectBudget) (\<lambda>_.
     bind_res (cap_breach K E L scope ceil now) (\<lambda>breach.
     case breach of
       Some d \<Rightarrow> Inr (Denied d, L)
     | None \<Rightarrow>
         bind_res (insert_reservation E L scope checked_ceiling expires_at) (\<lambda>(rowid, L).
         Inr (Admitted \<lparr>r_id = word_of_int rowid, r_scope = scope, r_ceiling = ceil,
                        r_expires_at = now + ttl\<rparr>, L))))))"

definition reserve_durable ::
  "calendar \<Rightarrow> engine \<Rightarrow> sqlite_ledger \<Rightarrow> string \<Rightarrow> u64 \<Rightarrow> instant \<Rightarrow> duration \<Rightarrow>
     (sql_error + reserve_outcome) \<times> sqlite_ledger" where
  "reserve_durable K E L scope ceil now ttl =
     transaction E (\<lambda>e. e)
       (\<lambda>L. map_sum (\<lambda>e. e)
          (\<lambda>(outcome, L'). (outcome, case outcome of Admitted _ \<Rightarrow> Some L' | Denied _ \<Rightarrow> None))
          (reserve_in_transaction K E L scope ceil now ttl)) L"

section \<open>Settlement and reclamation\<close>

text \<open>\<open>clock\<close> is the engine's \<^verbatim>\<open>strftime('%s','now')\<close>.\<close>

definition settle_row :: "sqlite_ledger \<Rightarrow> int \<Rightarrow> int \<Rightarrow> int \<Rightarrow> sqlite_ledger" where
  "settle_row L i actual settled_at =
     L\<lparr>sl_reservations :=
         map (\<lambda>(j, r).
           if j = i \<and> rr_settled r = 0
           then (j, r\<lparr>rr_actual := actual, rr_settled := 1, rr_settled_at := Some settled_at\<rparr>)
           else (j, r)) (sl_reservations L)\<rparr>"

definition settle_durable ::
  "engine \<Rightarrow> int \<Rightarrow> sqlite_ledger \<Rightarrow> u64 \<Rightarrow> u64 \<Rightarrow> (sql_error + unit) \<times> sqlite_ledger" where
  "settle_durable E clock L reservation_id actual =
     transaction E (\<lambda>e. e)
       (\<lambda>L. bind_res (statement E SelectTracked) (\<lambda>_.
            if is_tracked L (sint reservation_id) then Inl ConstraintViolation
            else
              bind_res (statement E SettleReservation) (\<lambda>_.
              Inr ((), Some (settle_row L (sint reservation_id) (sint actual) clock))))) L"

text \<open>
  Two statements outside a transaction: the first deletes the expired leases, the second the
  expired deduplication rows; the result counts both.
\<close>

definition reclaim_expired_durable ::
  "engine \<Rightarrow> sqlite_ledger \<Rightarrow> instant \<Rightarrow> (sql_error + nat) \<times> sqlite_ledger" where
  "reclaim_expired_durable E L now =
     (let now_ts = unix_timestamp now;
          gone = filter (reclaimable L now_ts) (sl_reservations L);
          old = filter (\<lambda>(_, d). dd_expires_at d \<le> now_ts) (sl_dedup L);
          L1 = L\<lparr>sl_reservations := filter (\<lambda>p. \<not> reclaimable L now_ts p) (sl_reservations L)\<rparr>;
          L2 = L1\<lparr>sl_dedup := filter (\<lambda>(_, d). \<not> dd_expires_at d \<le> now_ts) (sl_dedup L)\<rparr>
      in case autocommit E ReclaimLeases L L1 (length gone) of
           (Inl e, L) \<Rightarrow> (Inl e, L)
         | (Inr n, L) \<Rightarrow>
             (case autocommit E ReclaimDedup L L2 (length old) of
                (Inl e, L) \<Rightarrow> (Inl e, L)
              | (Inr d, L) \<Rightarrow> (Inr (n + d), L)))"

section \<open>Deduplication of logical calls\<close>

definition seen_durable ::
  "engine \<Rightarrow> sqlite_ledger \<Rightarrow> string \<Rightarrow> string \<Rightarrow> instant \<Rightarrow>
     (sql_error + (u64 \<times> u64) option) \<times> sqlite_ledger" where
  "seen_durable E L vkey idem_key now =
     (case statement E SelectDedup of
        Inl e \<Rightarrow> (Inl e, L)
      | Inr _ \<Rightarrow>
          (case map_of (sl_dedup L) (vkey, idem_key) of
             None \<Rightarrow> (Inr None, L)
           | Some d \<Rightarrow>
               if dd_expires_at d \<le> unix_timestamp now
               then autocommit E DeleteDedup L
                      (L\<lparr>sl_dedup := AList.delete (vkey, idem_key) (sl_dedup L)\<rparr>) None
               else (Inr (Some (clamp_u64 (dd_reservation d), clamp_u64 (dd_actual d))), L)))"

definition record_durable ::
  "engine \<Rightarrow> sqlite_ledger \<Rightarrow> string \<Rightarrow> string \<Rightarrow> u64 \<Rightarrow> u64 \<Rightarrow> instant \<Rightarrow> duration \<Rightarrow>
     (sql_error + unit) \<times> sqlite_ledger" where
  "record_durable E L vkey idem_key reservation actual now ttl =
     autocommit E UpsertDedup L
       (L\<lparr>sl_dedup := AList.update (vkey, idem_key)
            \<lparr>dd_reservation = sint reservation, dd_actual = sint actual,
             dd_seen_at = unix_timestamp now, dd_expires_at = unix_timestamp (now + ttl)\<rparr>
            (sl_dedup L)\<rparr>) ()"

section \<open>Rows moved by a migration\<close>

definition insert_migrated_limit ::
  "engine \<Rightarrow> sqlite_ledger \<Rightarrow> string \<Rightarrow> limit_row \<Rightarrow> (sql_error + unit) \<times> sqlite_ledger" where
  "insert_migrated_limit E L scope row =
     autocommit E ReplaceLimit L (L\<lparr>sl_limits := AList.update scope row (sl_limits L)\<rparr>) ()"

definition insert_migrated_reservation ::
  "engine \<Rightarrow> sqlite_ledger \<Rightarrow> int \<Rightarrow> reservation_row \<Rightarrow> (sql_error + unit) \<times> sqlite_ledger" where
  "insert_migrated_reservation E L i row =
     autocommit E ReplaceReservation L
       (L\<lparr>sl_reservations := AList.update i row (sl_reservations L),
          sl_sequence := max (sl_sequence L) i\<rparr>) ()"

section \<open>The ledger traits\<close>

text \<open>
  \<^verbatim>\<open>LedgerView\<close> and \<^verbatim>\<open>EnforcementLedger\<close>: an error of the backend reads as empty and
  denies.
\<close>

definition sq_limit :: "engine \<Rightarrow> sqlite_ledger \<Rightarrow> string \<Rightarrow> u64 option" where
  "sq_limit E L scope = (case limit_durable E L scope of Inr limit \<Rightarrow> limit | Inl _ \<Rightarrow> None)"

definition sq_spent :: "calendar \<Rightarrow> engine \<Rightarrow> instant \<Rightarrow> sqlite_ledger \<Rightarrow> string \<Rightarrow> u64" where
  "sq_spent K E now_utc L scope =
     (case spent_durable K E now_utc L scope of Inr spent \<Rightarrow> spent | Inl _ \<Rightarrow> 0)"

definition sq_reserved :: "engine \<Rightarrow> sqlite_ledger \<Rightarrow> string \<Rightarrow> u64" where
  "sq_reserved E L scope =
     (case reserved_durable E L scope of Inr reserved \<Rightarrow> reserved | Inl _ \<Rightarrow> 0)"

definition sq_set_limit :: "engine \<Rightarrow> sqlite_ledger \<Rightarrow> string \<Rightarrow> u64 option \<Rightarrow> sqlite_ledger" where
  "sq_set_limit E L scope limit = snd (set_limit_durable E L scope limit Total Block)"

definition sq_reserve :: "calendar \<Rightarrow> engine \<Rightarrow> sqlite_ledger reserve_fn" where
  "sq_reserve K E L scope ceil now ttl =
     (case reserve_durable K E L scope ceil now ttl of
        (Inr (Admitted reservation), L) \<Rightarrow> (Inr reservation, L)
      | (Inr (Denied denied), L) \<Rightarrow> (Inl denied, L)
      | (Inl _, L) \<Rightarrow>
          (Inl \<lparr>d_scope = scope, d_limit = 0, d_spent = 0, d_reserved = 0,
                d_requested_ceiling = ceil\<rparr>, L))"

definition sq_settle :: "engine \<Rightarrow> int \<Rightarrow> sqlite_ledger settle_fn" where
  "sq_settle E clock L reservation_id actual =
     snd (settle_durable E clock L reservation_id actual)"

definition sq_reclaim_expired :: "engine \<Rightarrow> sqlite_ledger reclaim_fn" where
  "sq_reclaim_expired E L now =
     (case reclaim_expired_durable E L now of (Inr n, L) \<Rightarrow> (n, L) | (Inl _, L) \<Rightarrow> (0, L))"

section \<open>What the tables hold\<close>

definition settled_total :: "sqlite_ledger \<Rightarrow> string \<Rightarrow> int \<Rightarrow> int" where
  "settled_total L scope start = sum_list (settled_actuals L scope start)"

definition held_total :: "sqlite_ledger \<Rightarrow> string \<Rightarrow> int" where
  "held_total L scope = sum_list (held_ceilings L scope)"

definition row_ok :: "reservation_row \<Rightarrow> bool" where
  "row_ok r \<longleftrightarrow>
     0 \<le> rr_ceiling r \<and> 0 \<le> rr_actual r \<and> (rr_settled r = 0 \<or> rr_settled r = 1) \<and>
     0 \<le> unwrap_or (rr_settled_at r) 0"

definition rows_inv :: "sqlite_ledger \<Rightarrow> bool" where
  "rows_inv L \<longleftrightarrow>
     distinct (map fst (sl_reservations L)) \<and>
     (\<forall>(i, r) \<in> set (sl_reservations L). 1 \<le> i \<and> i \<le> sl_sequence L \<and> row_ok r) \<and>
     (\<forall>(x, t) \<in> set (sl_intents L). in_reservation_id t \<le> sl_sequence L) \<and>
     0 \<le> sl_sequence L \<and> sl_sequence L < 2 ^ 63"

lemma sum_list_filter_if:
  "sum_list (map f (filter P xs)) = sum_list (map (\<lambda>x. if P x then f x else 0) xs)"
  for f :: "'a \<Rightarrow> int"
  by (induction xs) auto

lemma settled_total_eq:
  "settled_total L s t =
     (\<Sum>(i, r) \<leftarrow> sl_reservations L.
        if rr_scope r = s \<and> rr_settled r = 1 \<and> t \<le> unwrap_or (rr_settled_at r) 0
        then rr_actual r else 0)"
  by (simp add: settled_total_def settled_actuals_def sum_list_filter_if split_def)

lemma held_total_eq:
  "held_total L s =
     (\<Sum>(i, r) \<leftarrow> sl_reservations L.
        if rr_scope r = s \<and> rr_settled r = 0 then rr_ceiling r else 0)"
  by (simp add: held_total_def held_ceilings_def sum_list_filter_if split_def)

lemma rows_nonneg:
  assumes "rows_inv L"
  shows "\<forall>x \<in> set (settled_actuals L s t). 0 \<le> x" and "\<forall>x \<in> set (held_ceilings L s). 0 \<le> x"
  using assms by (auto simp: rows_inv_def row_ok_def settled_actuals_def held_ceilings_def)

lemma totals_nonneg: "rows_inv L \<Longrightarrow> 0 \<le> settled_total L s t" "rows_inv L \<Longrightarrow> 0 \<le> held_total L s"
  by (simp_all add: settled_total_def held_total_def rows_nonneg sum_list_nonneg_int)

lemma settled_total_start:
  "rows_inv L \<Longrightarrow> settled_total L s t \<le> settled_total L s 0"
  unfolding settled_total_eq
  by (rule sum_list_mono) (auto simp: rows_inv_def row_ok_def split: if_splits)

text \<open>Replacing the row of one id.\<close>

lemma sum_list_update_row:
  fixes f :: "'k \<times> 'v \<Rightarrow> int"
  assumes "distinct (map fst xs)" and "(i, r) \<in> set xs" and "P r"
  shows "sum_list (map f (map (\<lambda>(j, q). if j = i \<and> P q then (j, u q) else (j, q)) xs)) =
    sum_list (map f xs) - f (i, r) + f (i, u r)"
  using assms
proof (induction xs)
  case (Cons p xs)
  obtain j q where p: "p = (j, q)" by (cases p)
  show ?case
  proof (cases "j = i")
    case True
    with Cons.prems p have "q = r" by (force simp: image_iff)
    moreover have "map (\<lambda>(j, q). if j = i \<and> P q then (j, u q) else (j, q)) xs = xs"
      using Cons.prems p True by (intro map_idI) (auto simp: image_iff)
    ultimately show ?thesis using True Cons.prems p by simp
  next
    case False
    with Cons p show ?thesis by simp
  qed
qed simp

section \<open>Reclaiming within a scope\<close>

lemma reclaim_scope_simps [simp]:
  "sl_limits (reclaim_scope L s t) = sl_limits L" "sl_sequence (reclaim_scope L s t) = sl_sequence L"
  "sl_intents (reclaim_scope L s t) = sl_intents L" "sl_path (reclaim_scope L s t) = sl_path L"
  "sl_dedup (reclaim_scope L s t) = sl_dedup L" "sl_outbox (reclaim_scope L s t) = sl_outbox L"
  "sl_fences (reclaim_scope L s t) = sl_fences L"
  "sl_correlations (reclaim_scope L s t) = sl_correlations L"
  "sl_observations (reclaim_scope L s t) = sl_observations L"
  by (simp_all add: reclaim_scope_def)

lemma distinct_fst_filter: "distinct (map fst xs) \<Longrightarrow> distinct (map fst (filter P xs))"
  by (induction xs) auto

lemma rows_inv_filter:
  "rows_inv L \<Longrightarrow> rows_inv (L\<lparr>sl_reservations := filter P (sl_reservations L)\<rparr>)"
  by (auto simp: rows_inv_def distinct_fst_filter)

lemma sum_list_filter_zero:
  "\<forall>x \<in> set xs. \<not> P x \<longrightarrow> f x = 0 \<Longrightarrow> sum_list (map f (filter P xs)) = sum_list (map f xs)"
  for f :: "'a \<Rightarrow> int"
  by (induction xs) auto

lemma settled_total_filter:
  assumes "\<forall>(i, r) \<in> set (sl_reservations L). \<not> P (i, r) \<longrightarrow> rr_settled r \<noteq> 1"
  shows "settled_total (L\<lparr>sl_reservations := filter P (sl_reservations L)\<rparr>) s t = settled_total L s t"
  unfolding settled_total_eq
  using assms by (simp, intro sum_list_filter_zero) auto

lemma held_total_filter:
  assumes "rows_inv L"
  shows "held_total (L\<lparr>sl_reservations := filter P (sl_reservations L)\<rparr>) s \<le> held_total L s"
proof -
  have "(\<Sum>p \<leftarrow> filter P xs. case p of (i, r) \<Rightarrow>
            if rr_scope r = s \<and> rr_settled r = 0 then rr_ceiling r else 0)
      \<le> (\<Sum>p \<leftarrow> xs. case p of (i, r) \<Rightarrow>
            if rr_scope r = s \<and> rr_settled r = 0 then rr_ceiling r else 0)"
    if "\<forall>(i, r) \<in> set xs. 0 \<le> rr_ceiling r" for xs :: "(int \<times> reservation_row) list"
    using that by (induction xs) (auto split: if_splits)
  moreover have "\<forall>(i, r) \<in> set (sl_reservations L). 0 \<le> rr_ceiling r"
    using assms by (auto simp: rows_inv_def row_ok_def)
  ultimately show ?thesis by (simp add: held_total_eq)
qed

lemma reclaimable_unsettled: "reclaimable L t (i, r) \<Longrightarrow> rr_settled r = 0"
  by (simp add: reclaimable_def)

lemma settled_total_reclaim [simp]: "settled_total (reclaim_scope L s t) s' t' = settled_total L s' t'"
  unfolding reclaim_scope_def
  by (rule settled_total_filter) (auto dest: reclaimable_unsettled)

lemma held_total_reclaim_le: "rows_inv L \<Longrightarrow> held_total (reclaim_scope L s t) s' \<le> held_total L s'"
  unfolding reclaim_scope_def by (rule held_total_filter)

lemma held_total_reclaim_other: "s' \<noteq> s \<Longrightarrow> held_total (reclaim_scope L s t) s' = held_total L s'"
  unfolding held_total_eq reclaim_scope_def by (simp, intro sum_list_filter_zero) auto

lemma rows_inv_reclaim: "rows_inv L \<Longrightarrow> rows_inv (reclaim_scope L s t)"
  unfolding reclaim_scope_def by (rule rows_inv_filter)

section \<open>Admission\<close>

definition new_lease :: "sqlite_ledger \<Rightarrow> string \<Rightarrow> int \<Rightarrow> int \<Rightarrow> sqlite_ledger" where
  "new_lease L scope ceil expires_at =
     L\<lparr>sl_sequence := sl_sequence L + 1,
       sl_reservations := sl_reservations L @
         [(sl_sequence L + 1,
           \<lparr>rr_scope = scope, rr_ceiling = ceil, rr_actual = 0, rr_settled = 0,
            rr_settled_at = None, rr_expires_at = expires_at\<rparr>)]\<rparr>"

lemma new_lease_simps [simp]:
  "sl_limits (new_lease L s c x) = sl_limits L" "sl_sequence (new_lease L s c x) = sl_sequence L + 1"
  "sl_intents (new_lease L s c x) = sl_intents L" "sl_path (new_lease L s c x) = sl_path L"
  "sl_dedup (new_lease L s c x) = sl_dedup L" "sl_outbox (new_lease L s c x) = sl_outbox L"
  "sl_fences (new_lease L s c x) = sl_fences L"
  "sl_correlations (new_lease L s c x) = sl_correlations L"
  "sl_observations (new_lease L s c x) = sl_observations L"
  by (simp_all add: new_lease_def)

lemma settled_total_new_lease [simp]: "settled_total (new_lease L s c x) s' t = settled_total L s' t"
  by (simp add: settled_total_eq new_lease_def)

lemma held_total_new_lease:
  "held_total (new_lease L s c x) s' = held_total L s' + (if s' = s then c else 0)"
  by (simp add: held_total_eq new_lease_def)

lemma rows_inv_new_lease:
  "\<lbrakk>rows_inv L; 0 \<le> c; sl_sequence L + 1 < 2 ^ 63\<rbrakk> \<Longrightarrow> rows_inv (new_lease L s c x)"
  by (fastforce simp: rows_inv_def new_lease_def row_ok_def)

lemma reserve_in_transaction_admitted:
  assumes "reserve_in_transaction K E L s c now ttl = Inr (Admitted r, L')"
  shows "unat c < 2 ^ 63" and "sl_sequence L + 1 < 2 ^ 63"
    and "r = \<lparr>r_id = word_of_int (sl_sequence L + 1), r_scope = s, r_ceiling = c,
              r_expires_at = now + ttl\<rparr>"
    and "L' = new_lease (reclaim_scope L s (unix_timestamp now)) s (int (unat c))
                (unix_timestamp (now + ttl))"
    and "cap_breach K E (reclaim_scope L s (unix_timestamp now)) s c now = Inr None"
  using assms
  by (auto simp: reserve_in_transaction_def bind_res_Inr i64_try_from_Inr insert_reservation_def
      new_lease_def Let_def split: option.splits if_splits)

lemma reserve_durable_admitted:
  assumes "reserve_durable K E L s c now ttl = (Inr (Admitted r), L')"
  shows "reserve_in_transaction K E L s c now ttl = Inr (Admitted r, L')"
  using assms unfolding reserve_durable_def
  by (cases rule: transaction_Inr)
    (auto simp: map_sum_def split: sum.splits prod.splits reserve_outcome.splits)

lemma reserve_durable_denied:
  assumes "reserve_durable K E L s c now ttl = (Inr (Denied d), L')"
  shows "L' = L"
    and "cap_breach K E (reclaim_scope L s (unix_timestamp now)) s c now = Inr (Some d)"
proof -
  from assms have "L' = L \<and> (\<exists>L''. reserve_in_transaction K E L s c now ttl = Inr (Denied d, L''))"
    unfolding reserve_durable_def
    by (cases rule: transaction_Inr)
      (auto simp: map_sum_def split: sum.splits prod.splits reserve_outcome.splits)
  then show "L' = L"
    and "cap_breach K E (reclaim_scope L s (unix_timestamp now)) s c now = Inr (Some d)"
    by (auto simp: reserve_in_transaction_def bind_res_Inr insert_reservation_def Let_def
        split: option.splits if_splits)
qed

lemma reserve_durable_error:
  "definite E \<Longrightarrow> reserve_durable K E L s c now ttl = (Inl e, L') \<Longrightarrow> L' = L"
  unfolding reserve_durable_def by (rule transaction_Inl)

text \<open>The decision of the check, when both sums can be formed.\<close>

lemma cap_breach_None:
  assumes "cap_breach K E L s c now = Inr None" and "map_of (sl_limits L) s = Some row"
    and "lr_limit_tokens row = Some l" and "policy_parse (lr_policy row) = Block"
  shows "settled_total L s (window_start_ts K now (window_parse (lr_window row)))
    + held_total L s + int (unat c) \<le> l"
  using assms
  by (auto simp: cap_breach_def bind_res_Inr select_spent_def select_reserved_def statement_Inr
      settled_total_def held_total_def dest!: sql_sum_Inr split: if_splits)

section \<open>Settlement\<close>

lemma settle_row_simps [simp]:
  "sl_limits (settle_row L i a t) = sl_limits L" "sl_sequence (settle_row L i a t) = sl_sequence L"
  "sl_intents (settle_row L i a t) = sl_intents L" "sl_path (settle_row L i a t) = sl_path L"
  "sl_dedup (settle_row L i a t) = sl_dedup L" "sl_outbox (settle_row L i a t) = sl_outbox L"
  "sl_fences (settle_row L i a t) = sl_fences L"
  "sl_correlations (settle_row L i a t) = sl_correlations L"
  "sl_observations (settle_row L i a t) = sl_observations L"
  by (simp_all add: settle_row_def)

lemma settle_row_none:
  assumes "\<forall>(j, r) \<in> set (sl_reservations L). j = i \<longrightarrow> rr_settled r \<noteq> 0"
  shows "settle_row L i a t = L"
proof -
  have "map (\<lambda>(j, r). if j = i \<and> rr_settled r = 0
      then (j, r\<lparr>rr_actual := a, rr_settled := 1, rr_settled_at := Some t\<rparr>) else (j, r))
    (sl_reservations L) = sl_reservations L"
    using assms by (intro map_idI) auto
  then show ?thesis by (simp add: settle_row_def)
qed

lemma settle_row_totals:
  assumes "rows_inv L" and "(i, r) \<in> set (sl_reservations L)" and "rr_settled r = 0"
  shows "settled_total (settle_row L i a t) s start =
      settled_total L s start + (if s = rr_scope r \<and> start \<le> t then a else 0)"
    and "held_total (settle_row L i a t) s =
      held_total L s - (if s = rr_scope r then rr_ceiling r else 0)"
proof -
  have d: "distinct (map fst (sl_reservations L))" using assms(1) by (simp add: rows_inv_def)
  note upd = sum_list_update_row [OF d assms(2), of "\<lambda>r. rr_settled r = 0"]
  show "settled_total (settle_row L i a t) s start =
      settled_total L s start + (if s = rr_scope r \<and> start \<le> t then a else 0)"
    using assms(3) by (simp add: settled_total_eq settle_row_def upd del: map_map)
  show "held_total (settle_row L i a t) s =
      held_total L s - (if s = rr_scope r then rr_ceiling r else 0)"
    using assms(3) by (simp add: held_total_eq settle_row_def upd del: map_map)
qed

lemma settle_row_fst [simp]:
  "map fst (sl_reservations (settle_row L i a t)) = map fst (sl_reservations L)"
  by (auto simp: settle_row_def)

lemma settle_row_mem:
  assumes "(j, q) \<in> set (sl_reservations (settle_row L i a t))"
  obtains "(j, q) \<in> set (sl_reservations L)"
    | r where "(j, r) \<in> set (sl_reservations L)" and "j = i" and "rr_settled r = 0"
      and "q = r\<lparr>rr_actual := a, rr_settled := 1, rr_settled_at := Some t\<rparr>"
  using assms by (auto simp: settle_row_def split: if_splits)

lemma rows_inv_settle_row:
  assumes "rows_inv L" and "0 \<le> a" and "0 \<le> t"
  shows "rows_inv (settle_row L i a t)"
proof -
  have "1 \<le> j \<and> j \<le> sl_sequence L \<and> row_ok q"
    if "(j, q) \<in> set (sl_reservations (settle_row L i a t))" for j q
    using that by (rule settle_row_mem) (use assms in \<open>auto simp: rows_inv_def row_ok_def\<close>)
  with assms(1) show ?thesis by (auto simp: rows_inv_def)
qed

lemma settle_durable_done:
  "settle_durable all_done clock L i a =
     (if is_tracked L (sint i) then (Inl ConstraintViolation, L)
      else (Inr (), settle_row L (sint i) (sint a) clock))"
  by (simp add: settle_durable_def transaction_done)

section \<open>The contract of the trait\<close>

text \<open>
  The ledger as the trait drives it: caps set with the window \<open>Total\<close> and the policy
  \<open>Block\<close>, sums within the range of the columns.
\<close>

definition sq_inv :: "sqlite_ledger \<Rightarrow> bool" where
  "sq_inv L \<longleftrightarrow>
     rows_inv L \<and>
     (\<forall>s. settled_total L s 0 < 2 ^ 63 \<and> held_total L s < 2 ^ 63) \<and>
     (\<forall>(s, row) \<in> set (sl_limits L).
        window_parse (lr_window row) = Total \<and> policy_parse (lr_policy row) = Block \<and>
        (case lr_limit_tokens row of None \<Rightarrow> True | Some l \<Rightarrow> 0 \<le> l \<and> l < 2 ^ 63))"

definition sq_lease :: "sqlite_ledger \<Rightarrow> u64 \<Rightarrow> (string \<times> u64) option" where
  "sq_lease L i =
     (if is_tracked L (sint i) then None
      else map_option (\<lambda>(_, r). (rr_scope r, word_of_int (rr_ceiling r)))
             (find (\<lambda>(j, r). j = sint i \<and> rr_settled r = 0) (sl_reservations L)))"

text \<open>
  The range of a scope without a cap, and of a charge.
\<close>

definition sq_fits :: "sqlite_ledger \<Rightarrow> string \<Rightarrow> u64 \<Rightarrow> bool" where
  "sq_fits L s c \<longleftrightarrow>
     (Option.bind (map_of (sl_limits L) s) lr_limit_tokens = None \<longrightarrow>
        held_total L s + int (unat c) < 2 ^ 63)"

definition sq_chargeable :: "sqlite_ledger \<Rightarrow> string \<Rightarrow> u64 \<Rightarrow> bool" where
  "sq_chargeable L s a \<longleftrightarrow> settled_total L s 0 + int (unat a) < 2 ^ 63"

lemma sq_inv_rows: "sq_inv L \<Longrightarrow> rows_inv L"
  by (simp add: sq_inv_def)

lemma sq_inv_totals:
  assumes "sq_inv L"
  shows "0 \<le> settled_total L s 0" "settled_total L s 0 < 2 ^ 63"
    "0 \<le> held_total L s" "held_total L s < 2 ^ 63"
  using assms by (simp_all add: sq_inv_def totals_nonneg)

lemma sq_invI:
  "\<lbrakk>sq_inv L; rows_inv L'; sl_limits L' = sl_limits L;
    \<And>t. settled_total L' t 0 < 2 ^ 63 \<and> held_total L' t < 2 ^ 63\<rbrakk> \<Longrightarrow> sq_inv L'"
  by (simp add: sq_inv_def)

lemma sq_inv_limits:
  assumes "sq_inv L" and "map_of (sl_limits L) s = Some row"
  shows "window_parse (lr_window row) = Total" and "policy_parse (lr_policy row) = Block"
    and "lr_limit_tokens row = Some l \<Longrightarrow> 0 \<le> l \<and> l < 2 ^ 63"
  using assms(1) map_of_SomeD [OF assms(2)] by (auto simp: sq_inv_def)

lemma select_done:
  assumes "sq_inv L"
  shows "select_spent all_done L s 0 = Inr (settled_total L s 0)"
    and "select_reserved all_done L s = Inr (held_total L s)"
  using assms sq_inv_totals [OF assms, of s] rows_nonneg [OF sq_inv_rows [OF assms], of s]
  by (simp_all add: select_spent_def select_reserved_def sql_sum_nonneg settled_total_def
      held_total_def)

lemma sq_reads:
  assumes "sq_inv L"
  shows "sq_spent K all_done n L s = clamp_u64 (settled_total L s 0)"
    and "sq_reserved all_done L s = clamp_u64 (held_total L s)"
proof -
  have "(case map_of (sl_limits L) s of
      Some row \<Rightarrow> window_parse (lr_window row) | None \<Rightarrow> window_default) = Total"
    using sq_inv_limits(1) [OF assms] by (auto simp: window_default_def split: option.splits)
  then show "sq_spent K all_done n L s = clamp_u64 (settled_total L s 0)"
    using select_done(1) [OF assms] by (simp add: sq_spent_def spent_durable_def window_of_durable_def)
  show "sq_reserved all_done L s = clamp_u64 (held_total L s)"
    using select_done(2) [OF assms] by (simp add: sq_reserved_def reserved_durable_def)
qed

lemma sq_reads_nat:
  assumes "sq_inv L"
  shows "unat (sq_spent K all_done n L s) = nat (settled_total L s 0)"
    and "unat (sq_reserved all_done L s) = nat (held_total L s)"
  using sq_inv_totals [OF assms, of s] by (simp_all add: sq_reads assms unat_clamp_u64)

lemma sq_limit_eq:
  "sq_limit all_done L s = map_option clamp_u64 (Option.bind (map_of (sl_limits L) s) lr_limit_tokens)"
  by (simp add: sq_limit_def limit_durable_def)

lemma sq_lease_row:
  assumes "sq_lease L i = Some (s, c)"
  obtains r where "(sint i, r) \<in> set (sl_reservations L)" and "rr_settled r = 0"
    and "rr_scope r = s" and "c = word_of_int (rr_ceiling r)" and "\<not> is_tracked L (sint i)"
  using assms by (auto simp: sq_lease_def find_Some_iff split: if_splits) (metis nth_mem)

lemma sq_lease_none:
  assumes "sq_lease L i = None" and "\<not> is_tracked L (sint i)"
  shows "settle_row L (sint i) a t = L"
  using assms by (intro settle_row_none) (auto simp: sq_lease_def find_None_iff)

lemma sq_settle_unknown: "sq_lease L i = None \<Longrightarrow> sq_settle all_done clock L i a = L"
  by (auto simp: sq_settle_def settle_durable_done sq_lease_none)

lemma sq_settle_known:
  "sq_lease L i = Some (s, c) \<Longrightarrow>
     sq_settle all_done clock L i a = settle_row L (sint i) (sint a) clock"
  by (erule sq_lease_row) (simp add: sq_settle_def settle_durable_done)

lemma row_ceiling_le_held:
  assumes "rows_inv L" and "(i, r) \<in> set (sl_reservations L)" and "rr_settled r = 0"
  shows "0 \<le> rr_ceiling r" and "rr_ceiling r \<le> held_total L (rr_scope r)"
proof -
  show "0 \<le> rr_ceiling r" using assms by (auto simp: rows_inv_def row_ok_def)
  have "rr_ceiling r \<in> set (held_ceilings L (rr_scope r))"
    using assms by (force simp: held_ceilings_def)
  with rows_nonneg(2) [OF assms(1)] show "rr_ceiling r \<le> held_total L (rr_scope r)"
    unfolding held_total_def by (simp add: member_le_sum_list)
qed

lemma sq_settle_effect:
  assumes inv: "sq_inv L" and lease: "sq_lease L i = Some (s, c)" and room: "sq_chargeable L s a"
  shows "settled_total (settle_row L (sint i) (sint a) (int clock)) t 0 =
      settled_total L t 0 + (if t = s then int (unat a) else 0)"
    and "held_total (settle_row L (sint i) (sint a) (int clock)) t =
      held_total L t - (if t = s then int (unat c) else 0)"
    and "sq_inv (settle_row L (sint i) (sint a) (int clock))"
    and "int (unat c) \<le> held_total L s"
    and "sq_lease (settle_row L (sint i) (sint a) (int clock)) i = None"
proof -
  note rows = sq_inv_rows [OF inv]
  obtain r where r: "(sint i, r) \<in> set (sl_reservations L)" "rr_settled r = 0" "rr_scope r = s"
      "c = word_of_int (rr_ceiling r)" "\<not> is_tracked L (sint i)"
    using lease by (rule sq_lease_row)
  have a: "sint a = int (unat a)"
    using room sq_inv_totals(1) [OF inv, of s] by (intro sint_small_uint) (simp add: sq_chargeable_def)
  have c: "int (unat c) = rr_ceiling r"
    using row_ceiling_le_held [OF rows r(1,2)] sq_inv_totals(4) [OF inv, of s]
    by (simp add: r(3,4) unat_word_of_int)
  note tot = settle_row_totals [OF rows r(1,2), of "sint a" "int clock"]
  show settled: "settled_total (settle_row L (sint i) (sint a) (int clock)) t 0 =
      settled_total L t 0 + (if t = s then int (unat a) else 0)" for t
    by (simp add: tot(1) r(3)) (simp add: a)
  show held: "held_total (settle_row L (sint i) (sint a) (int clock)) t =
      held_total L t - (if t = s then int (unat c) else 0)" for t
    by (simp add: tot(2) r(3)) (simp add: c [simplified])
  show "int (unat c) \<le> held_total L s"
    unfolding c using row_ceiling_le_held(2) [OF rows r(1,2)] by (simp add: r(3))
  have "rows_inv (settle_row L (sint i) (sint a) (int clock))"
    by (rule rows_inv_settle_row [OF rows]) (simp_all add: a)
  moreover have nn: "held_total L t - (if t = s then int (unat c) else 0) \<le> held_total L t" for t
    by simp
  have "settled_total (settle_row L (sint i) (sint a) (int clock)) t 0 < 2 ^ 63 \<and>
      held_total (settle_row L (sint i) (sint a) (int clock)) t < 2 ^ 63" for t
    unfolding settled held
    using room sq_inv_totals(2) [OF inv, of t] le_less_trans [OF nn [of t] sq_inv_totals(4) [OF inv]]
    by (auto simp: sq_chargeable_def)
  ultimately show "sq_inv (settle_row L (sint i) (sint a) (int clock))"
    by (intro sq_invI [OF inv]) (assumption | simp)+
  have "rr_settled q \<noteq> 0"
    if "(sint i, q) \<in> set (sl_reservations (settle_row L (sint i) (sint a) (int clock)))" for q
    using that
  proof (rule settle_row_mem)
    assume "(sint i, q) \<in> set (sl_reservations L)"
    moreover have "distinct (map fst (sl_reservations L))" using rows by (simp add: rows_inv_def)
    ultimately have "q = r" using r(1) eq_key_imp_eq_value by metis
    moreover have "(sint i, r) \<notin> set (sl_reservations (settle_row L (sint i) (sint a) (int clock)))"
    proof
      assume "(sint i, r) \<in> set (sl_reservations (settle_row L (sint i) (sint a) (int clock)))"
      then show False using r(2) by (auto simp: settle_row_def split: if_splits)
    qed
    ultimately show ?thesis using that by blast
  qed simp
  then have "find (\<lambda>(j, r). j = sint i \<and> rr_settled r = 0)
      (sl_reservations (settle_row L (sint i) (sint a) (int clock))) = None"
    unfolding find_None_iff by blast
  then show "sq_lease (settle_row L (sint i) (sint a) (int clock)) i = None"
    by (simp add: sq_lease_def)
qed

lemma find_snoc: "find P (xs @ [x]) = (case find P xs of None \<Rightarrow> if P x then Some x else None | Some y \<Rightarrow> Some y)"
  by (induction xs) auto

lemma sq_reserve_admitted:
  assumes "sq_reserve K E L s c now ttl = (Inr r, L')"
  shows "reserve_in_transaction K E L s c now ttl = Inr (Admitted r, L')"
  using assms
  by (auto simp: sq_reserve_def split: prod.splits sum.splits reserve_outcome.splits
      intro: reserve_durable_admitted)

lemma sq_reserve_denied:
  "definite E \<Longrightarrow> sq_reserve K E L s c now ttl = (Inl d, L') \<Longrightarrow> L' = L"
  by (auto simp: sq_reserve_def dest: reserve_durable_denied(1) reserve_durable_error
      split: prod.splits sum.splits reserve_outcome.splits)

lemma sq_reserve_effect:
  assumes inv: "sq_inv L" and fits: "sq_fits L s c"
    and res: "sq_reserve K E L s c now ttl = (Inr r, L')"
  shows "settled_total L' t 0 = settled_total L t 0"
    and "t \<noteq> s \<Longrightarrow> held_total L' t = held_total L t"
    and "int (unat c) \<le> held_total L' s"
    and "sq_inv L'"
    and "Option.bind (map_of (sl_limits L) s) lr_limit_tokens = Some l \<Longrightarrow>
      settled_total L s 0 + held_total L' s \<le> l"
    and "sl_limits L' = sl_limits L"
    and "sq_lease L' (r_id r) = Some (s, c)"
proof -
  define L1 where "L1 = reclaim_scope L s (unix_timestamp now)"
  note rows = sq_inv_rows [OF inv]
  note adm = reserve_in_transaction_admitted [OF sq_reserve_admitted [OF res], folded L1_def]
  have rows1: "rows_inv L1" unfolding L1_def by (rule rows_inv_reclaim [OF rows])
  have seq: "sl_sequence L1 = sl_sequence L" by (simp add: L1_def)
  have rows': "rows_inv L'" unfolding adm(4)
    by (rule rows_inv_new_lease [OF rows1]) (use adm(2) seq in simp_all)
  show settled: "settled_total L' t 0 = settled_total L t 0" for t
    by (simp add: adm(4) L1_def)
  show other: "t \<noteq> s \<Longrightarrow> held_total L' t = held_total L t" for t
    by (simp add: adm(4) L1_def held_total_new_lease held_total_reclaim_other)
  have held: "held_total L' s = held_total L1 s + int (unat c)"
    by (simp add: adm(4) held_total_new_lease)
  then show "int (unat c) \<le> held_total L' s" using totals_nonneg(2) [OF rows1, of s] by simp
  show limits: "sl_limits L' = sl_limits L" by (simp add: adm(4) L1_def)
  have cap: "settled_total L s 0 + held_total L' s \<le> l"
    if l: "Option.bind (map_of (sl_limits L) s) lr_limit_tokens = Some l" for l
  proof -
    obtain row where row: "map_of (sl_limits L) s = Some row" "lr_limit_tokens row = Some l"
      using l by (auto simp: bind_eq_Some_conv)
    with cap_breach_None [OF adm(5), of row l] sq_inv_limits [OF inv row(1)] show ?thesis
      by (simp add: L1_def held)
  qed
  then show "Option.bind (map_of (sl_limits L) s) lr_limit_tokens = Some l \<Longrightarrow>
      settled_total L s 0 + held_total L' s \<le> l" .
  have "held_total L' s < 2 ^ 63"
  proof (cases "Option.bind (map_of (sl_limits L) s) lr_limit_tokens")
    case None
    with fits held held_total_reclaim_le [OF rows, of s "unix_timestamp now" s] show ?thesis
      by (simp add: sq_fits_def L1_def)
  next
    case (Some l)
    then have "l < 2 ^ 63" using sq_inv_limits(3) [OF inv, of s] by (auto simp: bind_eq_Some_conv)
    with cap [OF Some] sq_inv_totals(1) [OF inv, of s] show ?thesis by simp
  qed
  then have "settled_total L' t 0 < 2 ^ 63 \<and> held_total L' t < 2 ^ 63" for t
    using other [of t] sq_inv_totals [OF inv, of t] by (cases "t = s") (simp_all add: settled)
  then show "sq_inv L'" by (rule sq_invI [OF inv rows' limits])
  have rid: "sint (r_id r) = sl_sequence L + 1"
    using adm(2) rows sint_word_of_int [of "sl_sequence L + 1"] by (simp add: adm(3) rows_inv_def)
  have "\<not> is_tracked L' (sl_sequence L + 1)"
    using rows by (auto simp: is_tracked_def adm(4) L1_def rows_inv_def)
  moreover have "find (\<lambda>(j, r). j = sl_sequence L + 1 \<and> rr_settled r = 0) (sl_reservations L1) = None"
    using rows1 by (auto simp: find_None_iff rows_inv_def seq)
  then have "find (\<lambda>(j, r). j = sl_sequence L + 1 \<and> rr_settled r = 0) (sl_reservations L') =
    Some (sl_sequence L + 1, \<lparr>rr_scope = s, rr_ceiling = int (unat c), rr_actual = 0,
      rr_settled = 0, rr_settled_at = None, rr_expires_at = unix_timestamp (now + ttl)\<rparr>)"
    by (simp add: adm(4) new_lease_def seq find_snoc)
  ultimately show "sq_lease L' (r_id r) = Some (s, c)"
    by (simp add: sq_lease_def rid)
qed

lemma filter_map_frame:
  "\<forall>x \<in> set xs. P (g x) = P x \<and> (P x \<longrightarrow> f (g x) = f x) \<Longrightarrow>
     map f (filter P (map g xs)) = map f (filter P xs)"
  by (induction xs) auto

lemma settle_row_frame:
  assumes "rows_inv L" and "(i, r) \<in> set (sl_reservations L)" and "rr_scope r \<noteq> s"
  shows "settled_actuals (settle_row L i a t) s start = settled_actuals L s start"
    and "held_ceilings (settle_row L i a t) s = held_ceilings L s"
proof -
  have "rr_scope q \<noteq> s" if "(i, q) \<in> set (sl_reservations L)" for q
    using that assms eq_key_imp_eq_value [of "sl_reservations L" i q r] by (auto simp: rows_inv_def)
  then show "settled_actuals (settle_row L i a t) s start = settled_actuals L s start"
    and "held_ceilings (settle_row L i a t) s = held_ceilings L s"
    unfolding settled_actuals_def held_ceilings_def settle_row_def
    by (simp_all add: del: map_map filter_map, intro filter_map_frame ballI, force)+
qed

definition drop_leases :: "sqlite_ledger \<Rightarrow> int \<Rightarrow> sqlite_ledger" where
  "drop_leases L now_ts =
     L\<lparr>sl_reservations := filter (\<lambda>p. \<not> reclaimable L now_ts p) (sl_reservations L),
       sl_dedup := filter (\<lambda>(_, d). \<not> dd_expires_at d \<le> now_ts) (sl_dedup L)\<rparr>"

lemma sq_reclaim_done: "snd (sq_reclaim_expired all_done L now) = drop_leases L (unix_timestamp now)"
  by (simp add: sq_reclaim_expired_def reclaim_expired_durable_def drop_leases_def Let_def)

lemma totals_dedup [simp]:
  "settled_total (L\<lparr>sl_dedup := d\<rparr>) s t = settled_total L s t"
  "held_total (L\<lparr>sl_dedup := d\<rparr>) s = held_total L s"
  "rows_inv (L\<lparr>sl_dedup := d\<rparr>) = rows_inv L"
  by (simp_all add: settled_total_eq held_total_eq rows_inv_def)

lemma drop_leases_effect:
  assumes "rows_inv L"
  shows "rows_inv (drop_leases L n)" and "settled_total (drop_leases L n) s t = settled_total L s t"
    and "held_total (drop_leases L n) s \<le> held_total L s"
proof -
  let ?L = "L\<lparr>sl_reservations := filter (\<lambda>p. \<not> reclaimable L n p) (sl_reservations L)\<rparr>"
  have eq: "drop_leases L n = ?L\<lparr>sl_dedup := filter (\<lambda>(_, d). \<not> dd_expires_at d \<le> n) (sl_dedup L)\<rparr>"
    by (simp add: drop_leases_def)
  show "rows_inv (drop_leases L n)" unfolding eq totals_dedup by (rule rows_inv_filter [OF assms])
  show "settled_total (drop_leases L n) s t = settled_total L s t" unfolding eq totals_dedup
    by (rule settled_total_filter) (auto dest: reclaimable_unsettled)
  show "held_total (drop_leases L n) s \<le> held_total L s" unfolding eq totals_dedup
    by (rule held_total_filter [OF assms])
qed

lemma sq_inv_drop_leases:
  assumes "sq_inv L"
  shows "sq_inv (drop_leases L n)"
proof (rule sq_invI [OF assms])
  fix t
  have "settled_total (drop_leases L n) t 0 = settled_total L t 0"
    "held_total (drop_leases L n) t \<le> held_total L t"
    using drop_leases_effect [OF sq_inv_rows [OF assms]] by blast+
  with sq_inv_totals [OF assms, of t]
  show "settled_total (drop_leases L n) t 0 < 2 ^ 63 \<and> held_total (drop_leases L n) t < 2 ^ 63"
    by linarith
qed (use assms in \<open>simp_all add: drop_leases_effect(1) sq_inv_rows\<close>, simp add: drop_leases_def)

interpretation sq: lease_ledger sq_inv "sq_limit all_done" "sq_spent K all_done utc"
  "sq_reserved all_done" sq_lease sq_fits sq_chargeable "sq_reserve K all_done"
  "sq_settle all_done (int clock)" "sq_reclaim_expired all_done"
  for K :: calendar and utc :: instant and clock :: nat
proof unfold_locales
  fix L s c now ttl r L' l i a t d
  show "sq_reserve K all_done L s c now ttl = (Inl d, L') \<Longrightarrow> L' = L"
    by (rule sq_reserve_denied) simp_all
  show "sq_limit all_done (sq_settle all_done (int clock) L i a) = sq_limit all_done L"
    by (simp add: fun_eq_iff sq_limit_eq sq_settle_def settle_durable_done)
  show "sq_lease L i = None \<Longrightarrow> sq_settle all_done (int clock) L i a = L"
    by (rule sq_settle_unknown)
  assume inv: "sq_inv L"
  note drop = drop_leases_effect [OF sq_inv_rows [OF inv]] sq_inv_drop_leases [OF inv]
  show "sq_inv (snd (sq_reclaim_expired all_done L now))"
    by (simp add: sq_reclaim_done drop)
  show "sq_limit all_done (snd (sq_reclaim_expired all_done L now)) = sq_limit all_done L \<and>
    sq_spent K all_done utc (snd (sq_reclaim_expired all_done L now)) = sq_spent K all_done utc L"
    by (simp add: fun_eq_iff sq_reclaim_done sq_limit_eq sq_reads inv drop)
      (simp add: drop_leases_def)
  show "unat (sq_reserved all_done (snd (sq_reclaim_expired all_done L now)) s)
      \<le> unat (sq_reserved all_done L s)"
    by (simp add: sq_reclaim_done sq_reads_nat inv drop nat_mono)
  show "sq_lease L i = Some (s, c) \<Longrightarrow> t \<noteq> s \<Longrightarrow>
    sq_spent K all_done utc (sq_settle all_done (int clock) L i a) t = sq_spent K all_done utc L t \<and>
    sq_reserved all_done (sq_settle all_done (int clock) L i a) t = sq_reserved all_done L t"
    using settle_row_frame [OF sq_inv_rows [OF inv]]
    by (auto elim!: sq_lease_row simp: sq_settle_def settle_durable_done sq_spent_def sq_reserved_def
        spent_durable_def reserved_durable_def window_of_durable_def select_spent_def
        select_reserved_def)
  {
    assume lease: "sq_lease L i = Some (s, c)" and room: "sq_chargeable L s a"
    note eff = sq_settle_effect [OF inv lease room]
    show "sq_inv (sq_settle all_done (int clock) L i a)"
      by (simp add: sq_settle_known [OF lease] eff)
    show "unat (sq_spent K all_done utc (sq_settle all_done (int clock) L i a) s) =
        unat (sq_spent K all_done utc L s) + unat a \<and>
      unat (sq_reserved all_done (sq_settle all_done (int clock) L i a) s) + unat c =
        unat (sq_reserved all_done L s) \<and>
      sq_lease (sq_settle all_done (int clock) L i a) i = None"
      unfolding sq_settle_known [OF lease] sq_reads_nat [OF inv] sq_reads_nat [OF eff(3)] eff(1,2,5)
      using eff(4) sq_inv_totals [OF inv, of s] nat_add_int [of "settled_total L s 0" "unat a"]
        nat_diff_int [of "unat c" "held_total L s"]
      by simp
  }
  assume fits: "sq_fits L s c" and res: "sq_reserve K all_done L s c now ttl = (Inr r, L')"
  note eff = sq_reserve_effect [OF inv fits res]
  show "sq_inv L'" by (rule eff(4))
  show "sq_limit all_done L' = sq_limit all_done L \<and>
    sq_spent K all_done utc L' = sq_spent K all_done utc L \<and>
    (\<forall>t. t \<noteq> s \<longrightarrow> sq_reserved all_done L' t = sq_reserved all_done L t)"
    by (simp add: fun_eq_iff sq_limit_eq sq_reads inv eff)
  show "sq_lease L' (r_id r) = Some (s, c) \<and> unat c \<le> unat (sq_reserved all_done L' s)"
    using nat_diff_int [OF eff(3)] eff(7) sq_reads_nat(2) [OF eff(4), where s = s] by simp
  show "sq_limit all_done L s = Some l \<Longrightarrow>
    unat (sq_spent K all_done utc L s) + unat (sq_reserved all_done L' s) \<le> unat l"
  proof -
    assume "sq_limit all_done L s = Some l"
    then obtain v where v: "Option.bind (map_of (sl_limits L) s) lr_limit_tokens = Some v"
        "l = clamp_u64 v"
      by (auto simp: sq_limit_eq)
    have "0 \<le> v \<and> v < 2 ^ 63"
      using v(1) sq_inv_limits(3) [OF inv, of s] by (auto simp: bind_eq_Some_conv)
    then have "unat l = nat v" by (simp add: v(2) unat_clamp_u64)
    with eff(5) [OF v(1)] sq_inv_totals [OF inv, of s] sq_inv_totals [OF eff(4), of s] show ?thesis
      by (simp add: sq_reads_nat inv eff(4))
  qed
qed

section \<open>Properties\<close>

abbreviation sq_step :: "calendar \<Rightarrow> nat \<Rightarrow> sqlite_ledger \<Rightarrow> ledger_op \<Rightarrow> sqlite_ledger" where
  "sq_step K clock \<equiv>
     ledger_step (sq_reserve K all_done) (sq_settle all_done (int clock)) (sq_reclaim_expired all_done)"

abbreviation sq_run :: "calendar \<Rightarrow> nat \<Rightarrow> sqlite_ledger \<Rightarrow> ledger_op list \<Rightarrow> sqlite_ledger" where
  "sq_run K clock \<equiv>
     ledger_run (sq_reserve K all_done) (sq_settle all_done (int clock)) (sq_reclaim_expired all_done)"


text \<open>
  C6: an admission decision of the durable ledger under any behaviour of the engine. An admitted
  call has its lease inserted under a fresh id with the expiry asked for, no row of another scope
  and no settled or tracked row disappears, and under a blocking cap the spend of the scope's
  current window, the ceilings still held and the new ceiling fit together. A denial changes
  nothing and happens only under a blocking cap that the three exceed. A failure changes nothing
  unless the engine leaves its commit unconfirmed.
\<close>

theorem durable_admission:
  "(case reserve_durable K E L s c now ttl of
      (Inr (Admitted r), L') \<Rightarrow>
        r = \<lparr>r_id = word_of_int (sl_sequence L + 1), r_scope = s, r_ceiling = c,
             r_expires_at = now + ttl\<rparr> \<and>
        (\<exists>kept. sl_reservations L' = kept @ [(sl_sequence L + 1,
             \<lparr>rr_scope = s, rr_ceiling = int (unat c), rr_actual = 0, rr_settled = 0,
              rr_settled_at = None, rr_expires_at = unix_timestamp (now + ttl)\<rparr>)] \<and>
           set kept \<subseteq> set (sl_reservations L) \<and>
           (\<forall>(i, q) \<in> set (sl_reservations L).
              (i, q) \<in> set kept \<or>
              rr_scope q = s \<and> rr_settled q = 0 \<and> rr_expires_at q \<le> unix_timestamp now \<and>
              \<not> is_tracked L i)) \<and>
        (\<forall>row l. map_of (sl_limits L) s = Some row \<and> lr_limit_tokens row = Some l \<and>
           policy_parse (lr_policy row) = Block \<longrightarrow>
           settled_total L' s (window_start_ts K now (window_parse (lr_window row)))
             + held_total L' s \<le> l)
    | (Inr (Denied d), L') \<Rightarrow>
        L' = L \<and> d_scope d = s \<and> d_requested_ceiling d = c \<and>
        (\<exists>row l. map_of (sl_limits L) s = Some row \<and> lr_limit_tokens row = Some l \<and>
           policy_parse (lr_policy row) = Block \<and> d_limit d = clamp_u64 l \<and>
           l < settled_total L s (window_start_ts K now (window_parse (lr_window row)))
             + held_total (reclaim_scope L s (unix_timestamp now)) s + int (unat c))
    | (Inl e, L') \<Rightarrow> definite E \<longrightarrow> L' = L)"
proof (cases "reserve_durable K E L s c now ttl")
  case (Pair res L')
  define L1 where "L1 = reclaim_scope L s (unix_timestamp now)"
  consider e where "res = Inl e" | d where "res = Inr (Denied d)" | r where "res = Inr (Admitted r)"
    by (cases res) (auto intro: reserve_outcome.exhaust)
  then show ?thesis
  proof cases
    case 1
    with Pair reserve_durable_error [of E K L s c now ttl] show ?thesis by simp
  next
    case 2
    note den = reserve_durable_denied [OF Pair [unfolded 2], folded L1_def]
    from den(2) obtain row l where row: "map_of (sl_limits L) s = Some row"
        "lr_limit_tokens row = Some l" "policy_parse (lr_policy row) = Block"
        "d_limit d = clamp_u64 l" "d_scope d = s" "d_requested_ceiling d = c"
        "l < settled_total L1 s (window_start_ts K now (window_parse (lr_window row)))
           + held_total L1 s + int (unat c)"
      by (auto simp: cap_breach_def bind_res_Inr select_spent_def select_reserved_def L1_def
          settled_total_def held_total_def dest!: sql_sum_Inr split: option.splits if_splits)
    from row(7) have "l < settled_total L s (window_start_ts K now (window_parse (lr_window row)))
           + held_total (reclaim_scope L s (unix_timestamp now)) s + int (unat c)"
      by (simp add: L1_def)
    with row(1-6) den(1) 2 Pair show ?thesis by auto
  next
    case 3
    note adm = reserve_in_transaction_admitted [OF reserve_durable_admitted [OF Pair [unfolded 3]],
        folded L1_def]
    have cap: "settled_total L' s (window_start_ts K now (window_parse (lr_window row)))
        + held_total L' s \<le> l"
      if "map_of (sl_limits L) s = Some row" "lr_limit_tokens row = Some l"
        "policy_parse (lr_policy row) = Block" for row l
      using cap_breach_None [OF adm(5), of row l] that
      by (simp add: adm(4) held_total_new_lease) (simp add: L1_def)
    have "sl_reservations L' = sl_reservations L1 @ [(sl_sequence L + 1,
             \<lparr>rr_scope = s, rr_ceiling = int (unat c), rr_actual = 0, rr_settled = 0,
              rr_settled_at = None, rr_expires_at = unix_timestamp (now + ttl)\<rparr>)]"
      by (simp add: adm(4) new_lease_def) (simp add: L1_def)
    moreover have "set (sl_reservations L1) \<subseteq> set (sl_reservations L)"
      by (auto simp: L1_def reclaim_scope_def)
    moreover have "\<forall>(i, q) \<in> set (sl_reservations L).
        (i, q) \<in> set (sl_reservations L1) \<or>
        rr_scope q = s \<and> rr_settled q = 0 \<and> rr_expires_at q \<le> unix_timestamp now \<and>
        \<not> is_tracked L i"
      by (auto simp: L1_def reclaim_scope_def reclaimable_def)
    ultimately show ?thesis using adm(3) cap 3 Pair by auto
  qed
qed


lemma is_tracked_dedup [simp]: "is_tracked (L\<lparr>sl_dedup := d\<rparr>) i = is_tracked L i"
  by (simp add: is_tracked_def)

text \<open>
  C17: a recorded settlement is found again by its key until its window ends, and reported unseen
  from then on, with the row removed; other keys are unaffected.
\<close>

theorem dedup_round_trip:
  assumes "record_durable E L vkey idem res act now ttl = (Inr (), L')"
    and "unat res < 2 ^ 63" and "unat act < 2 ^ 63"
  shows "seen_durable all_done L' vkey idem t =
      (if unix_timestamp (now + ttl) \<le> unix_timestamp t
       then (Inr None, L'\<lparr>sl_dedup := AList.delete (vkey, idem) (sl_dedup L)\<rparr>)
       else (Inr (Some (res, act)), L')) \<and>
    (\<forall>k. k \<noteq> (vkey, idem) \<longrightarrow> map_of (sl_dedup L') k = map_of (sl_dedup L) k)"
proof -
  have "L' = L\<lparr>sl_dedup := AList.update (vkey, idem)
      \<lparr>dd_reservation = int (unat res), dd_actual = int (unat act), dd_seen_at = unix_timestamp now,
       dd_expires_at = unix_timestamp (now + ttl)\<rparr> (sl_dedup L)\<rparr>"
    using autocommit_Inr [OF assms(1) [unfolded record_durable_def]] assms(2,3)
    by (simp add: sint_small)
  moreover have "clamp_u64 (int (unat x)) = x" for x :: u64
    by (simp add: clamp_u64_def)
  ultimately show ?thesis
    by (simp add: seen_durable_def update_conv' delete_update_same)
qed

section \<open>Witnesses\<close>

text \<open>A ledger with a cap of 100 on one scope, and a calendar of 30-day months.\<close>

definition ex_db :: sqlite_ledger where
  "ex_db = sq_set_limit all_done (sqlite_open (Some ''ledger.db'')) ''team'' (Some 100)"

definition ex_calendar :: calendar where
  "ex_calendar =
     \<lparr>replace_time_midnight = (\<lambda>now. now - now mod 86400000000000),
      replace_day_1 = (\<lambda>now. Some (now - now mod 2592000000000000)),
      checked_add_time = (\<lambda>now d. Some (now + d)),
      from_unix_timestamp = (\<lambda>s. Some (s * 1000000000))\<rparr>"

definition ex_db_ops :: "ledger_op list" where
  "ex_db_ops = [Reserve ''team'' 60 0 900000000000, Settle 1 70, Reserve ''team'' 30 0 900000000000,
                Reserve ''team'' 1 1 1]"

lemma ex_db_eq:
  "ex_db = (sqlite_open (Some ''ledger.db''))\<lparr>sl_limits :=
     [(''team'', \<lparr>lr_limit_tokens = Some 100, lr_window = ''total'', lr_policy = ''block''\<rparr>)]\<rparr>"
  by (simp add: ex_db_def sq_set_limit_def set_limit_durable_def i64_try_from_def sqlite_open_def)

lemma ex_db_parse: "window_parse ''total'' = Total" "policy_parse ''block'' = Block"
  by (simp_all add: window_parse_def policy_parse_def ascii_lower_def ascii_lower_char_def)

lemma ex_db_inv: "sq_inv ex_db"
  by (simp add: ex_db_eq sqlite_open_def sq_inv_def rows_inv_def settled_total_eq held_total_eq
      ex_db_parse)

lemmas sq_eval_defs = sq_reserve_def reserve_durable_def transaction_done reserve_in_transaction_def
  reclaim_scope_def cap_breach_def select_spent_def select_reserved_def settled_actuals_def
  held_ceilings_def insert_reservation_def i64_try_from_def sql_sum_def in_i64_def is_tracked_def
  reclaimable_def unix_timestamp_def sq_settle_def settle_durable_done settle_row_def sq_lease_def
  sq_fits_def sq_chargeable_def settled_total_def held_total_def sq_limit_eq sq_spent_def
  spent_durable_def window_of_durable_def sq_reserved_def reserved_durable_def clamp_u64_def
  sqlite_open_def ex_db_parse Let_def


theorem durable_admission_witness:
  "\<exists>d. reserve_durable ex_calendar all_done ex_db ''team'' 101 0 900 = (Inr (Denied d), ex_db) \<and>
     d_limit d = 100"
proof -
  obtain d where d: "reserve_durable ex_calendar all_done ex_db ''team'' 101 0 900 =
      (Inr (Denied d), ex_db)"
    by (simp add: ex_db_eq sq_eval_defs)
  then show ?thesis
    using durable_admission [where K = ex_calendar and E = all_done and L = ex_db and s = "''team''"
        and c = 101 and now = 0 and ttl = 900]
    by (auto simp: ex_db_eq clamp_u64_def)
qed

theorem dedup_round_trip_witness:
  "\<exists>L. record_durable all_done ex_db ''vk'' ''call-1'' 7 42 0 900000000000 = (Inr (), L) \<and>
     fst (seen_durable all_done L ''vk'' ''call-1'' 899000000000) = Inr (Some (7, 42)) \<and>
     fst (seen_durable all_done L ''vk'' ''call-1'' 900000000000) = Inr None"
proof -
  obtain L where L: "record_durable all_done ex_db ''vk'' ''call-1'' 7 42 0 900000000000 = (Inr (), L)"
    by (simp add: record_durable_def)
  show ?thesis
    using dedup_round_trip [OF L, of 899000000000] dedup_round_trip [OF L, of 900000000000] L
    by (simp add: unix_timestamp_def)
qed

end
