(* ===== verification/Evidence_Base.thy ===== *)
theory Evidence_Base
  imports Store_Ledger Event
begin

text \<open>
  \<^verbatim>\<open>crates/sandhi-store/src/ledger/evidence.rs\<close>, first part: the evidence types, the
  validation of identities and usage, and the checked readings of intents, observations and
  receipts that dispatch, recovery and settlement share.

  The JSON form of a usage record is a parameter (\<^verbatim>\<open>serde_json\<close>), and so is the operating
  system's random source, of which an operation gets the 32 bytes it draws, or None.
\<close>

section \<open>Data\<close>

datatype evidence_error =
    UnfencedIntent
  | DispatchNotAuthorized
  | InconsistentDispatch
  | ExpiredBeforeDispatch
  | InvalidInput
  | IntentCapacity
  | MissingIntent
  | MissingObservation
  | UnresolvedObservation
  | TrackedSettlementRequired
  | ConflictingObservation
  | AlreadySettled
  | CorruptObservation
  | InconsistentSettlement
  | MissingReservation
  | WrongScope
  | ConflictingCharge
  | LegacySettlement
  | InvalidShard
  | UnsupportedTrackedLedger
  | ShardPoisoned
  | EntropyUnavailable
  | Storage sql_error

record terminal_observation =
  t_version :: u32
  t_execution_id :: string
  t_reservation_id :: u64
  t_scope :: string
  t_usage :: usage_v2
  t_frozen_charge :: "u64 option"
  t_observed_at :: int

record settlement_receipt =
  sr_receipt_id :: string
  sr_reservation_id :: u64
  sr_scope :: string
  sr_charged_tokens :: u64
  sr_settled_at :: int

record claimed_settlement =
  cl_receipt :: settlement_receipt
  cl_claim_token :: string
  cl_lease_until :: int

datatype observation_outcome =
    Recorded terminal_observation
  | AlreadyRecorded terminal_observation

datatype settlement_outcome =
    Committed settlement_receipt
  | AlreadyCommitted settlement_receipt

record execution_intent =
  ei_execution_id :: string
  ei_reservation :: reservation

datatype intent_admission =
    IntentAdmitted execution_intent
  | IntentDenied denied

text \<open>An error of the store inside an evidence operation.\<close>

definition stored :: "sql_error + 'a \<Rightarrow> evidence_error + 'a" where
  "stored r = map_sum Storage (\<lambda>v. v) r"

lemma stored_simps [simp]: "stored (Inl e) = Inl (Storage e)" "stored (Inr v) = Inr v"
  by (simp_all add: stored_def)

lemma stored_Inr: "stored r = Inr v \<longleftrightarrow> r = Inr v"
  by (cases r) simp_all

text \<open>The JSON codec of \<^typ>\<open>usage_v2\<close>.\<close>

record usage_codec =
  enc_usage :: "usage_v2 \<Rightarrow> string option"
  dec_usage :: "string \<Rightarrow> usage_v2 option"

section \<open>Identities and input\<close>

definition hex_digits :: "u8 \<Rightarrow> string" where
  "hex_digits b = [''0123456789abcdef'' ! (unat b div 16), ''0123456789abcdef'' ! (unat b mod 16)]"

definition opaque_id :: "u8 list option \<Rightarrow> evidence_error + string" where
  "opaque_id entropy =
     (case entropy of
        None \<Rightarrow> Inl EntropyUnavailable
      | Some bytes \<Rightarrow> Inr (concat (map hex_digits bytes)))"

definition is_ascii_hexdigit :: "char \<Rightarrow> bool" where
  "is_ascii_hexdigit c \<longleftrightarrow>
     CHR ''0'' \<le> c \<and> c \<le> CHR ''9'' \<or> CHR ''a'' \<le> c \<and> c \<le> CHR ''f'' \<or>
     CHR ''A'' \<le> c \<and> c \<le> CHR ''F''"

definition validate_execution_id :: "string \<Rightarrow> evidence_error + unit" where
  "validate_execution_id execution_id =
     (if length execution_id \<noteq> 64 \<or> \<not> list_all is_ascii_hexdigit execution_id
      then Inl InvalidInput else Inr ())"

definition validate_scope :: "string \<Rightarrow> evidence_error + unit" where
  "validate_scope scope =
     (if scope = [] \<or> length scope > 4096 then Inl InvalidInput else Inr ())"

definition encode_usage :: "usage_codec \<Rightarrow> usage_v2 \<Rightarrow> evidence_error + string" where
  "encode_usage C usage =
     (if is_some_and (u_outcome usage) (\<lambda>v. length v > 256) \<or>
         is_some_and (u_upstream_request_id usage) (\<lambda>v. length v > 1024) \<or>
         is_some_and (u_cache_read_observation usage) (\<lambda>v. observation_validated v = None)
      then Inl InvalidInput
      else
        (case enc_usage C usage of
           None \<Rightarrow> Inl InvalidInput
         | Some encoded \<Rightarrow> if length encoded > 16384 then Inl InvalidInput else Inr encoded))"

section \<open>Checked readings\<close>

definition intent_binding ::
  "engine \<Rightarrow> sqlite_ledger \<Rightarrow> string \<Rightarrow> evidence_error + (u64 \<times> string \<times> bool) option" where
  "intent_binding E L execution_id =
     bind_res (stored (statement E SelectBinding)) (\<lambda>_.
     case map_of (sl_intents L) execution_id of
       Some intent \<Rightarrow>
         (case map_of (sl_reservations L) (in_reservation_id intent) of
            Some r \<Rightarrow>
              bind_res (stored (get_u64 (in_reservation_id intent))) (\<lambda>i.
              Inr (Some (i, rr_scope r, rr_settled r \<noteq> 0)))
          | None \<Rightarrow> Inl CorruptObservation)
     | None \<Rightarrow>
         bind_res (stored (statement E SelectRetained)) (\<lambda>_.
         if map_of (sl_observations L) execution_id \<noteq> None then Inl CorruptObservation
         else Inr None))"

definition get_u32 :: "int \<Rightarrow> sql_error + u32" where
  "get_u32 v = (if 0 \<le> v \<and> v < 2 ^ 32 then Inr (word_of_int v) else Inl IntegralValueOutOfRange)"

definition get_opt_u64 :: "int option \<Rightarrow> sql_error + u64 option" where
  "get_opt_u64 v = (case v of None \<Rightarrow> Inr None | Some v \<Rightarrow> map_sum (\<lambda>e. e) Some (get_u64 v))"

definition read_observation ::
  "usage_codec \<Rightarrow> engine \<Rightarrow> sqlite_ledger \<Rightarrow> string \<Rightarrow> u64 \<Rightarrow> string \<Rightarrow>
     evidence_error + terminal_observation option" where
  "read_observation C E L execution_id reservation_id scope =
     bind_res (stored (statement E SelectObservation)) (\<lambda>_.
     case map_of (sl_observations L) execution_id of
       None \<Rightarrow> Inr None
     | Some row \<Rightarrow>
         bind_res (stored (get_u32 (to_version row))) (\<lambda>version.
         bind_res (stored (get_opt_u64 (to_frozen_charge row))) (\<lambda>frozen_charge.
         if length (to_usage_json row) > 16384 then Inl CorruptObservation
         else
           (case dec_usage C (to_usage_json row) of
              None \<Rightarrow> Inl CorruptObservation
            | Some usage \<Rightarrow>
                if version \<noteq> 1 \<or> encode_usage C usage \<noteq> Inr (to_usage_json row) \<or>
                   (u_completeness usage = Unavailable) \<noteq> (frozen_charge = None)
                then Inl CorruptObservation
                else Inr (Some \<lparr>t_version = version, t_execution_id = execution_id,
                                t_reservation_id = reservation_id, t_scope = scope,
                                t_usage = usage, t_frozen_charge = frozen_charge,
                                t_observed_at = to_observed_at row\<rparr>)))))"

definition terminal_charge :: "terminal_observation \<Rightarrow> evidence_error + int" where
  "terminal_charge observed =
     (if u_completeness (t_usage observed) \<noteq> Final \<or> u_basis (t_usage observed) \<noteq> ProviderReported
      then Inl UnresolvedObservation
      else
        (case t_frozen_charge observed of
           None \<Rightarrow> Inl CorruptObservation
         | Some charge \<Rightarrow>
             if unat charge < 2 ^ 63 then Inr (uint charge) else Inl CorruptObservation))"

text \<open>The charge of an optional observation, an unresolved one read as none.\<close>

definition resolved_charge :: "terminal_observation option \<Rightarrow> evidence_error + int option" where
  "resolved_charge observed =
     (case observed of
        None \<Rightarrow> Inr None
      | Some obs \<Rightarrow>
          (case terminal_charge obs of
             Inr charge \<Rightarrow> Inr (Some charge)
           | Inl UnresolvedObservation \<Rightarrow> Inr None
           | Inl e \<Rightarrow> Inl e))"

section \<open>Receipts\<close>

definition receipt_of :: "string \<times> outbox_row \<Rightarrow> sql_error + settlement_receipt" where
  "receipt_of = (\<lambda>(receipt_id, row).
     bind_res (get_u64 (ob_reservation_id row)) (\<lambda>reservation_id.
     bind_res (get_u64 (ob_charged_tokens row)) (\<lambda>charged_tokens.
     Inr \<lparr>sr_receipt_id = receipt_id, sr_reservation_id = reservation_id, sr_scope = ob_scope row,
          sr_charged_tokens = charged_tokens, sr_settled_at = ob_settled_at row\<rparr>)))"

definition find_receipt :: "sqlite_ledger \<Rightarrow> int \<Rightarrow> (string \<times> outbox_row) option" where
  "find_receipt L i = find (\<lambda>(_, row). ob_reservation_id row = i) (sl_outbox L)"

text \<open>
  The stored receipt of a reservation, read with its identity and scope bounded by the query: a
  column the query leaves NULL cannot be read as a string.
\<close>

definition bounded_receipt ::
  "engine \<Rightarrow> sqlite_ledger \<Rightarrow> string \<Rightarrow> int \<Rightarrow> sql_error + settlement_receipt option" where
  "bounded_receipt E L scope i =
     bind_res (statement E SelectReceipt) (\<lambda>_.
     case find_receipt L i of
       None \<Rightarrow> Inr None
     | Some (receipt_id, row) \<Rightarrow>
         if length receipt_id \<noteq> 64 \<or> ob_scope row \<noteq> scope then Inl InvalidColumnType
         else map_sum (\<lambda>e. e) Some (receipt_of (receipt_id, row)))"

definition receipt_matches ::
  "string \<Rightarrow> u64 \<Rightarrow> int option \<Rightarrow> reservation_row \<Rightarrow> settlement_receipt \<Rightarrow> bool" where
  "receipt_matches scope reservation_id charge r receipt \<longleftrightarrow>
     charge = Some (rr_actual r) \<and> 0 \<le> rr_actual r \<and>
     sr_charged_tokens receipt = word_of_int (rr_actual r) \<and> sr_scope receipt = scope \<and>
     sr_reservation_id receipt = reservation_id \<and>
     Some (sr_settled_at receipt) = rr_settled_at r \<and>
     validate_execution_id (sr_receipt_id receipt) = Inr ()"

definition checked_terminal_receipt ::
  "engine \<Rightarrow> sqlite_ledger \<Rightarrow> string \<Rightarrow> u64 \<Rightarrow> int option \<Rightarrow>
     evidence_error + settlement_receipt option" where
  "checked_terminal_receipt E L scope reservation_id charge =
     bind_res (stored (i64_try_from reservation_id)) (\<lambda>i.
     bind_res (stored (statement E SelectReservation)) (\<lambda>_.
     case map_of (sl_reservations L) i of
       None \<Rightarrow> Inl (Storage QueryReturnedNoRows)
     | Some r \<Rightarrow>
         bind_res (stored (bounded_receipt E L scope i)) (\<lambda>receipt.
         if rr_scope r \<noteq> scope then Inl WrongScope
         else
           (case receipt of
              None \<Rightarrow>
                if rr_settled r = 0 \<and> rr_actual r = 0 \<and> rr_settled_at r = None then Inr None
                else if rr_settled r = 1 then Inl LegacySettlement
                else Inl InconsistentSettlement
            | Some receipt \<Rightarrow>
                if rr_settled r = 1 \<and> receipt_matches scope reservation_id charge r receipt
                then Inr (Some receipt) else Inl InconsistentSettlement))))"

text \<open>The statements that settle a reservation and store its receipt.\<close>

definition settle_updated :: "sqlite_ledger \<Rightarrow> int \<Rightarrow> nat" where
  "settle_updated L i = length (filter (\<lambda>(j, r). j = i \<and> rr_settled r = 0) (sl_reservations L))"

definition insert_receipt ::
  "engine \<Rightarrow> sqlite_ledger \<Rightarrow> string \<Rightarrow> outbox_row \<Rightarrow> sql_error + sqlite_ledger" where
  "insert_receipt E L receipt_id row =
     bind_res (statement E InsertReceipt) (\<lambda>_.
     if map_of (sl_outbox L) receipt_id \<noteq> None \<or> find_receipt L (ob_reservation_id row) \<noteq> None \<or>
        ob_reservation_id row \<le> 0 \<or> ob_charged_tokens row < 0
     then Inl ConstraintViolation
     else Inr (L\<lparr>sl_outbox := sl_outbox L @ [(receipt_id, row)]\<rparr>))"

definition settle_receipt ::
  "engine \<Rightarrow> u8 list option \<Rightarrow> instant \<Rightarrow> sqlite_ledger \<Rightarrow> string \<Rightarrow> int \<Rightarrow> int \<Rightarrow>
     evidence_error + settlement_outcome \<times> sqlite_ledger" where
  "settle_receipt E entropy now_utc L scope i charge =
     bind_res (stored (statement E SelectReceipt)) (\<lambda>_.
     case find_receipt L i of
       Some p \<Rightarrow>
         bind_res (stored (receipt_of p)) (\<lambda>existing.
         if sr_scope existing \<noteq> scope then Inl WrongScope
         else if sr_charged_tokens existing \<noteq> word_of_int charge then Inl ConflictingCharge
         else Inr (AlreadyCommitted existing, L))
     | None \<Rightarrow>
         bind_res (stored (statement E SelectReservation)) (\<lambda>_.
         case map_of (sl_reservations L) i of
           None \<Rightarrow> Inl MissingReservation
         | Some r \<Rightarrow>
             if rr_scope r \<noteq> scope then Inl WrongScope
             else if rr_settled r \<noteq> 0 then Inl LegacySettlement
             else
               bind_res (opaque_id entropy) (\<lambda>receipt_id.
               let settled_at = unix_timestamp now_utc in
               bind_res (stored (statement E SettleWithReceipt)) (\<lambda>_.
               if settle_updated L i \<noteq> 1 then Inl (Storage QueryReturnedNoRows)
               else
                 bind_res (stored (insert_receipt E (settle_row L i charge settled_at) receipt_id
                     \<lparr>ob_reservation_id = i, ob_scope = scope, ob_charged_tokens = charge,
                      ob_settled_at = settled_at, ob_claim_token = None, ob_claim_until = None,
                      ob_acknowledged_at = None\<rparr>)) (\<lambda>L'.
                 Inr (Committed \<lparr>sr_receipt_id = receipt_id, sr_reservation_id = word_of_int i,
                                 sr_scope = scope, sr_charged_tokens = word_of_int charge,
                                 sr_settled_at = settled_at\<rparr>, L'))))))"

end
