(* ===== verification/Dispatch.thy ===== *)
theory Dispatch
  imports Evidence_Base
begin

text \<open>
  \<^verbatim>\<open>crates/sandhi-store/src/ledger/evidence/dispatch.rs\<close>: the durable dispatch fence of
  an execution. A prepared execution is authorized once, by the transaction that gets the permit,
  or closed once before dispatch. The clock is an argument.
\<close>

section \<open>Data\<close>

record pre_dispatch_closure =
  pc_execution_id :: string
  pc_reservation_id :: u64
  pc_scope :: string
  pc_closed_at :: int

record dispatch_permit =
  dp_execution_id :: string

datatype fence =
    Prepared
  | FenceAuthorized
  | FenceClosed pre_dispatch_closure

datatype dispatch_outcome =
    Authorized dispatch_permit
  | MayHaveDispatched
  | ClosedBeforeDispatch pre_dispatch_closure

datatype closure_outcome =
    Closed pre_dispatch_closure
  | AlreadyClosed pre_dispatch_closure
  | ClosureMayHaveDispatched

section \<open>Reading the fence\<close>

definition checked_fence ::
  "calendar \<Rightarrow> usage_codec \<Rightarrow> engine \<Rightarrow> sqlite_ledger \<Rightarrow> string \<Rightarrow> string \<Rightarrow> u64 \<Rightarrow>
     evidence_error + fence option" where
  "checked_fence K C E L scope execution_id reservation_id =
     bind_res (stored (statement E SelectFence)) (\<lambda>_.
     case map_of (sl_fences L) execution_id of
       None \<Rightarrow> Inr None
     | Some row \<Rightarrow>
         if is_some_and (f_transitioned_at row) (\<lambda>ts. from_unix_timestamp K ts = None)
         then Inl InconsistentDispatch
         else
           bind_res (stored (i64_try_from reservation_id)) (\<lambda>i.
           bind_res (stored (statement E SelectReservation)) (\<lambda>_.
           case map_of (sl_reservations L) i of
             None \<Rightarrow> Inl InconsistentDispatch
           | Some r \<Rightarrow>
               if rr_scope r \<noteq> scope then Inl WrongScope
               else
                 bind_res (read_observation C E L execution_id reservation_id scope) (\<lambda>observed.
                 bind_res (stored (statement E SelectReceipt)) (\<lambda>_.
                 let has_receipt = (find_receipt L i \<noteq> None) in
                 if f_phase row = 0 \<and> f_transitioned_at row = None \<and> rr_settled r = 0 \<and>
                    rr_actual r = 0 \<and> rr_settled_at r = None \<and> observed = None \<and> \<not> has_receipt
                 then Inr (Some Prepared)
                 else if f_phase row = 1 \<and> f_transitioned_at row \<noteq> None
                 then
                   bind_res (resolved_charge observed) (\<lambda>charge.
                   bind_res (checked_terminal_receipt E L scope reservation_id charge) (\<lambda>_.
                   Inr (Some FenceAuthorized)))
                 else
                   (case f_transitioned_at row of
                      Some closed_at \<Rightarrow>
                        if f_phase row = 2 \<and> rr_settled r = 1 \<and> rr_actual r = 0 \<and>
                           rr_settled_at r = Some closed_at \<and> observed = None \<and> \<not> has_receipt
                        then Inr (Some (FenceClosed
                          \<lparr>pc_execution_id = execution_id, pc_reservation_id = reservation_id,
                           pc_scope = scope, pc_closed_at = closed_at\<rparr>))
                        else Inl InconsistentDispatch
                    | None \<Rightarrow> Inl InconsistentDispatch))))))"

definition require_observable ::
  "calendar \<Rightarrow> usage_codec \<Rightarrow> engine \<Rightarrow> sqlite_ledger \<Rightarrow> string \<Rightarrow> string \<Rightarrow> u64 \<Rightarrow>
     evidence_error + unit" where
  "require_observable K C E L scope execution_id reservation_id =
     bind_res (checked_fence K C E L scope execution_id reservation_id) (\<lambda>fence.
     if fence = None \<or> fence = Some FenceAuthorized then Inr () else Inl DispatchNotAuthorized)"

section \<open>The transition\<close>

definition set_phase :: "sqlite_ledger \<Rightarrow> string \<Rightarrow> int \<Rightarrow> int \<Rightarrow> sqlite_ledger" where
  "set_phase L execution_id phase ts =
     L\<lparr>sl_fences :=
         map (\<lambda>(x, row).
           if x = execution_id \<and> f_phase row = 0
           then (x, \<lparr>f_phase = phase, f_transitioned_at = Some ts\<rparr>) else (x, row)) (sl_fences L)\<rparr>"

definition phase_updated :: "sqlite_ledger \<Rightarrow> string \<Rightarrow> nat" where
  "phase_updated L execution_id =
     length (filter (\<lambda>(x, row). x = execution_id \<and> f_phase row = 0) (sl_fences L))"

text \<open>An authorization is refused once the reservation has expired.\<close>

definition dispatch_in_time ::
  "calendar \<Rightarrow> engine \<Rightarrow> sqlite_ledger \<Rightarrow> u64 \<Rightarrow> int \<Rightarrow> evidence_error + unit" where
  "dispatch_in_time K E L reservation_id now =
     bind_res (stored (i64_try_from reservation_id)) (\<lambda>i.
     bind_res (stored (statement E SelectExpiry)) (\<lambda>_.
     case map_of (sl_reservations L) i of
       None \<Rightarrow> Inl (Storage QueryReturnedNoRows)
     | Some r \<Rightarrow>
         if from_unix_timestamp K (rr_expires_at r) = None then Inl InconsistentDispatch
         else if rr_expires_at r \<le> now then Inl ExpiredBeforeDispatch
         else Inr ()))"

definition close_reservation ::
  "engine \<Rightarrow> sqlite_ledger \<Rightarrow> string \<Rightarrow> string \<Rightarrow> u64 \<Rightarrow> int \<Rightarrow>
     evidence_error + (fence \<times> bool) \<times> sqlite_ledger" where
  "close_reservation E L scope execution_id reservation_id now =
     bind_res (stored (i64_try_from reservation_id)) (\<lambda>i.
     bind_res (stored (statement E CloseReservation)) (\<lambda>_.
     if settle_updated L i \<noteq> 1 then Inl InconsistentDispatch
     else Inr ((FenceClosed \<lparr>pc_execution_id = execution_id, pc_reservation_id = reservation_id,
                             pc_scope = scope, pc_closed_at = now\<rparr>, True),
               settle_row L i 0 now)))"

text \<open>The change of a fence found prepared.\<close>

definition leave_prepared ::
  "calendar \<Rightarrow> engine \<Rightarrow> int \<Rightarrow> sqlite_ledger \<Rightarrow> string \<Rightarrow> string \<Rightarrow> u64 \<Rightarrow> bool \<Rightarrow>
     evidence_error + (fence \<times> bool) \<times> sqlite_ledger" where
  "leave_prepared K E now L scope execution_id reservation_id authorize =
     bind_res (if authorize then dispatch_in_time K E L reservation_id now else Inr ()) (\<lambda>_.
     bind_res (stored (statement E UpdateFence)) (\<lambda>_.
     if phase_updated L execution_id \<noteq> 1 then Inl InconsistentDispatch
     else
       let L' = set_phase L execution_id (if authorize then 1 else 2) now in
       if authorize then Inr ((FenceAuthorized, True), L')
       else close_reservation E L' scope execution_id reservation_id now))"

definition transition ::
  "calendar \<Rightarrow> usage_codec \<Rightarrow> engine \<Rightarrow> instant \<Rightarrow> sqlite_ledger \<Rightarrow> string \<Rightarrow> string \<Rightarrow> bool \<Rightarrow>
     evidence_error + (fence \<times> bool) \<times> sqlite_ledger" where
  "transition K C E now_utc L scope execution_id authorize =
     bind_res (intent_binding E L execution_id) (\<lambda>binding.
     case binding of
       None \<Rightarrow>
         bind_res (stored (statement E SelectFenced)) (\<lambda>_.
         if map_of (sl_fences L) execution_id \<noteq> None then Inl InconsistentDispatch
         else Inl MissingIntent)
     | Some (reservation_id, stored_scope, _) \<Rightarrow>
         if stored_scope \<noteq> scope then Inl WrongScope
         else
           bind_res (checked_fence K C E L scope execution_id reservation_id) (\<lambda>fence.
           case fence of
             None \<Rightarrow> Inl UnfencedIntent
           | Some fence \<Rightarrow>
               if fence \<noteq> Prepared then Inr ((fence, False), L)
               else leave_prepared K E (unix_timestamp now_utc) L scope execution_id reservation_id
                      authorize))"

section \<open>The operations\<close>

text \<open>The value returned is computed after the commit.\<close>

definition committed ::
  "evidence_error + 'a \<times> sqlite_ledger \<Rightarrow> evidence_error + 'a \<times> sqlite_ledger option" where
  "committed r = map_sum (\<lambda>e. e) (\<lambda>(v, L). (v, Some L)) r"

definition permit_outcome :: "string \<Rightarrow> fence \<times> bool \<Rightarrow> evidence_error + dispatch_outcome" where
  "permit_outcome execution_id = (\<lambda>(fence, changed).
     case fence of
       FenceAuthorized \<Rightarrow>
         if changed then Inr (Authorized \<lparr>dp_execution_id = execution_id\<rparr>)
         else Inr MayHaveDispatched
     | FenceClosed closure \<Rightarrow> Inr (ClosedBeforeDispatch closure)
     | Prepared \<Rightarrow> Inl InconsistentDispatch)"

definition closure_outcome_of :: "fence \<times> bool \<Rightarrow> evidence_error + closure_outcome" where
  "closure_outcome_of = (\<lambda>(fence, changed).
     case fence of
       FenceClosed closure \<Rightarrow> if changed then Inr (Closed closure) else Inr (AlreadyClosed closure)
     | FenceAuthorized \<Rightarrow> Inr ClosureMayHaveDispatched
     | Prepared \<Rightarrow> Inl InconsistentDispatch)"

definition authorize_dispatch_durable ::
  "calendar \<Rightarrow> usage_codec \<Rightarrow> engine \<Rightarrow> instant \<Rightarrow> sqlite_ledger \<Rightarrow> string \<Rightarrow> string \<Rightarrow>
     (evidence_error + dispatch_outcome) \<times> sqlite_ledger" where
  "authorize_dispatch_durable K C E now_utc L scope execution_id =
     (case bind_res (validate_scope scope) (\<lambda>_. validate_execution_id execution_id) of
        Inl e \<Rightarrow> (Inl e, L)
      | Inr _ \<Rightarrow>
          (case transaction E Storage
              (\<lambda>L. committed (transition K C E now_utc L scope execution_id True)) L of
             (Inl e, L) \<Rightarrow> (Inl e, L)
           | (Inr r, L) \<Rightarrow> (permit_outcome execution_id r, L)))"

definition close_before_dispatch_durable ::
  "calendar \<Rightarrow> usage_codec \<Rightarrow> engine \<Rightarrow> instant \<Rightarrow> sqlite_ledger \<Rightarrow> string \<Rightarrow> string \<Rightarrow>
     (evidence_error + closure_outcome) \<times> sqlite_ledger" where
  "close_before_dispatch_durable K C E now_utc L scope execution_id =
     (case bind_res (validate_scope scope) (\<lambda>_. validate_execution_id execution_id) of
        Inl e \<Rightarrow> (Inl e, L)
      | Inr _ \<Rightarrow>
          (case transaction E Storage
              (\<lambda>L. committed (transition K C E now_utc L scope execution_id False)) L of
             (Inl e, L) \<Rightarrow> (Inl e, L)
           | (Inr r, L) \<Rightarrow> (closure_outcome_of r, L)))"

end
