(* ===== verification/Evidence.thy ===== *)
theory Evidence
  imports Dispatch
begin

text \<open>
  \<^verbatim>\<open>crates/sandhi-store/src/ledger/evidence.rs\<close>, second part: admission with an execution
  intent, the terminal usage observation, settlement with a receipt, the receipt outbox, and the
  recovery inventory.
\<close>

section \<open>Tracked admission\<close>

definition insert_intent ::
  "engine \<Rightarrow> sqlite_ledger \<Rightarrow> string \<Rightarrow> u64 \<Rightarrow> int \<Rightarrow> sql_error + sqlite_ledger" where
  "insert_intent E L execution_id reservation_id created_at =
     bind_res (i64_try_from reservation_id) (\<lambda>i.
     bind_res (statement E InsertIntent) (\<lambda>_.
     if map_of (sl_intents L) execution_id \<noteq> None \<or> is_tracked L i \<or> i \<le> 0
     then Inl ConstraintViolation
     else Inr (L\<lparr>sl_intents := sl_intents L @
                   [(execution_id, \<lparr>in_reservation_id = i, in_created_at = created_at\<rparr>)]\<rparr>)))"

definition insert_fence :: "engine \<Rightarrow> sqlite_ledger \<Rightarrow> string \<Rightarrow> sql_error + sqlite_ledger" where
  "insert_fence E L execution_id =
     bind_res (statement E InsertFence) (\<lambda>_.
     if map_of (sl_fences L) execution_id \<noteq> None then Inl ConstraintViolation
     else Inr (L\<lparr>sl_fences := sl_fences L @
                   [(execution_id, \<lparr>f_phase = 0, f_transitioned_at = None\<rparr>)]\<rparr>))"

definition insert_correlation ::
  "engine \<Rightarrow> sqlite_ledger \<Rightarrow> string \<Rightarrow> string \<Rightarrow> sql_error + sqlite_ledger" where
  "insert_correlation E L execution_id request_id =
     bind_res (statement E InsertCorrelation) (\<lambda>_.
     if map_of (sl_correlations L) execution_id \<noteq> None \<or> request_id = [] \<or> length request_id > 4096
     then Inl ConstraintViolation
     else Inr (L\<lparr>sl_correlations := sl_correlations L @ [(execution_id, request_id)]\<rparr>))"

text \<open>The body of the admission transaction, from the count of retained intents on.\<close>

definition admit_intent ::
  "calendar \<Rightarrow> engine \<Rightarrow> sqlite_ledger \<Rightarrow> string \<Rightarrow> string \<Rightarrow> u64 \<Rightarrow> instant \<Rightarrow> duration \<Rightarrow> nat \<Rightarrow>
     bool \<Rightarrow> string option \<Rightarrow> evidence_error + intent_admission \<times> sqlite_ledger option" where
  "admit_intent K E L execution_id scope ceil now ttl retained_limit prepared request_id =
     bind_res (stored (statement E CountIntents)) (\<lambda>_.
     if length (sl_intents L) \<ge> retained_limit then Inl IntentCapacity
     else
       bind_res (stored (reserve_in_transaction K E L scope ceil now ttl)) (\<lambda>(outcome, L).
       case outcome of
         Denied denied \<Rightarrow> Inr (IntentDenied denied, None)
       | Admitted reservation \<Rightarrow>
           bind_res (stored (insert_intent E L execution_id (r_id reservation)
               (unix_timestamp now))) (\<lambda>L.
           bind_res (if prepared then stored (insert_fence E L execution_id) else Inr L) (\<lambda>L.
           bind_res (case request_id of
               Some request_id \<Rightarrow> stored (insert_correlation E L execution_id request_id)
             | None \<Rightarrow> Inr L) (\<lambda>L.
           Inr (IntentAdmitted \<lparr>ei_execution_id = execution_id, ei_reservation = reservation\<rparr>,
                Some L))))))"

definition reserve_intent ::
  "calendar \<Rightarrow> engine \<Rightarrow> u8 list option \<Rightarrow> sqlite_ledger \<Rightarrow> string \<Rightarrow> u64 \<Rightarrow> instant \<Rightarrow> duration \<Rightarrow>
     nat \<Rightarrow> bool \<Rightarrow> string option \<Rightarrow> (evidence_error + intent_admission) \<times> sqlite_ledger" where
  "reserve_intent K E entropy L scope ceil now ttl retained_limit prepared request_id =
     (if \<not> (1 \<le> retained_limit \<and> retained_limit \<le> 100000) \<or> scope = [] \<or> length scope > 4096 \<or>
         unat ceil > 2 ^ 63 - 1 \<or> ttl \<le> 0 \<or> checked_add_time K now ttl = None
      then (Inl InvalidInput, L)
      else
        (case opaque_id entropy of
           Inl e \<Rightarrow> (Inl e, L)
         | Inr execution_id \<Rightarrow>
             transaction E Storage
               (\<lambda>L. admit_intent K E L execution_id scope ceil now ttl retained_limit prepared
                      request_id) L))"

definition reserve_with_intent_durable ::
  "calendar \<Rightarrow> engine \<Rightarrow> u8 list option \<Rightarrow> sqlite_ledger \<Rightarrow> string \<Rightarrow> u64 \<Rightarrow> instant \<Rightarrow> duration \<Rightarrow>
     nat \<Rightarrow> (evidence_error + intent_admission) \<times> sqlite_ledger" where
  "reserve_with_intent_durable K E entropy L scope ceil now ttl retained_limit =
     reserve_intent K E entropy L scope ceil now ttl retained_limit False None"

definition reserve_prepared_durable ::
  "calendar \<Rightarrow> engine \<Rightarrow> u8 list option \<Rightarrow> sqlite_ledger \<Rightarrow> string \<Rightarrow> u64 \<Rightarrow> instant \<Rightarrow> duration \<Rightarrow>
     nat \<Rightarrow> (evidence_error + intent_admission) \<times> sqlite_ledger" where
  "reserve_prepared_durable K E entropy L scope ceil now ttl retained_limit =
     (if \<not> is_file_backed L then (Inl UnsupportedTrackedLedger, L)
      else reserve_intent K E entropy L scope ceil now ttl retained_limit True None)"

definition reserve_correlated_durable ::
  "calendar \<Rightarrow> engine \<Rightarrow> u8 list option \<Rightarrow> sqlite_ledger \<Rightarrow> string \<Rightarrow> u64 \<Rightarrow> instant \<Rightarrow> duration \<Rightarrow>
     nat \<Rightarrow> string \<Rightarrow> (evidence_error + intent_admission) \<times> sqlite_ledger" where
  "reserve_correlated_durable K E entropy L scope ceil now ttl retained_limit request_id =
     (if \<not> is_file_backed L then (Inl UnsupportedTrackedLedger, L)
      else if request_id = [] \<or> length request_id > 4096 then (Inl InvalidInput, L)
      else reserve_intent K E entropy L scope ceil now ttl retained_limit True (Some request_id))"

definition intent_durable ::
  "calendar \<Rightarrow> engine \<Rightarrow> sqlite_ledger \<Rightarrow> string \<Rightarrow> evidence_error + execution_intent option" where
  "intent_durable K E L execution_id =
     bind_res (validate_execution_id execution_id) (\<lambda>_.
     bind_res (stored (statement E SelectIntent)) (\<lambda>_.
     case Option.bind (map_of (sl_intents L) execution_id)
            (\<lambda>t. map_option (\<lambda>r. (in_reservation_id t, r)) (map_of (sl_reservations L) (in_reservation_id t))) of
       None \<Rightarrow> Inr None
     | Some (i, r) \<Rightarrow>
         bind_res (stored (get_u64 i)) (\<lambda>i.
         bind_res (stored (get_u64 (rr_ceiling r))) (\<lambda>ceil.
         case from_unix_timestamp K (rr_expires_at r) of
           None \<Rightarrow> Inl InvalidInput
         | Some expires_at \<Rightarrow>
             Inr (Some \<lparr>ei_execution_id = execution_id,
                        ei_reservation = \<lparr>r_id = i, r_scope = rr_scope r, r_ceiling = ceil,
                                          r_expires_at = expires_at\<rparr>\<rparr>)))))"

definition request_id_durable ::
  "calendar \<Rightarrow> engine \<Rightarrow> sqlite_ledger \<Rightarrow> string \<Rightarrow> string \<Rightarrow> evidence_error + string option" where
  "request_id_durable K E L scope execution_id =
     bind_res (validate_scope scope) (\<lambda>_.
     bind_res (intent_durable K E L execution_id) (\<lambda>intent.
     case intent of
       None \<Rightarrow> Inl MissingIntent
     | Some intent \<Rightarrow>
         if r_scope (ei_reservation intent) \<noteq> scope then Inl WrongScope
         else
           bind_res (stored (statement E SelectCorrelation)) (\<lambda>_.
           let v = map_of (sl_correlations L) execution_id in
           if is_some_and v (\<lambda>v. v = [] \<or> length v > 4096) then Inl CorruptObservation
           else Inr v)))"

section \<open>Terminal observations\<close>

definition frozen_charge_of :: "usage_v2 \<Rightarrow> u32 \<Rightarrow> u64 option" where
  "frozen_charge_of usage cache_read_bp =
     (case u_completeness usage of
        Unavailable \<Rightarrow> None
      | Final \<Rightarrow> Some (billable_weighted usage cache_read_bp)
      | Partial \<Rightarrow> Some (billable_weighted usage cache_read_bp))"

definition insert_observation ::
  "engine \<Rightarrow> sqlite_ledger \<Rightarrow> string \<Rightarrow> observation_row \<Rightarrow> sql_error + sqlite_ledger" where
  "insert_observation E L execution_id row =
     bind_res (statement E InsertObservation) (\<lambda>_.
     if map_of (sl_observations L) execution_id \<noteq> None \<or> to_version row \<noteq> 1 \<or>
        length (to_usage_json row) > 16384 \<or> is_some_and (to_frozen_charge row) (\<lambda>c. c < 0)
     then Inl ConstraintViolation
     else Inr (L\<lparr>sl_observations := sl_observations L @ [(execution_id, row)]\<rparr>))"

text \<open>The bound intent of a call on an execution, in the caller's scope and observable.\<close>

definition observable_binding ::
  "calendar \<Rightarrow> usage_codec \<Rightarrow> engine \<Rightarrow> sqlite_ledger \<Rightarrow> string \<Rightarrow> string \<Rightarrow>
     evidence_error + u64 \<times> bool" where
  "observable_binding K C E L scope execution_id =
     bind_res (intent_binding E L execution_id) (\<lambda>binding.
     case binding of
       None \<Rightarrow> Inl MissingIntent
     | Some (reservation_id, stored_scope, settled) \<Rightarrow>
         if stored_scope \<noteq> scope then Inl WrongScope
         else
           bind_res (require_observable K C E L scope execution_id reservation_id) (\<lambda>_.
           Inr (reservation_id, settled)))"

definition record_terminal_body ::
  "calendar \<Rightarrow> usage_codec \<Rightarrow> engine \<Rightarrow> instant \<Rightarrow> sqlite_ledger \<Rightarrow> string \<Rightarrow> string \<Rightarrow> usage_v2 \<Rightarrow>
     u32 \<Rightarrow> string \<Rightarrow> evidence_error + observation_outcome \<times> sqlite_ledger option" where
  "record_terminal_body K C E now_utc L scope execution_id usage cache_read_bp encoded =
     bind_res (observable_binding K C E L scope execution_id) (\<lambda>(reservation_id, settled).
     bind_res (read_observation C E L execution_id reservation_id scope) (\<lambda>original.
     case original of
       Some original \<Rightarrow>
         if t_usage original \<noteq> usage then Inl ConflictingObservation
         else Inr (AlreadyRecorded original, None)
     | None \<Rightarrow>
         if settled then Inl AlreadySettled
         else
           let frozen_charge = frozen_charge_of usage cache_read_bp;
               observed_at = unix_timestamp now_utc in
           if is_some_and frozen_charge (\<lambda>c. unat c \<ge> 2 ^ 63) then Inl InvalidInput
           else
             bind_res (stored (insert_observation E L execution_id
                 \<lparr>to_version = 1, to_usage_json = encoded,
                  to_frozen_charge = map_option uint frozen_charge, to_observed_at = observed_at\<rparr>)) (\<lambda>L.
             Inr (Recorded \<lparr>t_version = 1, t_execution_id = execution_id,
                            t_reservation_id = reservation_id, t_scope = scope, t_usage = usage,
                            t_frozen_charge = frozen_charge, t_observed_at = observed_at\<rparr>,
                  Some L))))"

definition record_terminal_durable ::
  "calendar \<Rightarrow> usage_codec \<Rightarrow> engine \<Rightarrow> instant \<Rightarrow> sqlite_ledger \<Rightarrow> string \<Rightarrow> string \<Rightarrow> usage_v2 \<Rightarrow>
     u32 \<Rightarrow> (evidence_error + observation_outcome) \<times> sqlite_ledger" where
  "record_terminal_durable K C E now_utc L scope execution_id usage cache_read_bp =
     (case bind_res (validate_scope scope) (\<lambda>_.
           bind_res (validate_execution_id execution_id) (\<lambda>_. encode_usage C usage)) of
        Inl e \<Rightarrow> (Inl e, L)
      | Inr encoded \<Rightarrow>
          transaction E Storage
            (\<lambda>L. record_terminal_body K C E now_utc L scope execution_id usage cache_read_bp
                   encoded) L)"

definition terminal_durable ::
  "usage_codec \<Rightarrow> engine \<Rightarrow> sqlite_ledger \<Rightarrow> string \<Rightarrow> string \<Rightarrow>
     evidence_error + terminal_observation option" where
  "terminal_durable C E L scope execution_id =
     bind_res (validate_scope scope) (\<lambda>_.
     bind_res (validate_execution_id execution_id) (\<lambda>_.
     bind_res (intent_binding E L execution_id) (\<lambda>binding.
     case binding of
       None \<Rightarrow> Inr None
     | Some (reservation_id, stored_scope, _) \<Rightarrow>
         if stored_scope \<noteq> scope then Inl WrongScope
         else read_observation C E L execution_id reservation_id scope)))"

section \<open>Settlement\<close>

definition settle_terminal_body ::
  "calendar \<Rightarrow> usage_codec \<Rightarrow> engine \<Rightarrow> u8 list option \<Rightarrow> instant \<Rightarrow> sqlite_ledger \<Rightarrow> string \<Rightarrow>
     string \<Rightarrow> evidence_error + settlement_outcome \<times> sqlite_ledger" where
  "settle_terminal_body K C E entropy now_utc L scope execution_id =
     bind_res (observable_binding K C E L scope execution_id) (\<lambda>(reservation_id, _).
     bind_res (read_observation C E L execution_id reservation_id scope) (\<lambda>observed.
     case observed of
       None \<Rightarrow> Inl MissingObservation
     | Some observed \<Rightarrow>
         if unat reservation_id \<ge> 2 ^ 63 then Inl CorruptObservation
         else
           bind_res (terminal_charge observed) (\<lambda>charge.
           bind_res (checked_terminal_receipt E L scope reservation_id (Some charge)) (\<lambda>_.
           settle_receipt E entropy now_utc L scope (uint reservation_id) charge))))"

definition settle_terminal_durable ::
  "calendar \<Rightarrow> usage_codec \<Rightarrow> engine \<Rightarrow> u8 list option \<Rightarrow> instant \<Rightarrow> sqlite_ledger \<Rightarrow> string \<Rightarrow>
     string \<Rightarrow> (evidence_error + settlement_outcome) \<times> sqlite_ledger" where
  "settle_terminal_durable K C E entropy now_utc L scope execution_id =
     (case bind_res (validate_scope scope) (\<lambda>_. validate_execution_id execution_id) of
        Inl e \<Rightarrow> (Inl e, L)
      | Inr _ \<Rightarrow>
          transaction E Storage
            (\<lambda>L. committed (settle_terminal_body K C E entropy now_utc L scope execution_id)) L)"

definition settle_with_evidence_durable ::
  "engine \<Rightarrow> u8 list option \<Rightarrow> instant \<Rightarrow> sqlite_ledger \<Rightarrow> string \<Rightarrow> u64 \<Rightarrow> u64 \<Rightarrow>
     (evidence_error + settlement_outcome) \<times> sqlite_ledger" where
  "settle_with_evidence_durable E entropy now_utc L scope reservation_id charged_tokens =
     (if unat reservation_id \<ge> 2 ^ 63 \<or> unat charged_tokens \<ge> 2 ^ 63 \<or> reservation_id = 0
      then (Inl InvalidInput, L)
      else
        transaction E Storage
          (\<lambda>L. bind_res (stored (statement E SelectTracked)) (\<lambda>_.
               if is_tracked L (uint reservation_id) then Inl TrackedSettlementRequired
               else committed (settle_receipt E entropy now_utc L scope (uint reservation_id)
                      (uint charged_tokens)))) L)"

section \<open>The receipt outbox\<close>

definition claimable :: "int \<Rightarrow> string \<times> outbox_row \<Rightarrow> bool" where
  "claimable now = (\<lambda>(_, row).
     ob_acknowledged_at row = None \<and>
     (case ob_claim_until row of None \<Rightarrow> True | Some until \<Rightarrow> until \<le> now))"

definition pending_receipts :: "sqlite_ledger \<Rightarrow> int \<Rightarrow> nat \<Rightarrow> (string \<times> outbox_row) list" where
  "pending_receipts L now limit =
     take limit (sort_key (\<lambda>(receipt_id, row). (ob_settled_at row, receipt_id))
       (filter (claimable now) (sl_outbox L)))"

text \<open>\<open>entropy k\<close> is what the random source gives the \<open>k\<close>-th draw of the call.\<close>

fun claim_each ::
  "engine \<Rightarrow> (nat \<Rightarrow> u8 list option) \<Rightarrow> nat \<Rightarrow> int \<Rightarrow> sqlite_ledger \<Rightarrow> settlement_receipt list \<Rightarrow>
     evidence_error + claimed_settlement list \<times> sqlite_ledger" where
  "claim_each E entropy k until L [] = Inr ([], L)"
| "claim_each E entropy k until L (receipt # pending) =
     bind_res (opaque_id (entropy k)) (\<lambda>claim_token.
     bind_res (stored (statement E ClaimReceipt)) (\<lambda>_.
     case map_of (sl_outbox L) (sr_receipt_id receipt) of
       None \<Rightarrow> Inl (Storage QueryReturnedNoRows)
     | Some row \<Rightarrow>
         let L = L\<lparr>sl_outbox := AList.update (sr_receipt_id receipt)
                      (row\<lparr>ob_claim_token := Some claim_token, ob_claim_until := Some until\<rparr>)
                      (sl_outbox L)\<rparr> in
         bind_res (claim_each E entropy (Suc k) until L pending) (\<lambda>(claims, L).
         Inr (\<lparr>cl_receipt = receipt, cl_claim_token = claim_token, cl_lease_until = until\<rparr> # claims,
              L))))"

fun read_receipts :: "(string \<times> outbox_row) list \<Rightarrow> sql_error + settlement_receipt list" where
  "read_receipts [] = Inr []"
| "read_receipts (p # ps) =
     bind_res (receipt_of p) (\<lambda>receipt. bind_res (read_receipts ps) (\<lambda>rs. Inr (receipt # rs)))"

definition claim_settlements_durable ::
  "engine \<Rightarrow> (nat \<Rightarrow> u8 list option) \<Rightarrow> sqlite_ledger \<Rightarrow> nat \<Rightarrow> instant \<Rightarrow> u32 \<Rightarrow>
     (evidence_error + claimed_settlement list) \<times> sqlite_ledger" where
  "claim_settlements_durable E entropy L limit now lease_seconds =
     (if \<not> (1 \<le> limit \<and> limit \<le> 1000) \<or> \<not> (1 \<le> unat lease_seconds \<and> unat lease_seconds \<le> 3600)
      then (Inl InvalidInput, L)
      else
        let now = unix_timestamp now;
            until = now + uint lease_seconds in
        if \<not> in_i64 until then (Inl InvalidInput, L)
        else
          transaction E Storage
            (\<lambda>L. bind_res (stored (statement E SelectPending)) (\<lambda>_.
                 bind_res (stored (read_receipts (pending_receipts L now limit))) (\<lambda>pending.
                 committed (claim_each E entropy 0 until L pending)))) L)"

definition acknowledgeable :: "string \<Rightarrow> int \<Rightarrow> outbox_row \<Rightarrow> bool" where
  "acknowledgeable claim_token now row \<longleftrightarrow>
     ob_claim_token row = Some claim_token \<and>
     is_some_and (ob_claim_until row) (\<lambda>until. until > now) \<and> ob_acknowledged_at row = None"

definition acknowledge_settlement_durable ::
  "engine \<Rightarrow> sqlite_ledger \<Rightarrow> string \<Rightarrow> string \<Rightarrow> instant \<Rightarrow>
     (evidence_error + bool) \<times> sqlite_ledger" where
  "acknowledge_settlement_durable E L receipt_id claim_token now =
     (let ts = unix_timestamp now;
          (r, L) =
            (case map_of (sl_outbox L) receipt_id of
               Some row \<Rightarrow>
                 if acknowledgeable claim_token ts row
                 then autocommit E AcknowledgeReceipt L
                        (L\<lparr>sl_outbox := AList.update receipt_id
                             (row\<lparr>ob_acknowledged_at := Some ts\<rparr>) (sl_outbox L)\<rparr>) True
                 else autocommit E AcknowledgeReceipt L L False
             | None \<Rightarrow> autocommit E AcknowledgeReceipt L L False)
      in (stored r, L))"

end
