(* ===== verification/Evidence_Effects.thy ===== *)
theory Evidence_Effects
  imports Evidence
begin

text \<open>
  The states that the transactions of the evidence module commit, as elimination rules.
\<close>

section \<open>Identities\<close>

text \<open>A generated identity passes the validation of identities.\<close>

lemma hex_digit_valid: "k < 16 \<Longrightarrow> is_ascii_hexdigit (''0123456789abcdef'' ! k)"
proof -
  assume "k < 16"
  have "list_all is_ascii_hexdigit ''0123456789abcdef''" by (simp add: is_ascii_hexdigit_def)
  with \<open>k < 16\<close> show ?thesis by (simp add: list_all_length)
qed

lemma hex_digits_valid: "list_all is_ascii_hexdigit (hex_digits b)" "length (hex_digits b) = 2"
proof -
  have "unat b < 256" using unat_lt_pow [of b] by simp
  then have "unat b div 16 < 16" by simp
  then show "list_all is_ascii_hexdigit (hex_digits b)" "length (hex_digits b) = 2"
    by (simp_all add: hex_digits_def hex_digit_valid)
qed

lemma opaque_id_valid:
  assumes "opaque_id (Some bytes) = Inr x" and "length bytes = 32"
  shows "validate_execution_id x = Inr ()"
proof -
  have "length (concat (map hex_digits bytes)) = 2 * length bytes"
    by (induction bytes) (simp_all add: hex_digits_valid)
  moreover have "list_all is_ascii_hexdigit (concat (map hex_digits bytes))"
    using hex_digits_valid(1) by (induction bytes) simp_all
  ultimately show ?thesis using assms by (simp add: opaque_id_def validate_execution_id_def)
qed

section \<open>Effects of the transactions\<close>

lemma map_of_map_key:
  "map_of (map (\<lambda>(k, v). if k = i \<and> P v then (k, u v) else (k, v)) xs) j =
     map_option (\<lambda>v. if j = i \<and> P v then u v else v) (map_of xs j)"
  by (induction xs) auto

lemma map_of_settle_row:
  "map_of (sl_reservations (settle_row L i a t)) j =
     map_option (\<lambda>r. if j = i \<and> rr_settled r = 0
       then r\<lparr>rr_actual := a, rr_settled := 1, rr_settled_at := Some t\<rparr> else r)
       (map_of (sl_reservations L) j)"
  by (simp add: settle_row_def map_of_map_key)

lemma map_of_set_phase:
  "map_of (sl_fences (set_phase L x p t)) y =
     map_option (\<lambda>row. if y = x \<and> f_phase row = 0
       then \<lparr>f_phase = p, f_transitioned_at = Some t\<rparr> else row) (map_of (sl_fences L) y)"
  by (simp add: set_phase_def map_of_map_key)

lemma set_phase_simps [simp]:
  "sl_limits (set_phase L x p t) = sl_limits L" "sl_sequence (set_phase L x p t) = sl_sequence L"
  "sl_intents (set_phase L x p t) = sl_intents L" "sl_path (set_phase L x p t) = sl_path L"
  "sl_dedup (set_phase L x p t) = sl_dedup L" "sl_outbox (set_phase L x p t) = sl_outbox L"
  "sl_reservations (set_phase L x p t) = sl_reservations L"
  "sl_correlations (set_phase L x p t) = sl_correlations L"
  "sl_observations (set_phase L x p t) = sl_observations L"
  by (simp_all add: set_phase_def)

lemma map_of_filter_keep:
  "\<forall>v. (i, v) \<in> set xs \<longrightarrow> P (i, v) \<Longrightarrow> map_of (filter P xs) i = map_of xs i"
  by (induction xs) auto

lemma committed_Inr: "committed r = Inr (v, w) \<longleftrightarrow> (\<exists>L. r = Inr (v, L) \<and> w = Some L)"
  by (cases r) (auto simp: committed_def split: prod.splits)

definition add_receipt ::
  "sqlite_ledger \<Rightarrow> string \<Rightarrow> int \<Rightarrow> string \<Rightarrow> int \<Rightarrow> int \<Rightarrow> sqlite_ledger" where
  "add_receipt L receipt_id i scope charge settled_at =
     L\<lparr>sl_outbox := sl_outbox L @ [(receipt_id,
         \<lparr>ob_reservation_id = i, ob_scope = scope, ob_charged_tokens = charge,
          ob_settled_at = settled_at, ob_claim_token = None, ob_claim_until = None,
          ob_acknowledged_at = None\<rparr>)]\<rparr>"

lemma find_receipt_settle_row [simp]: "find_receipt (settle_row L i a t) j = find_receipt L j"
  by (simp add: find_receipt_def)

lemma settle_receipt_Inr:
  assumes "settle_receipt E entropy now L s i c = Inr (out, L')"
  obtains (Replay) p rc where "find_receipt L i = Some p" and "receipt_of p = Inr rc"
      and "sr_scope rc = s" and "sr_charged_tokens rc = word_of_int c"
      and "out = AlreadyCommitted rc" and "L' = L"
  | (Fresh) rid r where "find_receipt L i = None" and "opaque_id entropy = Inr rid"
      and "map_of (sl_reservations L) i = Some r" and "rr_scope r = s" and "rr_settled r = 0"
      and "map_of (sl_outbox L) rid = None" and "0 < i" and "0 \<le> c"
      and "L' = add_receipt (settle_row L i c (unix_timestamp now)) rid i s c (unix_timestamp now)"
      and "out = Committed \<lparr>sr_receipt_id = rid, sr_reservation_id = word_of_int i, sr_scope = s,
                            sr_charged_tokens = word_of_int c, sr_settled_at = unix_timestamp now\<rparr>"
proof (cases "find_receipt L i")
  case None
  with assms show ?thesis
    by (intro Fresh [of "projr (opaque_id entropy)" "the (map_of (sl_reservations L) i)"])
      (auto simp: settle_receipt_def bind_res_Inr stored_Inr insert_receipt_def add_receipt_def
        Let_def split: option.splits if_splits)
next
  case (Some p)
  with assms show ?thesis
    by (intro Replay [of p "projr (receipt_of p)"])
      (auto simp: settle_receipt_def bind_res_Inr stored_Inr split: if_splits)
qed

lemma intent_binding_Inr:
  assumes "intent_binding E L x = Inr (Some (i, s, settled))"
  obtains t r where "map_of (sl_intents L) x = Some t"
    and "map_of (sl_reservations L) (in_reservation_id t) = Some r" and "0 \<le> in_reservation_id t"
    and "i = word_of_int (in_reservation_id t)" and "s = rr_scope r" and "settled = (rr_settled r \<noteq> 0)"
  using assms
  by (auto simp: intent_binding_def bind_res_Inr stored_Inr get_u64_def split: option.splits if_splits)

lemma transition_Inr:
  assumes "transition K C E now L s x authorize = Inr ((fence, changed), L')"
  obtains (Unchanged) i where "changed = False" and "L' = L" and "fence \<noteq> Prepared"
      and "checked_fence K C E L s x i = Inr (Some fence)"
  | (Opened) i where "authorize" and "changed" and "fence = FenceAuthorized"
      and "checked_fence K C E L s x i = Inr (Some Prepared)"
      and "L' = set_phase L x 1 (unix_timestamp now)"
  | (Shut) t i where "\<not> authorize" and "changed" and "map_of (sl_intents L) x = Some t"
      and "0 \<le> in_reservation_id t" and "i = word_of_int (in_reservation_id t)"
      and "fence = FenceClosed \<lparr>pc_execution_id = x, pc_reservation_id = i,
                                pc_scope = s, pc_closed_at = unix_timestamp now\<rparr>"
      and "checked_fence K C E L s x i = Inr (Some Prepared)"
      and "L' = settle_row (set_phase L x 2 (unix_timestamp now)) (uint i) 0
                  (unix_timestamp now)"
proof -
  obtain i settled fence0 where b: "intent_binding E L x = Inr (Some (i, s, settled))"
    and f: "checked_fence K C E L s x i = Inr (Some fence0)"
    and rest: "(if fence0 \<noteq> Prepared then Inr ((fence0, False), L)
      else leave_prepared K E (unix_timestamp now) L s x i authorize) = Inr ((fence, changed), L')"
    using assms unfolding transition_def
    by (elim bind_resE)
      (auto simp: stored_Inr elim!: bind_resE split: option.split_asm if_split_asm)
  obtain t r where t: "map_of (sl_intents L) x = Some t" "0 \<le> in_reservation_id t"
      "i = word_of_int (in_reservation_id t)"
    using b by (rule intent_binding_Inr)
  show thesis
  proof (cases "fence0 = Prepared")
    case False
    with rest f show thesis by (intro Unchanged [of i]) auto
  next
    case True
    show thesis
    proof (cases authorize)
      case True
      with rest f \<open>fence0 = Prepared\<close> show thesis
        by (intro Opened [of i]) (auto simp: leave_prepared_def bind_res_Inr Let_def split: if_splits)
    next
      case False
      with rest have "close_reservation E (set_phase L x 2 (unix_timestamp now)) s x i
          (unix_timestamp now) = Inr ((fence, changed), L')"
        using \<open>fence0 = Prepared\<close> by (auto simp: leave_prepared_def bind_res_Inr Let_def split: if_splits)
      then have "changed" "L' = settle_row (set_phase L x 2 (unix_timestamp now)) (uint i) 0
            (unix_timestamp now)"
        "fence = FenceClosed \<lparr>pc_execution_id = x, pc_reservation_id = i,
            pc_scope = s, pc_closed_at = unix_timestamp now\<rparr>"
        by (auto simp: close_reservation_def bind_res_Inr stored_Inr i64_try_from_Inr split: if_splits)
      with False t f \<open>fence0 = Prepared\<close> show thesis by (intro Shut [of t i]) auto
    qed
  qed
qed

text \<open>What a checked fence says about the stored phase.\<close>

lemma checked_fence_phase:
  assumes "checked_fence K C E L s x i = Inr (Some fence)"
  obtains row where "map_of (sl_fences L) x = Some row"
    and "fence = Prepared \<longleftrightarrow> f_phase row = 0"
    and "fence = FenceAuthorized \<longleftrightarrow> f_phase row = 1"
    and "(\<exists>c. fence = FenceClosed c) \<longleftrightarrow> f_phase row = 2"
  using assms unfolding checked_fence_def
  by (elim bind_resE) (auto simp: stored_Inr Let_def elim!: bind_resE split: option.split_asm if_split_asm)

definition with_intent ::
  "sqlite_ledger \<Rightarrow> string \<Rightarrow> int \<Rightarrow> int \<Rightarrow> bool \<Rightarrow> string option \<Rightarrow> sqlite_ledger" where
  "with_intent L x i created_at prepared request_id =
     L\<lparr>sl_intents := sl_intents L @ [(x, \<lparr>in_reservation_id = i, in_created_at = created_at\<rparr>)],
       sl_fences := sl_fences L @ (if prepared then [(x, \<lparr>f_phase = 0, f_transitioned_at = None\<rparr>)] else []),
       sl_correlations := sl_correlations L @
         (case request_id of Some v \<Rightarrow> [(x, v)] | None \<Rightarrow> [])\<rparr>"

lemma insert_intent_Inr:
  "insert_intent E L x i created_at = Inr L' \<Longrightarrow>
     map_of (sl_intents L) x = None \<and> \<not> is_tracked L (uint i) \<and> uint i \<noteq> 0 \<and>
     unat i < 2 ^ 63 \<and>
     L' = L\<lparr>sl_intents := sl_intents L @
             [(x, \<lparr>in_reservation_id = uint i, in_created_at = created_at\<rparr>)]\<rparr>"
  unfolding insert_intent_def by (elim bind_resE) (simp add: i64_try_from_Inr not_le split: if_split_asm)

lemma insert_fence_Inr:
  "insert_fence E L x = Inr L' \<Longrightarrow>
     map_of (sl_fences L) x = None \<and>
     L' = L\<lparr>sl_fences := sl_fences L @ [(x, \<lparr>f_phase = 0, f_transitioned_at = None\<rparr>)]\<rparr>"
  unfolding insert_fence_def by (elim bind_resE) (simp split: if_split_asm)

lemma insert_correlation_Inr:
  "insert_correlation E L x v = Inr L' \<Longrightarrow>
     L' = L\<lparr>sl_correlations := sl_correlations L @ [(x, v)]\<rparr>"
  unfolding insert_correlation_def by (elim bind_resE) (simp split: if_split_asm)

lemma admit_intent_Inr:
  assumes "admit_intent K E L x s c now ttl m prepared request_id = Inr (v, Some L')"
  obtains r L1 where "reserve_in_transaction K E L s c now ttl = Inr (Admitted r, L1)"
    and "map_of (sl_intents L1) x = None" and "\<not> is_tracked L1 (uint (r_id r))"
    and "prepared \<longrightarrow> map_of (sl_fences L1) x = None"
    and "L' = with_intent L1 x (uint (r_id r)) (unix_timestamp now) prepared request_id"
    and "v = IntentAdmitted \<lparr>ei_execution_id = x, ei_reservation = r\<rparr>"
    and "uint (r_id r) \<noteq> 0" and "unat (r_id r) < 2 ^ 63"
proof -
  obtain out L1 where res: "reserve_in_transaction K E L s c now ttl = Inr (out, L1)"
    and rest: "(case out of
         Denied denied \<Rightarrow> Inr (IntentDenied denied, None)
       | Admitted reservation \<Rightarrow>
           bind_res (stored (insert_intent E L1 x (r_id reservation) (unix_timestamp now))) (\<lambda>L.
           bind_res (if prepared then stored (insert_fence E L x) else Inr L) (\<lambda>L.
           bind_res (case request_id of
               Some request_id \<Rightarrow> stored (insert_correlation E L x request_id)
             | None \<Rightarrow> Inr L) (\<lambda>L.
           Inr (IntentAdmitted \<lparr>ei_execution_id = x, ei_reservation = reservation\<rparr>,
                Some L))))) = Inr (v, Some L')"
    using assms unfolding admit_intent_def
    by (elim bind_resE) (auto simp: stored_Inr split: if_split_asm elim!: bind_resE)
  obtain r where out: "out = Admitted r" using rest by (cases out) simp_all
  obtain L2 L3 where L2: "insert_intent E L1 x (r_id r) (unix_timestamp now) = Inr L2"
    and L3: "(if prepared then stored (insert_fence E L2 x) else Inr L2) = Inr L3"
    and L4: "(case request_id of
               Some request_id \<Rightarrow> stored (insert_correlation E L3 x request_id)
             | None \<Rightarrow> Inr L3) = Inr L'"
    and v: "v = IntentAdmitted \<lparr>ei_execution_id = x, ei_reservation = r\<rparr>"
    using rest unfolding out by (auto simp: stored_Inr elim!: bind_resE)
  note i = insert_intent_Inr [OF L2]
  have f: "(prepared \<longrightarrow> map_of (sl_fences L1) x = None) \<and>
      L3 = L2\<lparr>sl_fences := sl_fences L2 @
        (if prepared then [(x, \<lparr>f_phase = 0, f_transitioned_at = None\<rparr>)] else [])\<rparr>"
    using L3 i by (cases prepared) (auto simp: stored_Inr dest!: insert_fence_Inr)
  have c: "L' = L3\<lparr>sl_correlations := sl_correlations L3 @
      (case request_id of Some v \<Rightarrow> [(x, v)] | None \<Rightarrow> [])\<rparr>"
    using L4 by (cases request_id) (auto simp: stored_Inr dest!: insert_correlation_Inr)
  have "L' = with_intent L1 x (uint (r_id r)) (unix_timestamp now) prepared request_id"
    unfolding with_intent_def c using i f by (simp split: option.split)
  then show thesis using res i f v unfolding out by (intro that) auto
qed

end
