(* ===== verification/Evidence_Calls.thy ===== *)
theory Evidence_Calls
  imports Evidence_Effects
begin

text \<open>
  The calls of the durable ledger's interface, histories of calls in an arbitrary world, and the
  changes a call can commit.
\<close>

section \<open>Calls and histories\<close>

text \<open>
  A call of the ledger's interface, and what the outside world does during it: the engine's
  answers, the process clock, the engine's clock and the random draws.
\<close>

datatype ledger_call =
    SetLimit string "u64 option" window policy
  | ReserveLease string u64 instant duration
  | SettleLease u64 u64
  | ReclaimLease instant
  | Seen string string instant
  | RecordSeen string string u64 u64 instant duration
  | ReserveIntent string u64 instant duration nat bool "string option"
  | RecordTerminal string string usage_v2 u32
  | SettleTerminal string string
  | SettleWithEvidence string u64 u64
  | ClaimSettlements nat instant u32
  | AcknowledgeSettlement string string instant
  | AuthorizeDispatch string string
  | CloseBeforeDispatch string string

record world =
  wo_engine :: engine
  wo_utc :: instant
  wo_sql_clock :: int
  wo_entropy :: "nat \<Rightarrow> u8 list option"

datatype call_answer =
    AnswerStore "sql_error + unit"
  | AnswerReserve "sql_error + reserve_outcome"
  | AnswerReclaim "sql_error + nat"
  | AnswerSeen "sql_error + (u64 \<times> u64) option"
  | AnswerIntent "evidence_error + intent_admission"
  | AnswerObservation "evidence_error + observation_outcome"
  | AnswerSettlement "evidence_error + settlement_outcome"
  | AnswerClaims "evidence_error + claimed_settlement list"
  | AnswerAcknowledged "evidence_error + bool"
  | AnswerDispatch "evidence_error + dispatch_outcome"
  | AnswerClosure "evidence_error + closure_outcome"

fun perform ::
  "calendar \<Rightarrow> usage_codec \<Rightarrow> world \<Rightarrow> sqlite_ledger \<Rightarrow> ledger_call \<Rightarrow> call_answer \<times> sqlite_ledger"
where
  "perform K C w L (SetLimit s l win p) =
     map_prod AnswerStore (\<lambda>L. L) (set_limit_durable (wo_engine w) L s l win p)"
| "perform K C w L (ReserveLease s c now ttl) =
     map_prod AnswerReserve (\<lambda>L. L) (reserve_durable K (wo_engine w) L s c now ttl)"
| "perform K C w L (SettleLease i a) =
     map_prod AnswerStore (\<lambda>L. L) (settle_durable (wo_engine w) (wo_sql_clock w) L i a)"
| "perform K C w L (ReclaimLease now) =
     map_prod AnswerReclaim (\<lambda>L. L) (reclaim_expired_durable (wo_engine w) L now)"
| "perform K C w L (Seen vkey key now) =
     map_prod AnswerSeen (\<lambda>L. L) (seen_durable (wo_engine w) L vkey key now)"
| "perform K C w L (RecordSeen vkey key i a now ttl) =
     map_prod AnswerStore (\<lambda>L. L) (record_durable (wo_engine w) L vkey key i a now ttl)"
| "perform K C w L (ReserveIntent s c now ttl m prepared request_id) =
     map_prod AnswerIntent (\<lambda>L. L)
       (reserve_intent K (wo_engine w) (wo_entropy w 0) L s c now ttl m prepared request_id)"
| "perform K C w L (RecordTerminal s x usage bp) =
     map_prod AnswerObservation (\<lambda>L. L)
       (record_terminal_durable K C (wo_engine w) (wo_utc w) L s x usage bp)"
| "perform K C w L (SettleTerminal s x) =
     map_prod AnswerSettlement (\<lambda>L. L)
       (settle_terminal_durable K C (wo_engine w) (wo_entropy w 0) (wo_utc w) L s x)"
| "perform K C w L (SettleWithEvidence s i c) =
     map_prod AnswerSettlement (\<lambda>L. L)
       (settle_with_evidence_durable (wo_engine w) (wo_entropy w 0) (wo_utc w) L s i c)"
| "perform K C w L (ClaimSettlements n now lease) =
     map_prod AnswerClaims (\<lambda>L. L)
       (claim_settlements_durable (wo_engine w) (wo_entropy w) L n now lease)"
| "perform K C w L (AcknowledgeSettlement rid token now) =
     map_prod AnswerAcknowledged (\<lambda>L. L)
       (acknowledge_settlement_durable (wo_engine w) L rid token now)"
| "perform K C w L (AuthorizeDispatch s x) =
     map_prod AnswerDispatch (\<lambda>L. L)
       (authorize_dispatch_durable K C (wo_engine w) (wo_utc w) L s x)"
| "perform K C w L (CloseBeforeDispatch s x) =
     map_prod AnswerClosure (\<lambda>L. L)
       (close_before_dispatch_durable K C (wo_engine w) (wo_utc w) L s x)"

text \<open>A history: the calls with their answers, and the final ledger.\<close>

fun history ::
  "calendar \<Rightarrow> usage_codec \<Rightarrow> sqlite_ledger \<Rightarrow> (world \<times> ledger_call) list \<Rightarrow>
     (ledger_call \<times> call_answer) list \<times> sqlite_ledger" where
  "history K C L [] = ([], L)"
| "history K C L ((w, call) # calls) =
     (let (answer, L1) = perform K C w L call;
          (answers, L2) = history K C L1 calls
      in ((call, answer) # answers, L2))"

definition charge_storable :: "usage_v2 \<Rightarrow> u32 \<Rightarrow> bool" where
  "charge_storable usage bp \<longleftrightarrow> \<not> is_some_and (frozen_charge_of usage bp) (\<lambda>c. unat c \<ge> 2 ^ 63)"

text \<open>
  A committed change of the tables: every call leaves the ledger as it was, or in the state its
  transaction or its statement commits.
\<close>

inductive changes :: "calendar \<Rightarrow> usage_codec \<Rightarrow> world \<Rightarrow> sqlite_ledger \<Rightarrow> ledger_call \<Rightarrow>
    sqlite_ledger \<Rightarrow> bool"
  for K C w L where
  limits: "changes K C w L call (L\<lparr>sl_limits := limits\<rparr>)"
| dedup: "changes K C w L call (L\<lparr>sl_dedup := dedup\<rparr>)"
| lease: "reserve_in_transaction K (wo_engine w) L s c now ttl = Inr (Admitted r, L') \<Longrightarrow>
    changes K C w L (ReserveLease s c now ttl) L'"
| settle: "\<not> is_tracked L (sint i) \<Longrightarrow>
    changes K C w L (SettleLease i a) (settle_row L (sint i) (sint a) (wo_sql_clock w))"
| reclaim: "changes K C w L (ReclaimLease now)
    (L\<lparr>sl_reservations := filter (\<lambda>p. \<not> reclaimable L (unix_timestamp now) p) (sl_reservations L)\<rparr>)"
| reclaim_both: "changes K C w L (ReclaimLease now)
    (L\<lparr>sl_reservations := filter (\<lambda>p. \<not> reclaimable L (unix_timestamp now) p) (sl_reservations L),
       sl_dedup := dedup\<rparr>)"
| intent: "\<lbrakk>opaque_id (wo_entropy w 0) = Inr x;
     reserve_in_transaction K (wo_engine w) L s c now ttl = Inr (Admitted r, L1);
     map_of (sl_intents L1) x = None; \<not> is_tracked L1 (uint (r_id r));
     prepared \<longrightarrow> map_of (sl_fences L1) x = None\<rbrakk> \<Longrightarrow>
    changes K C w L (ReserveIntent s c now ttl m prepared request_id)
      (with_intent L1 x (uint (r_id r)) (unix_timestamp now) prepared request_id)"
| observe: "\<lbrakk>encode_usage C usage = Inr encoded;
     observable_binding K C (wo_engine w) L s x = Inr (i, False);
     read_observation C (wo_engine w) L x i s = Inr None;
     charge_storable usage bp; map_of (sl_observations L) x = None\<rbrakk> \<Longrightarrow>
    changes K C w L (RecordTerminal s x usage bp)
      (L\<lparr>sl_observations := sl_observations L @ [(x,
           \<lparr>to_version = 1, to_usage_json = encoded,
            to_frozen_charge = map_option uint (frozen_charge_of usage bp),
            to_observed_at = unix_timestamp (wo_utc w)\<rparr>)]\<rparr>)"
| terminal: "\<lbrakk>observable_binding K C (wo_engine w) L s x = Inr (i, settled);
     read_observation C (wo_engine w) L x i s = Inr (Some obs);
     unat i < 2 ^ 63; terminal_charge obs = Inr charge;
     settle_receipt (wo_engine w) (wo_entropy w 0) (wo_utc w) L s (uint i) charge = Inr (out, L')\<rbrakk> \<Longrightarrow>
    changes K C w L (SettleTerminal s x) L'"
| evidence: "\<lbrakk>unat i < 2 ^ 63; \<not> is_tracked L (uint i);
     settle_receipt (wo_engine w) (wo_entropy w 0) (wo_utc w) L s (uint i) (uint a) = Inr (out, L')\<rbrakk> \<Longrightarrow>
    changes K C w L (SettleWithEvidence s i a) L'"
| claim: "claim_each (wo_engine w) (wo_entropy w) 0 until L pending = Inr (claims, L') \<Longrightarrow>
    changes K C w L (ClaimSettlements n now lease) L'"
| acknowledge: "\<lbrakk>map_of (sl_outbox L) rid = Some row; acknowledgeable token ts row\<rbrakk> \<Longrightarrow>
    changes K C w L (AcknowledgeSettlement rid token now)
      (L\<lparr>sl_outbox := AList.update rid (row\<lparr>ob_acknowledged_at := Some ts\<rparr>) (sl_outbox L)\<rparr>)"
| dispatch: "transition K C (wo_engine w) (wo_utc w) L s x True = Inr (r, L') \<Longrightarrow>
    changes K C w L (AuthorizeDispatch s x) L'"
| close: "transition K C (wo_engine w) (wo_utc w) L s x False = Inr (r, L') \<Longrightarrow>
    changes K C w L (CloseBeforeDispatch s x) L'"

lemma transaction_cases:
  "snd (transaction E storage body s) = s \<or>
   (\<exists>v t. body s = Inr (v, Some t) \<and> snd (transaction E storage body s) = t)"
  by (auto simp: transaction_def split: sum.split prod.split option.split engine_result.split)

lemma snd_map_prod_id [simp]: "snd (map_prod f (\<lambda>L. L) p) = snd p"
  by (cases p) simp

lemma changes_set_limit:
  "snd (set_limit_durable E L s l win p) = L \<or>
   (\<exists>limits. snd (set_limit_durable E L s l win p) = L\<lparr>sl_limits := limits\<rparr>)"
  by (auto simp: set_limit_durable_def autocommit_def split: sum.split engine_result.split)

lemma changes_reserve:
  "snd (reserve_durable K E L s c now ttl) = L \<or>
   (\<exists>r. reserve_in_transaction K E L s c now ttl =
      Inr (Admitted r, snd (reserve_durable K E L s c now ttl)))"
  using transaction_cases [of E "\<lambda>e. e" "\<lambda>L. map_sum (\<lambda>e. e)
          (\<lambda>(outcome, L'). (outcome, case outcome of Admitted _ \<Rightarrow> Some L' | Denied _ \<Rightarrow> None))
          (reserve_in_transaction K E L s c now ttl)" L]
  unfolding reserve_durable_def
  by (cases "reserve_in_transaction K E L s c now ttl")
    (auto split: reserve_outcome.split_asm)

lemma changes_settle:
  "snd (settle_durable E clock L i a) = L \<or>
   \<not> is_tracked L (sint i) \<and>
   snd (settle_durable E clock L i a) = settle_row L (sint i) (sint a) clock"
  by (auto simp: settle_durable_def transaction_def bind_res_def
      split: sum.splits if_splits engine_result.splits)

lemma changes_reclaim:
  "snd (reclaim_expired_durable E L now) = L \<or>
   snd (reclaim_expired_durable E L now) =
     L\<lparr>sl_reservations := filter (\<lambda>p. \<not> reclaimable L (unix_timestamp now) p) (sl_reservations L)\<rparr> \<or>
   (\<exists>dedup. snd (reclaim_expired_durable E L now) =
      L\<lparr>sl_reservations := filter (\<lambda>p. \<not> reclaimable L (unix_timestamp now) p) (sl_reservations L),
        sl_dedup := dedup\<rparr>)"
  by (cases "E ReclaimLeases"; cases "E ReclaimDedup")
    (auto simp: reclaim_expired_durable_def autocommit_def Let_def)

lemma changes_seen:
  "snd (seen_durable E L vkey key now) = L \<or>
   (\<exists>dedup. snd (seen_durable E L vkey key now) = L\<lparr>sl_dedup := dedup\<rparr>)"
  by (auto simp: seen_durable_def autocommit_def split: sum.split option.split engine_result.split)

lemma changes_record:
  "snd (record_durable E L vkey key i a now ttl) = L \<or>
   (\<exists>dedup. snd (record_durable E L vkey key i a now ttl) = L\<lparr>sl_dedup := dedup\<rparr>)"
  by (auto simp: record_durable_def autocommit_def split: engine_result.split)

lemma changes_intent:
  "snd (reserve_intent K E entropy L s c now ttl m prepared request_id) = L \<or>
   (\<exists>x v. opaque_id entropy = Inr x \<and>
      admit_intent K E L x s c now ttl m prepared request_id =
        Inr (v, Some (snd (reserve_intent K E entropy L s c now ttl m prepared request_id))))"
proof (cases "opaque_id entropy")
  case (Inr x)
  with transaction_cases [of E Storage
      "\<lambda>L. admit_intent K E L x s c now ttl m prepared request_id" L]
  show ?thesis by (auto simp: reserve_intent_def)
qed (simp add: reserve_intent_def)

lemma changes_observe:
  "snd (record_terminal_durable K C E now L s x usage bp) = L \<or>
   (\<exists>encoded v. encode_usage C usage = Inr encoded \<and>
      record_terminal_body K C E now L s x usage bp encoded =
        Inr (v, Some (snd (record_terminal_durable K C E now L s x usage bp))))"
proof (cases "bind_res (validate_scope s) (\<lambda>_.
      bind_res (validate_execution_id x) (\<lambda>_. encode_usage C usage))")
  case (Inr encoded)
  then have "encode_usage C usage = Inr encoded" by (auto elim!: bind_resE)
  with Inr transaction_cases [of E Storage
      "\<lambda>L. record_terminal_body K C E now L s x usage bp encoded" L]
  show ?thesis by (auto simp: record_terminal_durable_def)
qed (simp add: record_terminal_durable_def)

lemma changes_terminal:
  "snd (settle_terminal_durable K C E entropy now L s x) = L \<or>
   (\<exists>v. settle_terminal_body K C E entropy now L s x =
      Inr (v, snd (settle_terminal_durable K C E entropy now L s x)))"
  using transaction_cases [of E Storage
      "\<lambda>L. committed (settle_terminal_body K C E entropy now L s x)" L]
  by (auto simp: settle_terminal_durable_def committed_Inr split: sum.split)

lemma changes_evidence:
  "snd (settle_with_evidence_durable E entropy now L s i a) = L \<or>
   unat i < 2 ^ 63 \<and> \<not> is_tracked L (uint i) \<and>
   (\<exists>v. settle_receipt E entropy now L s (uint i) (uint a) =
      Inr (v, snd (settle_with_evidence_durable E entropy now L s i a)))"
  using transaction_cases [of E Storage "\<lambda>L. bind_res (stored (statement E SelectTracked)) (\<lambda>_.
               if is_tracked L (uint i) then Inl TrackedSettlementRequired
               else committed (settle_receipt E entropy now L s (uint i) (uint a)))" L]
  by (auto simp: settle_with_evidence_durable_def committed_Inr elim!: bind_resE split: if_split_asm)

lemma changes_claim:
  "snd (claim_settlements_durable E entropy L n now lease) = L \<or>
   (\<exists>until pending claims. claim_each E entropy 0 until L pending =
      Inr (claims, snd (claim_settlements_durable E entropy L n now lease)))"
  using transaction_cases [of E Storage "\<lambda>L. bind_res (stored (statement E SelectPending)) (\<lambda>_.
                 bind_res (stored (read_receipts (pending_receipts L (unix_timestamp now) n))) (\<lambda>pending.
                 committed (claim_each E entropy 0 (unix_timestamp now + uint lease) L pending)))" L]
  by (auto simp: claim_settlements_durable_def Let_def committed_Inr elim!: bind_resE)

lemma changes_acknowledge:
  "snd (acknowledge_settlement_durable E L rid token now) = L \<or>
   (\<exists>row. map_of (sl_outbox L) rid = Some row \<and> acknowledgeable token (unix_timestamp now) row \<and>
      snd (acknowledge_settlement_durable E L rid token now) =
        L\<lparr>sl_outbox := AList.update rid (row\<lparr>ob_acknowledged_at := Some (unix_timestamp now)\<rparr>)
            (sl_outbox L)\<rparr>)"
  by (auto simp: acknowledge_settlement_durable_def autocommit_def Let_def
      split: option.split engine_result.split)

lemma changes_dispatch:
  "snd (authorize_dispatch_durable K C E now L s x) = L \<or>
   (\<exists>r. transition K C E now L s x True = Inr (r, snd (authorize_dispatch_durable K C E now L s x)))"
  using transaction_cases [of E Storage "\<lambda>L. committed (transition K C E now L s x True)" L]
  by (auto simp: authorize_dispatch_durable_def committed_Inr split: sum.split prod.split)

lemma changes_close:
  "snd (close_before_dispatch_durable K C E now L s x) = L \<or>
   (\<exists>r. transition K C E now L s x False =
      Inr (r, snd (close_before_dispatch_durable K C E now L s x)))"
  using transaction_cases [of E Storage "\<lambda>L. committed (transition K C E now L s x False)" L]
  by (auto simp: close_before_dispatch_durable_def committed_Inr split: sum.split prod.split)

lemma record_terminal_body_Inr:
  assumes "record_terminal_body K C E now L s x usage bp encoded = Inr (v, Some L')"
  shows "\<exists>i. observable_binding K C E L s x = Inr (i, False) \<and>
    read_observation C E L x i s = Inr None \<and>
    charge_storable usage bp \<and>
    map_of (sl_observations L) x = None \<and>
    L' = L\<lparr>sl_observations := sl_observations L @ [(x,
           \<lparr>to_version = 1, to_usage_json = encoded,
            to_frozen_charge = map_option uint (frozen_charge_of usage bp),
            to_observed_at = unix_timestamp now\<rparr>)]\<rparr> \<and>
    v = Recorded \<lparr>t_version = 1, t_execution_id = x, t_reservation_id = i, t_scope = s,
                  t_usage = usage, t_frozen_charge = frozen_charge_of usage bp,
                  t_observed_at = unix_timestamp now\<rparr>"
proof -
  from assms obtain i settled original
    where b: "observable_binding K C E L s x = Inr (i, settled)"
      "read_observation C E L x i s = Inr original"
    and rest: "(case original of
       Some original \<Rightarrow>
         if t_usage original \<noteq> usage then Inl ConflictingObservation
         else Inr (AlreadyRecorded original, None)
     | None \<Rightarrow>
         if settled then Inl AlreadySettled
         else
           let frozen_charge = frozen_charge_of usage bp;
               observed_at = unix_timestamp now in
           if is_some_and frozen_charge (\<lambda>c. unat c \<ge> 2 ^ 63) then Inl InvalidInput
           else
             bind_res (stored (insert_observation E L x
                 \<lparr>to_version = 1, to_usage_json = encoded,
                  to_frozen_charge = map_option uint frozen_charge, to_observed_at = observed_at\<rparr>)) (\<lambda>L.
             Inr (Recorded \<lparr>t_version = 1, t_execution_id = x,
                            t_reservation_id = i, t_scope = s, t_usage = usage,
                            t_frozen_charge = frozen_charge, t_observed_at = observed_at\<rparr>,
                  Some L))) = Inr (v, Some L')"
    unfolding record_terminal_body_def by (elim bind_resE) (auto elim!: bind_resE)
  then have "original = None" "\<not> settled"
    by (auto split: option.split_asm if_split_asm)
  with b rest show ?thesis
    by (auto simp: charge_storable_def Let_def stored_Inr insert_observation_def elim!: bind_resE split: if_split_asm)
qed

lemma settle_terminal_body_Inr:
  assumes "settle_terminal_body K C E entropy now L s x = Inr (v, L')"
  shows "\<exists>i settled obs charge. observable_binding K C E L s x = Inr (i, settled) \<and>
    read_observation C E L x i s = Inr (Some obs) \<and> unat i < 2 ^ 63 \<and>
    terminal_charge obs = Inr charge \<and>
    settle_receipt E entropy now L s (uint i) charge = Inr (v, L')"
  using assms unfolding settle_terminal_body_def
  by (elim bind_resE) (auto elim!: bind_resE split: option.split_asm if_split_asm)

lemma perform_changes:
  "snd (perform K C w L call) = L \<or> changes K C w L call (snd (perform K C w L call))"
proof (cases call)
  case (SetLimit s l win p)
  with changes_set_limit [of "wo_engine w" L s l win p] show ?thesis
    by (auto intro: changes.limits)
next
  case (ReserveLease s c now ttl)
  with changes_reserve [of K "wo_engine w" L s c now ttl] show ?thesis
    by (auto intro: changes.lease)
next
  case (SettleLease i a)
  with changes_settle [of "wo_engine w" "wo_sql_clock w" L i a] show ?thesis
    by (auto intro: changes.settle)
next
  case (ReclaimLease now)
  with changes_reclaim [of "wo_engine w" L now] show ?thesis
    by (auto intro: changes.reclaim changes.reclaim_both)
next
  case (Seen vkey key now)
  with changes_seen [of "wo_engine w" L vkey key now] show ?thesis
    by (auto intro: changes.dedup)
next
  case (RecordSeen vkey key i a now ttl)
  with changes_record [of "wo_engine w" L vkey key i a now ttl] show ?thesis
    by (auto intro: changes.dedup)
next
  case (ReserveIntent s c now ttl m prepared request_id)
  with changes_intent [of K "wo_engine w" "wo_entropy w 0" L s c now ttl m prepared request_id]
  show ?thesis by (auto elim!: admit_intent_Inr intro: changes.intent)
next
  case (RecordTerminal s x usage bp)
  with changes_observe [of K C "wo_engine w" "wo_utc w" L s x usage bp] show ?thesis
    by (auto dest!: record_terminal_body_Inr intro: changes.observe)
next
  case (SettleTerminal s x)
  with changes_terminal [of K C "wo_engine w" "wo_entropy w 0" "wo_utc w" L s x] show ?thesis
    by (auto dest!: settle_terminal_body_Inr intro: changes.terminal)
next
  case (SettleWithEvidence s i a)
  with changes_evidence [of "wo_engine w" "wo_entropy w 0" "wo_utc w" L s i a] show ?thesis
    by (auto intro: changes.evidence)
next
  case (ClaimSettlements n now lease)
  with changes_claim [of "wo_engine w" "wo_entropy w" L n now lease] show ?thesis
    by (auto intro: changes.claim)
next
  case (AcknowledgeSettlement rid token now)
  with changes_acknowledge [of "wo_engine w" L rid token now] show ?thesis
    by (auto intro: changes.acknowledge)
next
  case (AuthorizeDispatch s x)
  with changes_dispatch [of K C "wo_engine w" "wo_utc w" L s x] show ?thesis
    by (auto intro: changes.dispatch)
next
  case (CloseBeforeDispatch s x)
  with changes_close [of K C "wo_engine w" "wo_utc w" L s x] show ?thesis
    by (auto intro: changes.close)
qed

lemma history_Cons [simp]:
  "history K C L ((w, call) # calls) =
     ((call, fst (perform K C w L call)) # fst (history K C (snd (perform K C w L call)) calls),
      snd (history K C (snd (perform K C w L call)) calls))"
  by (simp add: split_def Let_def)

declare history.simps(2) [simp del]

lemma perform_history_inv:
  assumes "P L" and "\<And>L w call. P L \<Longrightarrow> (w, call) \<in> set calls \<Longrightarrow> P (snd (perform K C w L call))"
  shows "P (snd (history K C L calls))"
  using assms
proof (induction calls arbitrary: L)
  case (Cons c calls)
  then show ?case by (cases c) simp
qed simp

section \<open>An example world\<close>

text \<open>A working engine, and a codec that knows one usage record.\<close>

definition ex_world :: world where
  "ex_world = \<lparr>wo_engine = all_done, wo_utc = 5000000000, wo_sql_clock = 5,
               wo_entropy = (\<lambda>k. Some (replicate 32 (of_nat k)))\<rparr>"

definition ex_usage :: usage_v2 where
  "ex_usage = usage_v2_default\<lparr>u_tokens_in := 30, u_tokens_out := 12, u_completeness := Final\<rparr>"

definition ex_codec :: usage_codec where
  "ex_codec =
     \<lparr>enc_usage = (\<lambda>u. if u = ex_usage then Some ''final 30 12'' else None),
      dec_usage = (\<lambda>s. if s = ''final 30 12'' then Some ex_usage else None)\<rparr>"

definition ex_x :: string where
  "ex_x = replicate 64 CHR ''0''"

lemma ex_x_id: "opaque_id (Some (replicate 32 0)) = Inr ex_x"
proof -
  have "concat (map hex_digits (replicate n 0)) = replicate (n + n) CHR ''0''" for n
    by (induction n) (simp_all add: hex_digits_def)
  from this [of 32] show ?thesis by (simp add: opaque_id_def ex_x_def)
qed

lemma ex_x_valid: "validate_execution_id ex_x = Inr ()"
  by (rule opaque_id_valid [OF ex_x_id]) simp

text \<open>The ledger after one prepared admission, with its fence in phase \<open>p\<close>.\<close>

definition ex_at :: "int \<Rightarrow> int option \<Rightarrow> sqlite_ledger" where
  "ex_at p t = ex_db
     \<lparr>sl_sequence := 1,
      sl_reservations := [(1, \<lparr>rr_scope = ''team'', rr_ceiling = 60, rr_actual = 0, rr_settled = 0,
                               rr_settled_at = None, rr_expires_at = 900\<rparr>)],
      sl_intents := [(ex_x, \<lparr>in_reservation_id = 1, in_created_at = 0\<rparr>)],
      sl_fences := [(ex_x, \<lparr>f_phase = p, f_transitioned_at = t\<rparr>)]\<rparr>"

lemma ex_reserve:
  "snd (perform ex_calendar ex_codec ex_world ex_db
     (ReserveIntent ''team'' 60 0 900000000000 10 True None)) = ex_at 0 None"
  by (simp add: ex_at_def ex_world_def reserve_intent_def ex_x_id ex_calendar_def transaction_done
      admit_intent_def insert_intent_def insert_fence_def ex_db_eq sq_eval_defs)

lemma ex_binding: "intent_binding all_done (ex_at p t) ex_x = Inr (Some (1, ''team'', False))"
  by (simp add: intent_binding_def ex_at_def get_u64_def)

lemma ex_fence:
  "checked_fence ex_calendar ex_codec all_done (ex_at 0 None) ''team'' ex_x 1 = Inr (Some Prepared)"
  "checked_fence ex_calendar ex_codec all_done (ex_at 1 (Some 5)) ''team'' ex_x 1 =
     Inr (Some FenceAuthorized)"
  by (simp_all add: checked_fence_def is_some_and_def ex_calendar_def i64_try_from_def ex_at_def
      read_observation_def ex_db_eq sqlite_open_def find_receipt_def resolved_charge_def
      checked_terminal_receipt_def bounded_receipt_def Let_def)

lemma ex_leave:
  "leave_prepared ex_calendar all_done 5 (ex_at 0 None) ''team'' ex_x 1 True =
     Inr ((FenceAuthorized, True), ex_at 1 (Some 5))"
  by (simp add: leave_prepared_def dispatch_in_time_def i64_try_from_def phase_updated_def
      set_phase_def ex_at_def ex_calendar_def Let_def)

lemmas ex_dispatch_defs = ex_world_def authorize_dispatch_durable_def ex_x_valid validate_scope_def
  transaction_done transition_def ex_binding committed_def permit_outcome_def unix_timestamp_def

lemma ex_authorize:
  "perform ex_calendar ex_codec ex_world (ex_at 0 None) (AuthorizeDispatch ''team'' ex_x) =
     (AnswerDispatch (Inr (Authorized \<lparr>dp_execution_id = ex_x\<rparr>)), ex_at 1 (Some 5))"
  by (simp add: ex_dispatch_defs ex_fence ex_leave)

lemma ex_authorize_again:
  "perform ex_calendar ex_codec ex_world (ex_at 1 (Some 5)) (AuthorizeDispatch ''team'' ex_x) =
     (AnswerDispatch (Inr MayHaveDispatched), ex_at 1 (Some 5))"
  by (simp add: ex_dispatch_defs ex_fence)

end
