(* ===== verification/Permit.thy ===== *)
theory Permit
  imports Evidence_Calls
begin

text \<open>
  The phase of a dispatch fence only moves forward, so that an execution gets at most one
  permit.
\<close>

section \<open>The phase of a fence\<close>

lemma claim_each_frame:
  "claim_each E entropy k until L pending = Inr (claims, L') \<Longrightarrow> \<exists>ob. L' = L\<lparr>sl_outbox := ob\<rparr>"
proof (induction pending arbitrary: k L claims)
  case Nil
  then have "L' = L\<lparr>sl_outbox := sl_outbox L\<rparr>" by simp
  then show ?case by blast
next
  case (Cons receipt pending)
  then show ?case by (fastforce elim!: bind_resE simp: Let_def split: option.split_asm)
qed

lemma set_phase_cases:
  "map_of (sl_fences (set_phase L y p t)) x = map_of (sl_fences L) x \<or>
   (\<exists>row. map_of (sl_fences L) x = Some row \<and> f_phase row = 0 \<and>
      map_of (sl_fences (set_phase L y p t)) x = Some \<lparr>f_phase = p, f_transitioned_at = Some t\<rparr>)"
  by (cases "map_of (sl_fences L) x") (simp_all add: map_of_set_phase)

lemma transition_fences:
  assumes "transition K C E now L s y authorize = Inr (r, L')"
  shows "\<exists>p t. sl_fences L' = sl_fences L \<or> sl_fences L' = sl_fences (set_phase L y p t)"
proof -
  obtain fence changed where "r = (fence, changed)" by (cases r)
  with assms have "transition K C E now L s y authorize = Inr ((fence, changed), L')" by simp
  then show ?thesis by (cases rule: transition_Inr) auto
qed

lemma changes_fences:
  assumes "changes K C w L call L'"
  shows "map_of (sl_fences L') x = map_of (sl_fences L) x \<or>
    map_of (sl_fences L) x = None \<and>
      map_of (sl_fences L') x = Some \<lparr>f_phase = 0, f_transitioned_at = None\<rparr> \<or>
    (\<exists>row t p. map_of (sl_fences L) x = Some row \<and> f_phase row = 0 \<and>
      map_of (sl_fences L') x = Some \<lparr>f_phase = p, f_transitioned_at = Some t\<rparr>)"
  using assms
proof cases
  case (lease s c now ttl r)
  then show ?thesis by (auto dest: reserve_in_transaction_admitted(4))
next
  case (intent y s c now ttl r L1 prepared m request_id)
  then have "sl_fences L1 = sl_fences L" by (auto dest: reserve_in_transaction_admitted(4))
  with intent show ?thesis by (auto simp: with_intent_def map_add_def split: option.split)
next
  case (terminal s y i settled obs charge out)
  from terminal(6) show ?thesis by (cases rule: settle_receipt_Inr) (auto simp: add_receipt_def)
next
  case (evidence i s a out)
  from evidence(4) show ?thesis by (cases rule: settle_receipt_Inr) (auto simp: add_receipt_def)
next
  case (claim until pending claims n now lease)
  then show ?thesis by (auto dest: claim_each_frame)
next
  case (dispatch s y r)
  from transition_fences [OF dispatch(2)] set_phase_cases [of L y _ _ x] show ?thesis by metis
next
  case (close s y r)
  from transition_fences [OF close(2)] set_phase_cases [of L y _ _ x] show ?thesis by metis
qed simp_all

definition phase_of :: "sqlite_ledger \<Rightarrow> string \<Rightarrow> int option" where
  "phase_of L x = map_option f_phase (map_of (sl_fences L) x)"

lemma phase_left:
  "phase_of L x = Some p \<Longrightarrow> p \<noteq> 0 \<Longrightarrow> phase_of (snd (perform K C w L call)) x = Some p"
  using perform_changes [of K C w L call] changes_fences [of K C w L call "snd (perform K C w L call)" x]
  by (auto simp: phase_of_def)

lemma phase_left_history:
  "phase_of L x = Some p \<Longrightarrow> p \<noteq> 0 \<Longrightarrow> phase_of (snd (history K C L calls)) x = Some p"
proof (induction calls arbitrary: L)
  case (Cons c calls)
  obtain w call where c: "c = (w, call)" by (cases c)
  from Cons.IH [OF phase_left [OF Cons.prems] Cons.prems(2)] show ?case
    by (simp add: c)
qed simp

section \<open>Answers and phases\<close>

definition answer_of :: "calendar \<Rightarrow> usage_codec \<Rightarrow> world \<Rightarrow> sqlite_ledger \<Rightarrow> ledger_call \<Rightarrow> call_answer" where
  "answer_of K C w L call = fst (perform K C w L call)"

lemma transition_phase:
  assumes "transition K C E now L s x authorize = Inr ((fence, changed), L')"
  shows "changed \<longrightarrow> phase_of L x = Some 0"
    and "fence = FenceAuthorized \<longrightarrow> phase_of L' x = Some 1"
    and "(\<exists>c. fence = FenceClosed c) \<longrightarrow> phase_of L' x = Some 2"
    and "\<not> changed \<longrightarrow> L' = L"
  using assms
  by (cases rule: transition_Inr;
      auto simp: phase_of_def map_of_set_phase elim!: checked_fence_phase)+

lemma authorize_answer:
  assumes "authorize_dispatch_durable K C E now L s x = (Inr out, L')"
  shows "(\<exists>p. out = Authorized p) \<longrightarrow> phase_of L x = Some 0 \<and> phase_of L' x = Some 1"
    and "out = MayHaveDispatched \<longrightarrow> phase_of L' x = Some 1"
    and "(\<exists>c. out = ClosedBeforeDispatch c) \<longrightarrow> phase_of L' x = Some 2"
proof -
  from assms obtain fence changed
    where tr: "transaction E Storage (\<lambda>L. committed (transition K C E now L s x True)) L =
        (Inr (fence, changed), L')"
      and out: "permit_outcome x (fence, changed) = Inr out"
    by (auto simp: authorize_dispatch_durable_def split: sum.splits prod.splits)
  from tr have "transition K C E now L s x True = Inr ((fence, changed), L')"
    by (cases rule: transaction_Inr) (auto simp: committed_Inr)
  from transition_phase [OF this] out
  show "(\<exists>p. out = Authorized p) \<longrightarrow> phase_of L x = Some 0 \<and> phase_of L' x = Some 1"
    and "out = MayHaveDispatched \<longrightarrow> phase_of L' x = Some 1"
    and "(\<exists>c. out = ClosedBeforeDispatch c) \<longrightarrow> phase_of L' x = Some 2"
    by (auto simp: permit_outcome_def split: fence.splits if_splits)
qed

lemma close_answer:
  assumes "close_before_dispatch_durable K C E now L s x = (Inr out, L')"
  shows "out = ClosureMayHaveDispatched \<longrightarrow> phase_of L' x = Some 1"
    and "(\<exists>c. out = Closed c \<or> out = AlreadyClosed c) \<longrightarrow> phase_of L' x = Some 2"
    and "(\<exists>c. out = Closed c) \<longrightarrow> phase_of L x = Some 0"
proof -
  from assms obtain fence changed
    where tr: "transaction E Storage (\<lambda>L. committed (transition K C E now L s x False)) L =
        (Inr (fence, changed), L')"
      and out: "closure_outcome_of (fence, changed) = Inr out"
    by (auto simp: close_before_dispatch_durable_def split: sum.splits prod.splits)
  from tr have "transition K C E now L s x False = Inr ((fence, changed), L')"
    by (cases rule: transaction_Inr) (auto simp: committed_Inr)
  from transition_phase [OF this] out
  show "out = ClosureMayHaveDispatched \<longrightarrow> phase_of L' x = Some 1"
    and "(\<exists>c. out = Closed c \<or> out = AlreadyClosed c) \<longrightarrow> phase_of L' x = Some 2"
    and "(\<exists>c. out = Closed c) \<longrightarrow> phase_of L x = Some 0"
    by (auto simp: closure_outcome_of_def split: fence.splits if_splits)
qed

section \<open>Histories\<close>

text \<open>The calls of a history that got a permit for \<open>x\<close>, and those that were told it is closed.\<close>

fun got_permit :: "string \<Rightarrow> ledger_call \<times> call_answer \<Rightarrow> bool" where
  "got_permit x (AuthorizeDispatch s y, AnswerDispatch (Inr (Authorized p))) = (x = y)"
| "got_permit x _ = False"

fun told_closed :: "string \<Rightarrow> ledger_call \<times> call_answer \<Rightarrow> bool" where
  "told_closed x (CloseBeforeDispatch s y, AnswerClosure (Inr (Closed c))) = (x = y)"
| "told_closed x (CloseBeforeDispatch s y, AnswerClosure (Inr (AlreadyClosed c))) = (x = y)"
| "told_closed x (AuthorizeDispatch s y, AnswerDispatch (Inr (ClosedBeforeDispatch c))) = (x = y)"
| "told_closed x _ = False"

lemma got_permit_phase:
  assumes "got_permit x (call, fst (perform K C w L call))"
  shows "phase_of L x = Some 0" and "phase_of (snd (perform K C w L call)) x = Some 1"
proof -
  from assms obtain s p where "call = AuthorizeDispatch s x"
    and "fst (authorize_dispatch_durable K C (wo_engine w) (wo_utc w) L s x) = Inr (Authorized p)"
    by (cases call) (auto elim: got_permit.elims)
  with authorize_answer(1) [of K C "wo_engine w" "wo_utc w" L s x "Authorized p"
      "snd (perform K C w L call)"]
  show "phase_of L x = Some 0" and "phase_of (snd (perform K C w L call)) x = Some 1"
    by (auto simp: prod_eq_iff)
qed

lemma told_closed_phase:
  assumes "told_closed x (call, fst (perform K C w L call))"
  shows "phase_of (snd (perform K C w L call)) x = Some 2"
proof -
  from assms consider
    s c where "call = CloseBeforeDispatch s x"
      "fst (close_before_dispatch_durable K C (wo_engine w) (wo_utc w) L s x) = Inr (Closed c) \<or>
       fst (close_before_dispatch_durable K C (wo_engine w) (wo_utc w) L s x) = Inr (AlreadyClosed c)"
  | s c where "call = AuthorizeDispatch s x"
      "fst (authorize_dispatch_durable K C (wo_engine w) (wo_utc w) L s x) =
         Inr (ClosedBeforeDispatch c)"
    by (cases call) (auto elim: told_closed.elims)
  then show ?thesis
  proof cases
    case 1
    then obtain out where "close_before_dispatch_durable K C (wo_engine w) (wo_utc w) L s x =
        (Inr out, snd (perform K C w L call))" and "\<exists>c. out = Closed c \<or> out = AlreadyClosed c"
      by (cases "close_before_dispatch_durable K C (wo_engine w) (wo_utc w) L s x") auto
    then show ?thesis using close_answer(2) by blast
  next
    case 2
    then have "authorize_dispatch_durable K C (wo_engine w) (wo_utc w) L s x =
        (Inr (ClosedBeforeDispatch c), snd (perform K C w L call))"
      by (simp add: prod_eq_iff)
    then show ?thesis using authorize_answer(3) by blast
  qed
qed

lemma settled_phase_answers:
  assumes "phase_of L x = Some p" and "p \<noteq> 0"
  shows "\<forall>a \<in> set (fst (history K C L calls)). \<not> got_permit x a \<and> (told_closed x a \<longrightarrow> p = 2)"
  using assms
proof (induction calls arbitrary: L)
  case (Cons c calls)
  obtain w call where c: "c = (w, call)" by (cases c)
  have next_phase: "phase_of (snd (perform K C w L call)) x = Some p"
    by (rule phase_left [OF Cons.prems])
  have "\<not> got_permit x (call, fst (perform K C w L call))"
    using got_permit_phase(1) [of x call K C w L] Cons.prems by auto
  moreover have "told_closed x (call, fst (perform K C w L call)) \<longrightarrow> p = 2"
    using told_closed_phase [of x call K C w L] next_phase by auto
  ultimately show ?case
    using Cons.IH [OF next_phase Cons.prems(2)] by (simp add: c)
qed simp

lemma permit_not_closed: "got_permit x a \<Longrightarrow> \<not> told_closed x a"
  by (cases "(x, a)" rule: got_permit.cases) auto

section \<open>Properties\<close>

text \<open>
  C1: an execution gets at most one dispatch permit over every history of calls of the ledger, in
  any order, whatever the engine fails or leaves unconfirmed, whatever the clocks read and the
  random source draws; and an execution that got a permit is never reported closed before
  dispatch, nor does one reported closed get a permit.
\<close>

theorem one_dispatch_permit:
  "length (filter (got_permit x) (fst (history K C L calls))) \<le> 1 \<and>
   \<not> ((\<exists>a \<in> set (fst (history K C L calls)). got_permit x a) \<and>
      (\<exists>a \<in> set (fst (history K C L calls)). told_closed x a))"
proof (induction calls arbitrary: L)
  case (Cons c calls)
  obtain w call where c: "c = (w, call)" by (cases c)
  let ?a = "(call, fst (perform K C w L call))" and ?L = "snd (perform K C w L call)"
  note IH = Cons.IH [of ?L]
  show ?case
  proof (cases "got_permit x ?a")
    case True
    then have none: "\<forall>a \<in> set (fst (history K C ?L calls)). \<not> got_permit x a \<and> \<not> told_closed x a"
      using settled_phase_answers [OF got_permit_phase(2) [OF True], of K C calls] by auto
    then have "filter (got_permit x) (fst (history K C ?L calls)) = []" by (simp add: filter_empty_conv)
    with True permit_not_closed [OF True] none show ?thesis by (simp add: c)
  next
    case False
    show ?thesis
    proof (cases "told_closed x ?a")
      case True
      then have "\<forall>a \<in> set (fst (history K C ?L calls)). \<not> got_permit x a"
        using settled_phase_answers [OF told_closed_phase [OF True], of K C calls] by auto
      with False show ?thesis by (simp add: c filter_empty_conv)
    next
      case False
      with IH \<open>\<not> got_permit x ?a\<close> show ?thesis by (simp add: c)
    qed
  qed
qed simp

text \<open>A history in which the first of two authorizations gets the permit.\<close>

theorem one_dispatch_permit_witness:
  "length (filter (got_permit ex_x) (fst (history ex_calendar ex_codec ex_db (map (Pair ex_world)
     [ReserveIntent ''team'' 60 0 900000000000 10 True None, AuthorizeDispatch ''team'' ex_x,
      AuthorizeDispatch ''team'' ex_x])))) = 1"
proof -
  let ?calls = "map (Pair ex_world)
     [ReserveIntent ''team'' 60 0 900000000000 10 True None, AuthorizeDispatch ''team'' ex_x,
      AuthorizeDispatch ''team'' ex_x]"
  have "filter (got_permit ex_x) (fst (history ex_calendar ex_codec ex_db ?calls)) \<noteq> []"
    by (simp add: ex_reserve ex_authorize del: perform.simps)
  then show ?thesis
    using one_dispatch_permit [of ex_x ex_calendar ex_codec ex_db ?calls]
    by (cases "filter (got_permit ex_x) (fst (history ex_calendar ex_codec ex_db ?calls))") simp_all
qed

end
