(* ===== verification/Evidence_Inv.thy ===== *)
theory Evidence_Inv
  imports Evidence_Calls
begin

text \<open>
  The consistency of the durable evidence: for every execution the rows of its intent, its
  reservation, its fence, its observation and its receipt agree, after every call of the ledger,
  whatever the engine does. The checked readings of recovery and settlement therefore never find
  evidence the ledger itself has damaged.
\<close>

section \<open>The invariant\<close>

text \<open>The part of a receipt row that no claim and no acknowledgement changes.\<close>

definition receipt_core :: "string \<times> outbox_row \<Rightarrow> string \<times> int \<times> string \<times> int \<times> int" where
  "receipt_core = (\<lambda>(k, b). (k, ob_reservation_id b, ob_scope b, ob_charged_tokens b, ob_settled_at b))"

definition stored_receipt :: "sqlite_ledger \<Rightarrow> int \<Rightarrow> (string \<times> int \<times> string \<times> int \<times> int) option" where
  "stored_receipt L i = map_option receipt_core (find_receipt L i)"

definition observation_ok :: "usage_codec \<Rightarrow> observation_row option \<Rightarrow> bool" where
  "observation_ok C obs \<longleftrightarrow>
     (case obs of
        None \<Rightarrow> True
      | Some row \<Rightarrow>
          to_version row = 1 \<and>
          (\<exists>u. dec_usage C (to_usage_json row) = Some u \<and>
               encode_usage C u = Inr (to_usage_json row) \<and>
               ((u_completeness u = Unavailable) = (to_frozen_charge row = None))) \<and>
          (case to_frozen_charge row of None \<Rightarrow> True | Some c \<Rightarrow> 0 \<le> c \<and> c < 2 ^ 63))"

text \<open>The charge of an observation that is final and provider-reported.\<close>

definition final_charge :: "usage_codec \<Rightarrow> observation_row option \<Rightarrow> int option" where
  "final_charge C obs =
     (case obs of
        None \<Rightarrow> None
      | Some row \<Rightarrow>
          (case dec_usage C (to_usage_json row) of
             None \<Rightarrow> None
           | Some u \<Rightarrow>
               if u_completeness u = Final \<and> u_basis u = ProviderReported then to_frozen_charge row
               else None))"

definition open_row :: "reservation_row \<Rightarrow> bool" where
  "open_row r \<longleftrightarrow> rr_settled r = 0 \<and> rr_actual r = 0 \<and> rr_settled_at r = None"

definition charged_ok ::
  "usage_codec \<Rightarrow> int \<Rightarrow> reservation_row \<Rightarrow> observation_row option \<Rightarrow>
     (string \<times> int \<times> string \<times> int \<times> int) option \<Rightarrow> bool" where
  "charged_ok C i r obs receipt \<longleftrightarrow>
     open_row r \<and> receipt = None \<or>
     (\<exists>rid ts. rr_settled r = 1 \<and> receipt = Some (rid, i, rr_scope r, rr_actual r, ts) \<and>
        final_charge C obs = Some (rr_actual r) \<and> rr_settled_at r = Some ts \<and>
        validate_execution_id rid = Inr ())"

definition execution_ok ::
  "calendar \<Rightarrow> usage_codec \<Rightarrow> int \<Rightarrow> reservation_row \<Rightarrow> fence_row option \<Rightarrow>
     observation_row option \<Rightarrow> (string \<times> int \<times> string \<times> int \<times> int) option \<Rightarrow> bool" where
  "execution_ok K C i r fence obs receipt \<longleftrightarrow>
     observation_ok C obs \<and>
     (case fence of
        None \<Rightarrow> charged_ok C i r obs receipt
      | Some f \<Rightarrow>
          f_phase f = 0 \<and> f_transitioned_at f = None \<and> open_row r \<and> obs = None \<and> receipt = None \<or>
          (\<exists>ts. f_transitioned_at f = Some ts \<and> from_unix_timestamp K ts \<noteq> None \<and>
             (f_phase f = 1 \<and> charged_ok C i r obs receipt \<or>
              f_phase f = 2 \<and> rr_settled r = 1 \<and> rr_actual r = 0 \<and> rr_settled_at r = Some ts \<and>
              obs = None \<and> receipt = None)))"

definition intent_ok :: "calendar \<Rightarrow> usage_codec \<Rightarrow> sqlite_ledger \<Rightarrow> string \<Rightarrow> int \<Rightarrow> bool" where
  "intent_ok K C L x i \<longleftrightarrow>
     validate_execution_id x = Inr () \<and> 0 < i \<and> i \<le> sl_sequence L \<and>
     (\<exists>r. map_of (sl_reservations L) i = Some r \<and>
        execution_ok K C i r (map_of (sl_fences L) x) (map_of (sl_observations L) x)
          (stored_receipt L i))"

definition bounded_ids :: "sqlite_ledger \<Rightarrow> bool" where
  "bounded_ids L \<longleftrightarrow>
     (\<forall>p \<in> set (sl_outbox L). ob_reservation_id (snd p) \<le> sl_sequence L) \<and>
     (\<forall>p \<in> set (sl_reservations L). fst p \<le> sl_sequence L) \<and>
     0 \<le> sl_sequence L \<and> sl_sequence L < 2 ^ 63"

definition reservation_of :: "sqlite_ledger \<Rightarrow> string \<Rightarrow> int option" where
  "reservation_of L x = map_option in_reservation_id (map_of (sl_intents L) x)"

definition evidence_inv :: "calendar \<Rightarrow> usage_codec \<Rightarrow> sqlite_ledger \<Rightarrow> bool" where
  "evidence_inv K C L \<longleftrightarrow>
     bounded_ids L \<and> distinct (map fst (sl_intents L)) \<and>
     (\<forall>x i. reservation_of L x = Some i \<longrightarrow> intent_ok K C L x i) \<and>
     (\<forall>x y i. reservation_of L x = Some i \<and> reservation_of L y = Some i \<longrightarrow> x = y) \<and>
     (\<forall>x. reservation_of L x = None \<longrightarrow>
        map_of (sl_fences L) x = None \<and> map_of (sl_observations L) x = None)"

text \<open>What the world and the codec do: instants have a timestamp, a draw has 32 bytes.\<close>

definition world_ok :: "calendar \<Rightarrow> world \<Rightarrow> bool" where
  "world_ok K w \<longleftrightarrow>
     from_unix_timestamp K (unix_timestamp (wo_utc w)) \<noteq> None \<and>
     (\<forall>k bytes. wo_entropy w k = Some bytes \<longrightarrow> length bytes = 32)"

definition codec_ok :: "usage_codec \<Rightarrow> bool" where
  "codec_ok C \<longleftrightarrow> (\<forall>u s. encode_usage C u = Inr s \<longrightarrow> dec_usage C s = Some u)"

section \<open>Frames\<close>

lemma stored_receipt_find:
  "stored_receipt L i = find (\<lambda>c. fst (snd c) = i) (map receipt_core (sl_outbox L))"
proof -
  have "map_option receipt_core (find (\<lambda>(_, row). ob_reservation_id row = i) xs) =
      find (\<lambda>c. fst (snd c) = i) (map receipt_core xs)" for xs
    by (induction xs) (auto simp: receipt_core_def)
  then show ?thesis by (simp add: stored_receipt_def find_receipt_def)
qed

lemma stored_receipt_cong:
  "map receipt_core (sl_outbox L') = map receipt_core (sl_outbox L) \<Longrightarrow>
     stored_receipt L' i = stored_receipt L i"
  by (simp add: stored_receipt_find)

lemma stored_receipt_add:
  "stored_receipt (add_receipt L rid i s c ts) j =
     (case stored_receipt L j of
        Some x \<Rightarrow> Some x | None \<Rightarrow> if j = i then Some (rid, i, s, c, ts) else None)"
  by (simp add: stored_receipt_find add_receipt_def find_snoc receipt_core_def split: option.split)

lemma reservation_of_tracked: "reservation_of L x = Some i \<Longrightarrow> is_tracked L i"
  by (force simp: reservation_of_def is_tracked_def dest: map_of_SomeD)

lemma evidence_invD:
  assumes "evidence_inv K C L"
  shows "bounded_ids L" and "reservation_of L x = Some i \<Longrightarrow> intent_ok K C L x i"
    and "\<lbrakk>reservation_of L x = Some i; reservation_of L y = Some i\<rbrakk> \<Longrightarrow> x = y"
    and "reservation_of L x = None \<Longrightarrow> map_of (sl_fences L) x = None"
    and "reservation_of L x = None \<Longrightarrow> map_of (sl_observations L) x = None"
    and "distinct (map fst (sl_intents L))"
  using assms unfolding evidence_inv_def by blast+

lemma evidence_frame:
  assumes inv: "evidence_inv K C L" and ids: "bounded_ids L'"
    and same: "sl_intents L' = sl_intents L" "sl_fences L' = sl_fences L"
      "sl_observations L' = sl_observations L"
    and seq: "sl_sequence L \<le> sl_sequence L'"
    and rows: "\<And>i. is_tracked L i \<Longrightarrow> i \<le> sl_sequence L \<Longrightarrow>
      map_of (sl_reservations L') i = map_of (sl_reservations L) i"
    and receipts: "\<And>i. is_tracked L i \<Longrightarrow> stored_receipt L' i = stored_receipt L i"
  shows "evidence_inv K C L'"
proof -
  have res: "reservation_of L' = reservation_of L" by (simp add: fun_eq_iff reservation_of_def same)
  have "intent_ok K C L' x i" if "reservation_of L x = Some i" for x i
    using evidence_invD(2) [OF inv that] rows [OF reservation_of_tracked [OF that]]
      receipts [OF reservation_of_tracked [OF that]] seq
    by (auto simp: intent_ok_def same)
  with inv ids show ?thesis unfolding evidence_inv_def res same by blast
qed

text \<open>A change of one execution.\<close>

lemma evidence_update:
  assumes inv: "evidence_inv K C L" and ids: "bounded_ids L'" and x: "reservation_of L x = Some i"
    and same: "sl_intents L' = sl_intents L" "sl_sequence L' = sl_sequence L"
    and others: "\<And>y. y \<noteq> x \<Longrightarrow> map_of (sl_fences L') y = map_of (sl_fences L) y \<and>
      map_of (sl_observations L') y = map_of (sl_observations L) y"
    and rows: "\<And>j. j \<noteq> i \<Longrightarrow> map_of (sl_reservations L') j = map_of (sl_reservations L) j \<and>
      stored_receipt L' j = stored_receipt L j"
    and ok: "intent_ok K C L' x i"
  shows "evidence_inv K C L'"
proof -
  have res: "reservation_of L' = reservation_of L" by (simp add: fun_eq_iff reservation_of_def same)
  have "intent_ok K C L' y j" if y: "reservation_of L y = Some j" for y j
  proof (cases "y = x")
    case True
    with x y ok show ?thesis by simp
  next
    case False
    then have "j \<noteq> i" using evidence_invD(3) [OF inv x, of y] y by auto
    with False evidence_invD(2) [OF inv y] others [of y] rows [of j] show ?thesis
      by (simp add: intent_ok_def same)
  qed
  moreover have "map_of (sl_fences L') y = None \<and> map_of (sl_observations L') y = None"
    if "reservation_of L y = None" for y
  proof -
    have "y \<noteq> x" using that x by auto
    then show ?thesis using others [of y] evidence_invD(4,5) [OF inv that] by simp
  qed
  ultimately show ?thesis
    using ids evidence_invD(3,6) [OF inv] unfolding evidence_inv_def res same(1) by blast
qed

section \<open>Untracked changes\<close>

lemma evidence_reclaim:
  assumes inv: "evidence_inv K C L" and keep: "\<forall>i r. is_tracked L i \<longrightarrow> P (i, r)"
    and L': "L' = L\<lparr>sl_reservations := filter P (sl_reservations L)\<rparr>"
  shows "evidence_inv K C L'"
proof (rule evidence_frame [OF inv])
  show "bounded_ids L'" using evidence_invD(1) [OF inv] by (auto simp: bounded_ids_def L')
  show "map_of (sl_reservations L') i = map_of (sl_reservations L) i" if "is_tracked L i" for i
    using keep that by (simp add: L' map_of_filter_keep)
  show "stored_receipt L' i = stored_receipt L i" for i
    by (rule stored_receipt_cong) (simp add: L')
qed (simp_all add: L')

lemma tracked_not_reclaimable: "is_tracked L i \<Longrightarrow> \<not> reclaimable L t (i, r)"
  by (simp add: reclaimable_def)

lemma evidence_lease:
  assumes inv: "evidence_inv K C L"
    and res: "reserve_in_transaction K E L s c now ttl = Inr (Admitted r, L')"
  shows "evidence_inv K C L'"
proof -
  define L1 where "L1 = reclaim_scope L s (unix_timestamp now)"
  note adm = reserve_in_transaction_admitted [OF res, folded L1_def]
  have inv1: "evidence_inv K C L1"
    by (rule evidence_reclaim [OF inv _ L1_def [unfolded reclaim_scope_def]])
      (simp add: tracked_not_reclaimable)
  show ?thesis
  proof (rule evidence_frame [OF inv1])
    show "bounded_ids L'"
      using evidence_invD(1) [OF inv1] adm(2) by (auto simp: bounded_ids_def adm(4) new_lease_def L1_def)
    show "map_of (sl_reservations L') i = map_of (sl_reservations L1) i"
      if "i \<le> sl_sequence L1" for i
      using that by (simp add: adm(4) new_lease_def map_add_def split: option.split)
    show "stored_receipt L' i = stored_receipt L1 i" for i
      by (rule stored_receipt_cong) (simp add: adm(4))
  qed (simp_all add: adm(4))
qed

lemma evidence_settle:
  assumes inv: "evidence_inv K C L" and free: "\<not> is_tracked L i"
  shows "evidence_inv K C (settle_row L i a ts)"
proof (rule evidence_frame [OF inv])
  show "bounded_ids (settle_row L i a ts)"
    using evidence_invD(1) [OF inv] by (auto simp: bounded_ids_def settle_row_def)
  show "map_of (sl_reservations (settle_row L i a ts)) j = map_of (sl_reservations L) j"
    if "is_tracked L j" for j
  proof -
    have "j \<noteq> i" using free that by auto
    then show ?thesis by (simp add: map_of_settle_row option.map_ident)
  qed
  show "stored_receipt (settle_row L i a ts) j = stored_receipt L j" for j
    by (rule stored_receipt_cong) simp
qed simp_all

lemma evidence_outbox:
  assumes inv: "evidence_inv K C L"
    and core: "map receipt_core (sl_outbox L') = map receipt_core (sl_outbox L)"
    and L': "L' = L\<lparr>sl_outbox := ob\<rparr>"
  shows "evidence_inv K C L'"
proof (rule evidence_frame [OF inv])
  have "map (\<lambda>p. ob_reservation_id (snd p)) ob = map (\<lambda>p. ob_reservation_id (snd p)) (sl_outbox L)"
    using arg_cong [OF core, of "map (fst \<circ> snd)"] by (simp add: L' receipt_core_def o_def split_def)
  then have "(\<lambda>p. ob_reservation_id (snd p)) ` set ob =
      (\<lambda>p. ob_reservation_id (snd p)) ` set (sl_outbox L)"
    by (metis list.set_map)
  then have "\<forall>p \<in> set ob. ob_reservation_id (snd p) \<le> sl_sequence L"
    using evidence_invD(1) [OF inv] unfolding bounded_ids_def by (metis (no_types, lifting) imageE imageI)
  then show "bounded_ids L'" using evidence_invD(1) [OF inv] by (simp add: bounded_ids_def L')
  show "stored_receipt L' i = stored_receipt L i" for i
    by (rule stored_receipt_cong [OF core])
qed (simp_all add: L')

lemma receipt_core_update:
  assumes "map_of xs k = Some row" and "receipt_core (k, row') = receipt_core (k, row)"
  shows "map receipt_core (AList.update k row' xs) = map receipt_core xs"
  using assms by (induction xs) (auto split: if_splits)

lemma claim_each_core:
  "claim_each E entropy k until L pending = Inr (claims, L') \<Longrightarrow>
     map receipt_core (sl_outbox L') = map receipt_core (sl_outbox L) \<and> (\<exists>ob. L' = L\<lparr>sl_outbox := ob\<rparr>)"
proof (induction pending arbitrary: k L claims)
  case Nil
  then show ?case by (auto intro: exI [of _ "sl_outbox L"])
next
  case (Cons receipt pending)
  then obtain row token claims' where row: "map_of (sl_outbox L) (sr_receipt_id receipt) = Some row"
    and rest: "claim_each E entropy (Suc k) until (L\<lparr>sl_outbox := AList.update (sr_receipt_id receipt)
        (row\<lparr>ob_claim_token := Some token, ob_claim_until := Some until\<rparr>) (sl_outbox L)\<rparr>) pending =
        Inr (claims', L')"
    by (auto elim!: bind_resE simp: Let_def split: option.split_asm)
  have "map receipt_core (AList.update (sr_receipt_id receipt)
      (row\<lparr>ob_claim_token := Some token, ob_claim_until := Some until\<rparr>) (sl_outbox L)) =
    map receipt_core (sl_outbox L)"
    by (rule receipt_core_update [OF row]) (simp add: receipt_core_def)
  with Cons.IH [OF rest] show ?case by auto
qed

lemma evidence_receipt:
  assumes inv: "evidence_inv K C L" and free: "\<not> is_tracked L i"
    and i: "i \<le> sl_sequence L"
  shows "evidence_inv K C (add_receipt (settle_row L i a ts) rid i s a ts)"
proof (rule evidence_frame [OF evidence_settle [OF inv free, of a ts]])
  show "bounded_ids (add_receipt (settle_row L i a ts) rid i s a ts)"
    using evidence_invD(1) [OF evidence_settle [OF inv free, of a ts]] i
    by (auto simp: bounded_ids_def add_receipt_def)
  show "stored_receipt (add_receipt (settle_row L i a ts) rid i s a ts) j =
      stored_receipt (settle_row L i a ts) j" if "is_tracked (settle_row L i a ts) j" for j
  proof -
    have "j \<noteq> i" using that free by (auto simp: is_tracked_def)
    then show ?thesis by (simp add: stored_receipt_add split: option.split)
  qed
qed (simp_all add: add_receipt_def)

section \<open>Changes of one execution\<close>

text \<open>The admission with an intent: the new execution has an open row and a prepared fence, if any.\<close>

lemma evidence_intent:
  assumes inv: "evidence_inv K C L"
    and res: "reserve_in_transaction K E L s c now ttl = Inr (Admitted r, L1)"
    and fresh: "map_of (sl_intents L1) x = None" "\<not> is_tracked L1 (uint (r_id r))"
    and valid: "validate_execution_id x = Inr ()"
  shows "evidence_inv K C (with_intent L1 x (uint (r_id r)) ts prepared request_id)"
    (is "evidence_inv K C ?L")
proof -
  define L0 where "L0 = reclaim_scope L s (unix_timestamp now)"
  have inv1: "evidence_inv K C L1" by (rule evidence_lease [OF inv res])
  note ids = evidence_invD(1) [OF inv1]
  note adm = reserve_in_transaction_admitted [OF res, folded L0_def]
  have seq0: "sl_sequence L0 = sl_sequence L" by (simp add: L0_def)
  have seq_nonneg: "0 \<le> sl_sequence L" using evidence_invD(1) [OF inv] by (simp add: bounded_ids_def)
  then have seq_pos: "0 < sl_sequence L1" by (simp add: adm(4) seq0)
  have i: "uint (r_id r) = sl_sequence L1"
    using seq_nonneg adm(2) uint_word_of_int_eq [of "sl_sequence L + 1"]
    by (simp add: adm(3,4) seq0)
  have old: "reservation_of ?L y = (if y = x then Some (uint (r_id r)) else reservation_of L1 y)" for y
    using fresh(1) by (simp add: with_intent_def reservation_of_def map_add_def split: option.split)
  have x1: "reservation_of L1 x = None" using fresh(1) by (simp add: reservation_of_def)
  have tables: "sl_reservations ?L = sl_reservations L1" "sl_observations ?L = sl_observations L1"
    "sl_outbox ?L = sl_outbox L1" "sl_sequence ?L = sl_sequence L1"
    by (simp_all add: with_intent_def)
  have receipts: "stored_receipt ?L j = stored_receipt L1 j" for j
    by (rule stored_receipt_cong) (simp add: tables)
  have fences: "map_of (sl_fences ?L) y = (if y = x \<and> prepared
      then Some \<lparr>f_phase = 0, f_transitioned_at = None\<rparr> else map_of (sl_fences L1) y)" for y
    using evidence_invD(4) [OF inv1 x1] by (simp add: with_intent_def map_add_def split: option.split)
  have row: "map_of (sl_reservations L1) (sl_sequence L1) =
      Some \<lparr>rr_scope = s, rr_ceiling = int (unat c), rr_actual = 0, rr_settled = 0,
            rr_settled_at = None, rr_expires_at = unix_timestamp (now + ttl)\<rparr>"
  proof -
    have "\<forall>p \<in> set (sl_reservations L0). fst p \<le> sl_sequence L"
      using evidence_invD(1) [OF inv] by (auto simp: L0_def reclaim_scope_def bounded_ids_def)
    then have "map_of (sl_reservations L0) (sl_sequence L0 + 1) = None"
      by (force simp: map_of_eq_None_iff seq0)
    then show ?thesis by (simp add: adm(4) new_lease_def map_add_def)
  qed
  have no_receipt: "stored_receipt L1 (sl_sequence L1) = None"
  proof -
    have "\<forall>p \<in> set (sl_outbox L1). ob_reservation_id (snd p) < sl_sequence L1"
      using evidence_invD(1) [OF inv] by (auto simp: bounded_ids_def adm(4) L0_def)
    then show ?thesis by (force simp: stored_receipt_def find_receipt_def find_None_iff)
  qed
  have ok: "intent_ok K C ?L x (uint (r_id r))"
    unfolding intent_ok_def tables receipts fences unfolding i
    using row no_receipt evidence_invD(4,5) [OF inv1 x1] seq_pos valid
    by (simp add: execution_ok_def observation_ok_def charged_ok_def open_row_def)
  have "intent_ok K C ?L y j" if "reservation_of ?L y = Some j" for y j
  proof (cases "y = x")
    case True
    with that ok show ?thesis by (simp add: old)
  next
    case False
    then have "reservation_of L1 y = Some j" using that by (simp add: old)
    from evidence_invD(2) [OF inv1 this] False show ?thesis
      by (simp add: intent_ok_def tables receipts fences)
  qed
  moreover have "y = z" if "reservation_of ?L y = Some j" "reservation_of ?L z = Some j" for y z j
  proof -
    have "reservation_of L1 v \<noteq> Some (uint (r_id r))" for v
      using fresh(2) reservation_of_tracked [of L1 v] by auto
    with that evidence_invD(3) [OF inv1, of y j z] show ?thesis by (auto simp: old split: if_split_asm)
  qed
  moreover have "map_of (sl_fences ?L) y = None \<and> map_of (sl_observations ?L) y = None"
    if "reservation_of ?L y = None" for y
  proof -
    have "y \<noteq> x" "reservation_of L1 y = None" using that by (auto simp: old split: if_split_asm)
    with evidence_invD(4,5) [OF inv1, of y] show ?thesis by (simp add: fences tables)
  qed
  moreover have "bounded_ids ?L" using ids by (simp add: bounded_ids_def tables)
  moreover have "distinct (map fst (sl_intents ?L))"
    using evidence_invD(6) [OF inv1] fresh(1) by (simp add: with_intent_def map_of_eq_None_iff)
  ultimately show ?thesis unfolding evidence_inv_def by blast
qed

lemma checked_fence_None: "checked_fence K C E L s x i = Inr None \<Longrightarrow> map_of (sl_fences L) x = None"
  unfolding checked_fence_def
  by (elim bind_resE) (auto simp: Let_def elim!: bind_resE split: option.split_asm if_split_asm)

lemma observable_binding_Inr:
  assumes "observable_binding K C E L s x = Inr (i, settled)"
  obtains j r where "reservation_of L x = Some j" and "map_of (sl_reservations L) j = Some r"
    and "i = word_of_int j" and "rr_scope r = s" and "settled = (rr_settled r \<noteq> 0)"
    and "map_of (sl_fences L) x = None \<or>
      (\<exists>f. map_of (sl_fences L) x = Some f \<and> f_phase f = 1)"
proof -
  from assms have b: "intent_binding E L x = Inr (Some (i, s, settled))"
    and "require_observable K C E L s x i = Inr ()"
    unfolding observable_binding_def
    by (auto elim!: bind_resE split: option.split_asm if_split_asm)
  then have "checked_fence K C E L s x i = Inr None \<or>
      checked_fence K C E L s x i = Inr (Some FenceAuthorized)"
    unfolding require_observable_def by (auto elim!: bind_resE split: if_split_asm)
  then have f: "map_of (sl_fences L) x = None \<or>
      (\<exists>f. map_of (sl_fences L) x = Some f \<and> f_phase f = 1)"
  proof
    assume "checked_fence K C E L s x i = Inr None"
    then show ?thesis by (simp add: checked_fence_None)
  next
    assume "checked_fence K C E L s x i = Inr (Some FenceAuthorized)"
    then show ?thesis by (rule checked_fence_phase) auto
  qed
  obtain t r where "map_of (sl_intents L) x = Some t"
    and "map_of (sl_reservations L) (in_reservation_id t) = Some r"
    and "i = word_of_int (in_reservation_id t)" and "s = rr_scope r" and "settled = (rr_settled r \<noteq> 0)"
    using b by (rule intent_binding_Inr)
  with f show thesis by (intro that [of "in_reservation_id t" r]) (simp_all add: reservation_of_def)
qed

lemma read_observation_None: "read_observation C E L x i s = Inr None \<Longrightarrow> map_of (sl_observations L) x = None"
  unfolding read_observation_def
  by (elim bind_resE) (auto elim!: bind_resE split: option.split_asm if_split_asm)

lemma read_observation_Some:
  assumes "read_observation C E L x i s = Inr (Some obs)"
  obtains row where "map_of (sl_observations L) x = Some row"
    and "dec_usage C (to_usage_json row) = Some (t_usage obs)"
    and "t_frozen_charge obs = map_option word_of_int (to_frozen_charge row)"
  using assms unfolding read_observation_def
  by (elim bind_resE)
    (auto simp: stored_Inr get_opt_u64_def get_u64_def map_sum_def elim!: bind_resE
      split: option.split_asm if_split_asm sum.split_asm)

lemma terminal_charge_Inr:
  assumes "terminal_charge obs = Inr charge"
  shows "u_completeness (t_usage obs) = Final" and "u_basis (t_usage obs) = ProviderReported"
    and "\<exists>c. t_frozen_charge obs = Some c \<and> charge = uint c"
  using assms by (auto simp: terminal_charge_def split: if_split_asm option.split_asm)

lemma final_charge_read:
  assumes "observation_ok C (map_of (sl_observations L) x)"
    and "read_observation C E L x i s = Inr (Some obs)" and "terminal_charge obs = Inr charge"
  shows "final_charge C (map_of (sl_observations L) x) = Some charge"
proof -
  from assms(2) obtain row where row: "map_of (sl_observations L) x = Some row"
    "dec_usage C (to_usage_json row) = Some (t_usage obs)"
    "t_frozen_charge obs = map_option word_of_int (to_frozen_charge row)"
    by (rule read_observation_Some)
  note t = terminal_charge_Inr [OF assms(3)]
  obtain v where v: "to_frozen_charge row = Some v" "charge = uint (word_of_int v :: u64)"
    using t(3) row(3) by auto
  moreover have "0 \<le> v \<and> v < 2 ^ 63" using assms(1) v(1) by (simp add: observation_ok_def row(1))
  ultimately have "charge = v" by (simp add: uint_word_of_int_eq)
  then show ?thesis by (simp add: final_charge_def row v(1) t(1,2))
qed

lemma intent_okD:
  assumes "evidence_inv K C L" and "reservation_of L x = Some i"
    and "map_of (sl_reservations L) i = Some r"
  shows "execution_ok K C i r (map_of (sl_fences L) x) (map_of (sl_observations L) x)
      (stored_receipt L i)"
    and "0 < i" and "i \<le> sl_sequence L" and "i < 2 ^ 63"
    and "uint (word_of_int i :: u64) = i" and "validate_execution_id x = Inr ()"
proof -
  from evidence_invD(1) [OF assms(1)] evidence_invD(2) [OF assms(1,2)] assms(3)
  show "execution_ok K C i r (map_of (sl_fences L) x) (map_of (sl_observations L) x)
      (stored_receipt L i)" and i: "0 < i" "i \<le> sl_sequence L" "i < 2 ^ 63"
    and "validate_execution_id x = Inr ()"
    by (auto simp: intent_ok_def bounded_ids_def)
  then show "uint (word_of_int i :: u64) = i" by (simp add: uint_word_of_int_eq)
qed

lemma execution_ok_phase1:
  "f = None \<or> (\<exists>g. f = Some g \<and> f_phase g = 1) \<Longrightarrow>
   execution_ok K C i r f obs receipt \<longleftrightarrow>
     observation_ok C obs \<and> charged_ok C i r obs receipt \<and>
     is_none_or f (\<lambda>g. \<exists>ts. f_transitioned_at g = Some ts \<and> from_unix_timestamp K ts \<noteq> None)"
  by (auto simp: execution_ok_def is_none_or_def)

lemma evidence_observe:
  assumes inv: "evidence_inv K C L" and codec: "codec_ok C"
    and enc: "encode_usage C usage = Inr encoded"
    and bind: "observable_binding K C E L s x = Inr (i, settled)"
    and none: "map_of (sl_observations L) x = None" and storable: "charge_storable usage bp"
  shows "evidence_inv K C (L\<lparr>sl_observations := sl_observations L @ [(x,
           \<lparr>to_version = 1, to_usage_json = encoded,
            to_frozen_charge = map_option uint (frozen_charge_of usage bp),
            to_observed_at = ts\<rparr>)]\<rparr>)" (is "evidence_inv K C ?L")
proof -
  obtain j r where j: "reservation_of L x = Some j" "map_of (sl_reservations L) j = Some r"
    and fence: "map_of (sl_fences L) x = None \<or> (\<exists>f. map_of (sl_fences L) x = Some f \<and> f_phase f = 1)"
    using bind by (rule observable_binding_Inr)
  note ok = intent_okD [OF inv j]
  have new: "map_of (sl_observations ?L) y = (if y = x then Some
      \<lparr>to_version = 1, to_usage_json = encoded,
       to_frozen_charge = map_option uint (frozen_charge_of usage bp), to_observed_at = ts\<rparr>
      else map_of (sl_observations L) y)" for y
    using none by (simp add: map_add_def split: option.split)
  have receipts: "stored_receipt ?L k = stored_receipt L k" for k
    by (rule stored_receipt_cong) simp
  have obs: "observation_ok C (map_of (sl_observations ?L) x)"
  proof -
    have "dec_usage C encoded = Some usage" using codec enc by (auto simp: codec_ok_def)
    moreover have "u_completeness usage = Unavailable \<longleftrightarrow> frozen_charge_of usage bp = None"
      by (simp add: frozen_charge_of_def split: usage_completeness.split)
    moreover have "uint c < 2 ^ 63" if "frozen_charge_of usage bp = Some c" for c
      using storable that by (simp add: charge_storable_def is_some_and_def not_le) (metis
        nat_less_numeral_power_cancel_iff numeral_less_iff of_nat_less_numeral_iff uint_nat)
    ultimately show ?thesis
      unfolding new using enc by (auto simp: observation_ok_def split: option.split)
  qed
  have "charged_ok C j r (map_of (sl_observations L) x) (stored_receipt L j)"
    using ok(1) execution_ok_phase1 [OF fence] by blast
  then have "charged_ok C j r (map_of (sl_observations ?L) x) (stored_receipt ?L j)"
    unfolding receipts by (simp add: charged_ok_def none final_charge_def)
  with obs ok(1) have "execution_ok K C j r (map_of (sl_fences L) x) (map_of (sl_observations ?L) x)
      (stored_receipt ?L j)"
    using execution_ok_phase1 [OF fence] by blast
  then have ok': "intent_ok K C ?L x j" using ok(2,3,6) j(2) by (simp add: intent_ok_def)
  show ?thesis
  proof (rule evidence_update [OF inv _ j(1) _ _ _ _ ok'])
    show "bounded_ids ?L" using evidence_invD(1) [OF inv] by (simp add: bounded_ids_def)
    show "map_of (sl_fences ?L) y = map_of (sl_fences L) y \<and>
        map_of (sl_observations ?L) y = map_of (sl_observations L) y" if "y \<noteq> x" for y
      using that unfolding new by simp
  qed (simp_all add: receipts)
qed

lemma evidence_terminal:
  assumes inv: "evidence_inv K C L"
    and bytes: "\<And>bytes. entropy = Some bytes \<Longrightarrow> length bytes = 32"
    and bind: "observable_binding K C E L s x = Inr (i, settled)"
    and obs: "read_observation C E L x i s = Inr (Some obs)" and charge: "terminal_charge obs = Inr charge"
    and settle: "settle_receipt E entropy now L s (uint i) charge = Inr (out, L')"
  shows "evidence_inv K C L'"
  using settle
proof (cases rule: settle_receipt_Inr)
  case (Fresh rid r)
  obtain j r' where j: "reservation_of L x = Some j" "map_of (sl_reservations L) j = Some r'"
    and i: "i = word_of_int j"
    and fence: "map_of (sl_fences L) x = None \<or> (\<exists>f. map_of (sl_fences L) x = Some f \<and> f_phase f = 1)"
    using bind by (rule observable_binding_Inr)
  note ok = intent_okD [OF inv j]
  have ij: "uint i = j" by (simp add: i ok(5))
  have r: "r' = r" using Fresh(3) j(2) by (simp add: ij)
  have rid: "validate_execution_id rid = Inr ()"
    using Fresh(2) bytes by (cases entropy) (auto simp: opaque_id_def intro: opaque_id_valid)
  note L' = Fresh(9) [unfolded ij]
  let ?r = "r\<lparr>rr_actual := charge, rr_settled := 1, rr_settled_at := Some (unix_timestamp now)\<rparr>"
  have row: "map_of (sl_reservations L') j = Some ?r"
    using j(2) Fresh(5) by (simp add: L' add_receipt_def map_of_settle_row r)
  have none: "stored_receipt L j = None" using Fresh(1) by (simp add: stored_receipt_def ij)
  have receipts: "stored_receipt L' k =
      (if k = j then Some (rid, j, s, charge, unix_timestamp now) else stored_receipt L k)" for k
    using none unfolding L' stored_receipt_add
    by (auto simp: stored_receipt_cong [of "settle_row L j charge (unix_timestamp now)" L]
        split: option.split)
  have obs_ok: "observation_ok C (map_of (sl_observations L) x)"
    using ok(1) by (simp add: execution_ok_def)
  have "charged_ok C j ?r (map_of (sl_observations L) x) (stored_receipt L' j)"
    using final_charge_read [OF obs_ok obs charge] rid by (simp add: charged_ok_def receipts Fresh(4))
  moreover have "is_none_or (map_of (sl_fences L) x)
      (\<lambda>g. \<exists>ts. f_transitioned_at g = Some ts \<and> from_unix_timestamp K ts \<noteq> None)"
    using ok(1) execution_ok_phase1 [OF fence] by blast
  ultimately have "execution_ok K C j ?r (map_of (sl_fences L) x) (map_of (sl_observations L) x)
      (stored_receipt L' j)"
    using obs_ok execution_ok_phase1 [OF fence] by blast
  then have ok': "intent_ok K C L' x j"
    using ok(2,3,6) row by (simp add: intent_ok_def) (simp add: L' add_receipt_def)
  show ?thesis
  proof (rule evidence_update [OF inv _ j(1) _ _ _ _ ok'])
    show "bounded_ids L'"
      using evidence_invD(1) [OF inv] ok(3)
      by (auto simp: bounded_ids_def L' add_receipt_def settle_row_def)
    show "map_of (sl_reservations L') k = map_of (sl_reservations L) k \<and>
        stored_receipt L' k = stored_receipt L k" if "k \<noteq> j" for k
      using that by (simp add: receipts)
        (simp add: L' add_receipt_def map_of_settle_row option.map_ident)
  qed (simp_all add: L' add_receipt_def)
qed (use inv in simp)

lemma execution_ok_prepared:
  assumes "execution_ok K C i r (Some f) obs receipt" and "f_phase f = 0"
  shows "open_row r" and "obs = None" and "receipt = None"
  using assms by (auto simp: execution_ok_def)

lemma prepared_execution:
  assumes inv: "evidence_inv K C L" and "checked_fence K C E L s x i = Inr (Some Prepared)"
  obtains f j r where "map_of (sl_fences L) x = Some f" and "f_phase f = 0"
    and "reservation_of L x = Some j" and "map_of (sl_reservations L) j = Some r"
    and "open_row r" and "map_of (sl_observations L) x = None" and "stored_receipt L j = None"
proof -
  obtain f where f: "map_of (sl_fences L) x = Some f" "f_phase f = 0"
    using assms(2) by (rule checked_fence_phase) auto
  obtain j where j: "reservation_of L x = Some j"
    using evidence_invD(4) [OF inv, of x] f(1) by (cases "reservation_of L x") auto
  obtain r where r: "map_of (sl_reservations L) j = Some r"
    using evidence_invD(2) [OF inv j] by (auto simp: intent_ok_def)
  show thesis
    using execution_ok_prepared [OF intent_okD(1) [OF inv j r, unfolded f(1)] f(2)] f j r
    by (intro that) auto
qed

lemma evidence_transition:
  assumes inv: "evidence_inv K C L"
    and clock: "from_unix_timestamp K (unix_timestamp now) \<noteq> None"
    and tr: "transition K C E now L s x authorize = Inr ((fence, changed), L')"
  shows "evidence_inv K C L'"
  using tr
proof (cases rule: transition_Inr)
  case (Opened i)
  obtain f j r where f: "map_of (sl_fences L) x = Some f" "f_phase f = 0"
    and j: "reservation_of L x = Some j" "map_of (sl_reservations L) j = Some r"
    and prep: "open_row r" "map_of (sl_observations L) x = None" "stored_receipt L j = None"
    using prepared_execution [OF inv Opened(4)] by blast
  note ok = intent_okD [OF inv j]
  have receipts: "stored_receipt L' k = stored_receipt L k" for k
    by (rule stored_receipt_cong) (simp add: Opened(5))
  have "execution_ok K C j r (map_of (sl_fences L') x) (map_of (sl_observations L') x)
      (stored_receipt L' j)"
    using prep clock unfolding receipts
    by (simp add: Opened(5) map_of_set_phase f execution_ok_def observation_ok_def charged_ok_def)
  then have ok': "intent_ok K C L' x j"
    using ok(2,3,6) j(2) by (simp add: intent_ok_def Opened(5))
  show ?thesis
  proof (rule evidence_update [OF inv _ j(1) _ _ _ _ ok'])
    show "bounded_ids L'" using evidence_invD(1) [OF inv] by (simp add: bounded_ids_def Opened(5))
    show "map_of (sl_fences L') y = map_of (sl_fences L) y \<and>
        map_of (sl_observations L') y = map_of (sl_observations L) y" if "y \<noteq> x" for y
      using that by (simp add: Opened(5) map_of_set_phase option.map_ident)
    show "map_of (sl_reservations L') k = map_of (sl_reservations L) k \<and>
        stored_receipt L' k = stored_receipt L k" for k
      by (simp add: receipts) (simp add: Opened(5))
  qed (simp_all add: Opened(5))
next
  case (Shut t i)
  obtain f j r where f: "map_of (sl_fences L) x = Some f" "f_phase f = 0"
    and j: "reservation_of L x = Some j" "map_of (sl_reservations L) j = Some r"
    and prep: "open_row r" "map_of (sl_observations L) x = None" "stored_receipt L j = None"
    using prepared_execution [OF inv Shut(7)] by blast
  note ok = intent_okD [OF inv j]
  have ij: "uint i = j" using Shut(3,5) j(1) ok(5) by (simp add: reservation_of_def)
  note L' = Shut(8) [unfolded ij]
  let ?r = "r\<lparr>rr_actual := 0, rr_settled := 1, rr_settled_at := Some (unix_timestamp now)\<rparr>"
  have row: "map_of (sl_reservations L') j = Some ?r"
    using j(2) prep(1) by (simp add: L' map_of_settle_row open_row_def)
  have receipts: "stored_receipt L' k = stored_receipt L k" for k
    by (rule stored_receipt_cong) (simp add: L')
  have "execution_ok K C j ?r (map_of (sl_fences L') x) (map_of (sl_observations L') x)
      (stored_receipt L' j)"
    using prep clock unfolding receipts
    by (simp add: L' map_of_set_phase f execution_ok_def observation_ok_def)
  then have ok': "intent_ok K C L' x j"
    using ok(2,3,6) row by (simp add: intent_ok_def L')
  show ?thesis
  proof (rule evidence_update [OF inv _ j(1) _ _ _ _ ok'])
    show "bounded_ids L'" using evidence_invD(1) [OF inv] by (auto simp: bounded_ids_def L' settle_row_def)
    show "map_of (sl_fences L') y = map_of (sl_fences L) y \<and>
        map_of (sl_observations L') y = map_of (sl_observations L) y" if "y \<noteq> x" for y
      using that by (simp add: L' map_of_set_phase option.map_ident)
    show "map_of (sl_reservations L') k = map_of (sl_reservations L) k \<and>
        stored_receipt L' k = stored_receipt L k" if "k \<noteq> j" for k
      using that by (simp add: receipts) (simp add: L' map_of_settle_row option.map_ident)
  qed (simp_all add: L')
qed (use inv in simp)

section \<open>Every call keeps the evidence consistent\<close>

lemma evidence_changes:
  assumes inv: "evidence_inv K C L" and world: "world_ok K w" and codec: "codec_ok C"
    and ch: "changes K C w L call L'"
  shows "evidence_inv K C L'"
  using ch
proof cases
  case (limits ls)
  then show ?thesis
    by (intro evidence_frame [OF inv])
      (use evidence_invD(1) [OF inv] in \<open>auto simp: bounded_ids_def intro: stored_receipt_cong\<close>)
next
  case (dedup ds)
  then show ?thesis
    by (intro evidence_frame [OF inv])
      (use evidence_invD(1) [OF inv] in \<open>auto simp: bounded_ids_def intro: stored_receipt_cong\<close>)
next
  case (lease s c now ttl r)
  then show ?thesis using evidence_lease [OF inv] by blast
next
  case (settle i a)
  then show ?thesis using evidence_settle [OF inv] by blast
next
  case (reclaim now)
  then show ?thesis
    by (intro evidence_reclaim [OF inv _ reclaim(2)]) (simp add: tracked_not_reclaimable)
next
  case (reclaim_both now ds)
  have "evidence_inv K C (L\<lparr>sl_reservations :=
      filter (\<lambda>p. \<not> reclaimable L (unix_timestamp now) p) (sl_reservations L)\<rparr>)"
    by (rule evidence_reclaim [OF inv _ refl]) (simp add: tracked_not_reclaimable)
  then show ?thesis unfolding reclaim_both
    by (rule evidence_frame)
      (use evidence_invD(1) [OF inv] in \<open>auto simp: bounded_ids_def intro: stored_receipt_cong\<close>)
next
  case (intent x s c now ttl r L1 prepared m request_id)
  then have "validate_execution_id x = Inr ()"
    using world by (cases "wo_entropy w 0") (auto simp: world_ok_def opaque_id_def intro: opaque_id_valid)
  with intent show ?thesis using evidence_intent [OF inv] by blast
next
  case (observe usage encoded s x i bp)
  then show ?thesis using evidence_observe [OF inv codec] by blast
next
  case (terminal s x i settled obs charge out)
  with world show ?thesis
    by (intro evidence_terminal [OF inv _ terminal(2,3,5,6)]) (auto simp: world_ok_def)
next
  case (evidence i s a out)
  from evidence(4) show ?thesis
  proof (cases rule: settle_receipt_Inr)
    case (Fresh rid r)
    have "uint i \<le> sl_sequence L"
      using evidence_invD(1) [OF inv] map_of_SomeD [OF Fresh(3)] by (auto simp: bounded_ids_def)
    then show ?thesis unfolding Fresh(9) by (rule evidence_receipt [OF inv evidence(3)])
  qed (use inv in simp)
next
  case (claim until pending claims n now lease)
  from claim_each_core [OF claim(2)] show ?thesis by (auto intro: evidence_outbox [OF inv])
next
  case (acknowledge rid row token ts now)
  have "map receipt_core (sl_outbox L') = map receipt_core (sl_outbox L)"
    unfolding acknowledge(2)
    by simp (rule receipt_core_update [OF acknowledge(3)], simp add: receipt_core_def)
  then show ?thesis by (rule evidence_outbox [OF inv _ acknowledge(2)])
next
  case (dispatch s x r)
  with world show ?thesis
    by (cases r) (auto simp: world_ok_def intro: evidence_transition [OF inv])
next
  case (close s x r)
  with world show ?thesis
    by (cases r) (auto simp: world_ok_def intro: evidence_transition [OF inv])
qed

lemma evidence_perform:
  "\<lbrakk>evidence_inv K C L; world_ok K w; codec_ok C\<rbrakk> \<Longrightarrow> evidence_inv K C (snd (perform K C w L call))"
  using perform_changes [of K C w L call] evidence_changes [of K C L w call "snd (perform K C w L call)"]
  by auto

lemma evidence_history:
  assumes "evidence_inv K C L" and "codec_ok C" and "\<forall>(w, call) \<in> set calls. world_ok K w"
  shows "evidence_inv K C (snd (history K C L calls))"
  using assms(1)
proof (rule perform_history_inv)
  fix L w call
  assume "evidence_inv K C L" and "(w, call) \<in> set calls"
  with assms(2,3) show "evidence_inv K C (snd (perform K C w L call))"
    by (auto intro: evidence_perform)
qed

lemma evidence_open: "evidence_inv K C (sqlite_open path)"
  by (simp add: evidence_inv_def sqlite_open_def bounded_ids_def reservation_of_def)

section \<open>What the checked readings find\<close>

text \<open>
  On consistent evidence and a working engine the checks of an execution, in the scope of its
  reservation, always succeed.
\<close>

lemma read_observation_done:
  assumes "observation_ok C (map_of (sl_observations L) x)"
  shows "\<exists>v. read_observation C all_done L x i s = Inr v \<and>
    (v = None \<longleftrightarrow> map_of (sl_observations L) x = None) \<and>
    resolved_charge v = Inr (final_charge C (map_of (sl_observations L) x))"
proof (cases "map_of (sl_observations L) x")
  case None
  then show ?thesis by (simp add: read_observation_def resolved_charge_def final_charge_def)
next
  case (Some row)
  from assms obtain u where u: "dec_usage C (to_usage_json row) = Some u"
      "encode_usage C u = Inr (to_usage_json row)" "to_version row = 1"
      "(u_completeness u = Unavailable) = (to_frozen_charge row = None)"
      "case to_frozen_charge row of None \<Rightarrow> True | Some c \<Rightarrow> 0 \<le> c \<and> c < 2 ^ 63"
    by (auto simp: observation_ok_def Some)
  have len: "\<not> length (to_usage_json row) > 16384"
    using u(2) by (auto simp: encode_usage_def split: if_split_asm option.split_asm)
  show ?thesis
  proof (cases "to_frozen_charge row")
    case None
    with u len Some show ?thesis
      by (auto simp: read_observation_def get_u32_def get_opt_u64_def resolved_charge_def
          terminal_charge_def final_charge_def)
  next
    case (Some c)
    with u(5) have c: "0 \<le> c" "c < 2 ^ 63" "uint (word_of_int c :: u64) = c"
      by (simp_all add: uint_word_of_int_eq)
    then have "unat (word_of_int c :: u64) < 2 ^ 63" by (simp add: unat_word_of_int)
    with c u len Some \<open>map_of (sl_observations L) x = Some row\<close> show ?thesis
      by (auto simp: read_observation_def get_u32_def get_opt_u64_def get_u64_def resolved_charge_def
          terminal_charge_def final_charge_def)
  qed
qed

end
