(* ===== verification/Recovery.thy ===== *)
theory Recovery
  imports Evidence_Inv
begin

text \<open>
  \<^verbatim>\<open>crates/sandhi-store/src/ledger/evidence.rs\<close>, the recovery inventory: pages of the
  tracked executions of a scope with the state each is in, and pages of the scopes that have
  any. A cursor freezes the largest admission the sweep visits.
\<close>

section \<open>Data\<close>

record recovery_cursor =
  rc_scope :: string
  rc_after_id :: u64
  rc_through_id :: u64

datatype recovery_state =
    Prepared
  | MayHaveDispatched
  | ClosedBeforeDispatch pre_dispatch_closure
  | MissingObservation
  | UnresolvedObservation
  | ReadyToSettle
  | Settled settlement_receipt

record recovery_entry =
  re_execution_id :: string
  re_reservation_id :: u64
  re_state :: recovery_state

record recovery_page =
  rp_entries :: "recovery_entry list"
  rp_next :: "recovery_cursor option"

record scope_cursor =
  sc_after :: string
  sc_through_id :: u64

record scope_page =
  sp_scopes :: "string list"
  sp_next :: "scope_cursor option"

section \<open>Pages of a scope\<close>

definition recovery_state_of ::
  "calendar \<Rightarrow> usage_codec \<Rightarrow> engine \<Rightarrow> sqlite_ledger \<Rightarrow> string \<Rightarrow> string \<Rightarrow> u64 \<Rightarrow>
     evidence_error + recovery_state" where
  "recovery_state_of K C E L scope execution_id reservation_id =
     bind_res (checked_fence K C E L scope execution_id reservation_id) (\<lambda>fence.
     case fence of
       Some fence.Prepared \<Rightarrow> Inr Prepared
     | Some (FenceClosed closure) \<Rightarrow> Inr (ClosedBeforeDispatch closure)
     | _ \<Rightarrow>
         bind_res (read_observation C E L execution_id reservation_id scope) (\<lambda>observed.
         bind_res (resolved_charge observed) (\<lambda>charge.
         bind_res (checked_terminal_receipt E L scope reservation_id charge) (\<lambda>receipt.
         Inr (case receipt of
                Some receipt \<Rightarrow> Settled receipt
              | None \<Rightarrow>
                  (case observed of
                     None \<Rightarrow> if fence \<noteq> None then MayHaveDispatched else MissingObservation
                   | Some _ \<Rightarrow>
                       (case charge of
                          None \<Rightarrow> UnresolvedObservation | Some _ \<Rightarrow> ReadyToSettle)))))))"

definition recovery_entry_of ::
  "calendar \<Rightarrow> usage_codec \<Rightarrow> engine \<Rightarrow> sqlite_ledger \<Rightarrow> string \<Rightarrow> string \<times> u64 \<Rightarrow>
     evidence_error + recovery_entry" where
  "recovery_entry_of K C E L scope = (\<lambda>(execution_id, reservation_id).
     if length execution_id \<noteq> 64 \<or> validate_execution_id execution_id \<noteq> Inr ()
     then Inl CorruptObservation
     else
       bind_res (recovery_state_of K C E L scope execution_id reservation_id) (\<lambda>state.
       Inr \<lparr>re_execution_id = execution_id, re_reservation_id = reservation_id, re_state = state\<rparr>))"

fun try_map :: "('a \<Rightarrow> 'e + 'b) \<Rightarrow> 'a list \<Rightarrow> 'e + 'b list" where
  "try_map f [] = Inr []"
| "try_map f (x # xs) = bind_res (f x) (\<lambda>y. bind_res (try_map f xs) (\<lambda>ys. Inr (y # ys)))"

definition scope_of :: "sqlite_ledger \<Rightarrow> int \<Rightarrow> string option" where
  "scope_of L i = map_option rr_scope (map_of (sl_reservations L) i)"

text \<open>An intent without a reservation, or evidence without an intent.\<close>

definition orphaned :: "sqlite_ledger \<Rightarrow> bool" where
  "orphaned L \<longleftrightarrow>
     (\<exists>(x, t) \<in> set (sl_intents L). map_of (sl_reservations L) (in_reservation_id t) = None) \<or>
     (\<exists>(x, row) \<in> set (sl_observations L). map_of (sl_intents L) x = None) \<or>
     (\<exists>(x, row) \<in> set (sl_fences L). map_of (sl_intents L) x = None)"

definition scope_intents :: "sqlite_ledger \<Rightarrow> string \<Rightarrow> (string \<times> int) list" where
  "scope_intents L scope =
     filter (\<lambda>(_, i). scope_of L i = Some scope)
       (map (\<lambda>(x, t). (x, in_reservation_id t)) (sl_intents L))"

definition max_id :: "int list \<Rightarrow> int" where
  "max_id ids = fold max ids 0"

definition page_rows :: "sqlite_ledger \<Rightarrow> string \<Rightarrow> int \<Rightarrow> int \<Rightarrow> (string \<times> int) list" where
  "page_rows L scope after_id through_id =
     sort_key snd (filter (\<lambda>(_, i). after_id < i \<and> i \<le> through_id) (scope_intents L scope))"

definition check_cursor :: "string \<Rightarrow> recovery_cursor option \<Rightarrow> evidence_error + unit" where
  "check_cursor scope cursor =
     (case cursor of
        None \<Rightarrow> Inr ()
      | Some cursor \<Rightarrow>
          if rc_scope cursor \<noteq> scope then Inl WrongScope
          else if rc_after_id cursor = 0 \<or> rc_after_id cursor > rc_through_id cursor \<or>
                  unat (rc_through_id cursor) > 2 ^ 63 - 1
          then Inl InvalidInput
          else Inr ())"

text \<open>The bounds of a page: the cursor's, or those of a new sweep.\<close>

definition page_bounds ::
  "engine \<Rightarrow> sqlite_ledger \<Rightarrow> string \<Rightarrow> recovery_cursor option \<Rightarrow> evidence_error + u64 \<times> u64" where
  "page_bounds E L scope cursor =
     (case cursor of
        Some cursor \<Rightarrow> Inr (rc_after_id cursor, rc_through_id cursor)
      | None \<Rightarrow>
          bind_res (stored (statement E SelectThrough)) (\<lambda>_.
          bind_res (stored (get_u64 (max_id (map snd (scope_intents L scope))))) (\<lambda>through_id.
          Inr (0, through_id))))"

definition recovery_page_durable ::
  "calendar \<Rightarrow> usage_codec \<Rightarrow> engine \<Rightarrow> sqlite_ledger \<Rightarrow> string \<Rightarrow> recovery_cursor option \<Rightarrow> nat \<Rightarrow>
     evidence_error + recovery_page" where
  "recovery_page_durable K C E L scope cursor limit =
     bind_res (validate_scope scope) (\<lambda>_.
     if \<not> (1 \<le> limit \<and> limit \<le> 100) then Inl InvalidInput
     else
       bind_res (check_cursor scope cursor) (\<lambda>_.
       bind_res (stored (statement E BeginTransaction)) (\<lambda>_.
       bind_res (stored (statement E SelectOrphans)) (\<lambda>_.
       if orphaned L then Inl CorruptObservation
       else
         bind_res (page_bounds E L scope cursor) (\<lambda>(after_id, through_id).
         bind_res (stored (statement E SelectPage)) (\<lambda>_.
         bind_res (stored (try_map (\<lambda>(x, i). bind_res (get_u64 i) (\<lambda>i. Inr (x, i)))
             (take (limit + 1) (page_rows L scope (uint after_id) (uint through_id))))) (\<lambda>rows.
         let has_more = (length rows > limit) in
         bind_res (try_map (recovery_entry_of K C E L scope) (take limit rows)) (\<lambda>entries.
         let next = (if has_more
           then (if entries = [] then None
                 else Some \<lparr>rc_scope = scope, rc_after_id = re_reservation_id (last entries),
                            rc_through_id = through_id\<rparr>)
           else None) in
         bind_res (stored (statement E Commit)) (\<lambda>_.
         Inr \<lparr>rp_entries = entries, rp_next = next\<rparr>)))))))))"

section \<open>Pages of scopes\<close>

definition recovery_scopes_durable ::
  "engine \<Rightarrow> sqlite_ledger \<Rightarrow> scope_cursor option \<Rightarrow> nat \<Rightarrow> evidence_error + scope_page" where
  "recovery_scopes_durable E L cursor limit =
     (if \<not> (1 \<le> limit \<and> limit \<le> 100) then Inl InvalidInput
      else
        bind_res (stored (statement E BeginTransaction)) (\<lambda>_.
        bind_res (case cursor of
            Some c \<Rightarrow> Inr (sc_through_id c)
          | None \<Rightarrow>
              bind_res (stored (statement E SelectThrough)) (\<lambda>_.
              stored (get_u64 (max_id (map (\<lambda>(_, t). in_reservation_id t) (sl_intents L)))))) (\<lambda>through_id.
        let after = (case cursor of Some c \<Rightarrow> sc_after c | None \<Rightarrow> []) in
        bind_res (stored (i64_try_from through_id)) (\<lambda>_.
        bind_res (stored (statement E SelectScopes)) (\<lambda>_.
        bind_res (try_map (\<lambda>s. case s of Some s \<Rightarrow> Inr s | None \<Rightarrow> Inl MissingReservation)
            (take limit (sort (remdups
               (filter (\<lambda>s. is_none_or s (\<lambda>s. s > after))
                 (map (\<lambda>(_, t). scope_of L (in_reservation_id t))
                   (filter (\<lambda>(_, t). in_reservation_id t \<le> uint through_id) (sl_intents L)))))))) (\<lambda>scopes.
        bind_res (try_map validate_scope scopes) (\<lambda>_.
        let next = (if length scopes = limit
          then Some \<lparr>sc_after = last scopes, sc_through_id = through_id\<rparr> else None) in
        bind_res (stored (statement E Commit)) (\<lambda>_.
        Inr \<lparr>sp_scopes = scopes, sp_next = next\<rparr>))))))))"

section \<open>The checks succeed on consistent evidence\<close>

lemma final_charge_range:
  assumes "observation_ok C obs" and "final_charge C obs = Some a"
  shows "0 \<le> a" and "a < 2 ^ 63"
  using assms by (auto simp: observation_ok_def final_charge_def split: option.splits if_splits)

lemma checked_terminal_receipt_done:
  assumes ok: "charged_ok C i r obs (stored_receipt L i)" and obs: "observation_ok C obs"
    and row: "map_of (sl_reservations L) i = Some r" "rr_scope r = s"
    and i: "0 < i" "i < 2 ^ 63"
  shows "\<exists>v. checked_terminal_receipt all_done L s (word_of_int i) (final_charge C obs) = Inr v"
proof -
  have ui: "uint (word_of_int i :: u64) = i" "unat (word_of_int i :: u64) < 2 ^ 63"
    using i by (simp_all add: uint_word_of_int_eq unat_word_of_int)
  show ?thesis
  proof (cases "stored_receipt L i")
    case None
    with ok have "open_row r" by (auto simp: charged_ok_def)
    moreover have "find_receipt L i = None" using None by (simp add: stored_receipt_def)
    ultimately show ?thesis
      using row ui by (simp add: checked_terminal_receipt_def i64_try_from_def bounded_receipt_def open_row_def)
  next
    case (Some c)
    with ok obtain rid ts where c: "stored_receipt L i = Some (rid, i, rr_scope r, rr_actual r, ts)"
      "rr_settled r = 1" "final_charge C obs = Some (rr_actual r)" "rr_settled_at r = Some ts"
      "validate_execution_id rid = Inr ()"
      by (auto simp: charged_ok_def)
    from c(1) obtain b where b: "find_receipt L i = Some (rid, b)" "ob_reservation_id b = i"
      "ob_scope b = rr_scope r" "ob_charged_tokens b = rr_actual r" "ob_settled_at b = ts"
      by (auto simp: stored_receipt_def receipt_core_def)
    have "length rid = 64" using c(5) by (simp add: validate_execution_id_def split: if_split_asm)
    moreover have "0 \<le> rr_actual r" using final_charge_range [OF obs c(3)] by simp
    ultimately show ?thesis
      using b c row ui i
      by (simp add: checked_terminal_receipt_def i64_try_from_def bounded_receipt_def receipt_of_def
          get_u64_def receipt_matches_def)
  qed
qed

lemma checked_fence_done:
  assumes ok: "execution_ok K C i r (map_of (sl_fences L) x) (map_of (sl_observations L) x)
      (stored_receipt L i)"
    and row: "map_of (sl_reservations L) i = Some r" "rr_scope r = s" and i: "0 < i" "i < 2 ^ 63"
  shows "\<exists>v. checked_fence K C all_done L s x (word_of_int i) = Inr v \<and>
    (v = None \<or> v = Some FenceAuthorized \<longrightarrow>
       charged_ok C i r (map_of (sl_observations L) x) (stored_receipt L i))"
proof (cases "map_of (sl_fences L) x")
  case None
  with ok show ?thesis by (simp add: checked_fence_def execution_ok_def)
next
  case (Some f)
  have ui: "uint (word_of_int i :: u64) = i" "unat (word_of_int i :: u64) < 2 ^ 63"
    using i by (simp_all add: uint_word_of_int_eq unat_word_of_int)
  have obs: "observation_ok C (map_of (sl_observations L) x)" using ok by (simp add: execution_ok_def)
  obtain v where v: "read_observation C all_done L x (word_of_int i) s = Inr v"
      "v = None \<longleftrightarrow> map_of (sl_observations L) x = None"
      "resolved_charge v = Inr (final_charge C (map_of (sl_observations L) x))"
    using read_observation_done [OF obs] by blast
  have none: "find_receipt L i = None \<longleftrightarrow> stored_receipt L i = None"
    by (simp add: stored_receipt_def)
  from ok Some consider
      (prepared) "f_phase f = 0" "f_transitioned_at f = None" "open_row r"
        "map_of (sl_observations L) x = None" "stored_receipt L i = None"
    | (authorized) ts where "f_transitioned_at f = Some ts" "from_unix_timestamp K ts \<noteq> None"
        "f_phase f = 1" "charged_ok C i r (map_of (sl_observations L) x) (stored_receipt L i)"
    | (closed) ts where "f_transitioned_at f = Some ts" "from_unix_timestamp K ts \<noteq> None"
        "f_phase f = 2" "rr_settled r = 1" "rr_actual r = 0" "rr_settled_at r = Some ts"
        "map_of (sl_observations L) x = None" "stored_receipt L i = None"
    unfolding execution_ok_def by auto
  then show ?thesis
  proof cases
    case prepared
    then show ?thesis
      using Some row ui v none
      by (simp add: checked_fence_def is_some_and_def i64_try_from_def open_row_def Let_def)
  next
    case authorized
    obtain w where "checked_terminal_receipt all_done L s (word_of_int i)
        (final_charge C (map_of (sl_observations L) x)) = Inr w"
      using checked_terminal_receipt_done [OF authorized(4) obs row i] by blast
    with authorized show ?thesis
      using Some row ui v none
      by (simp add: checked_fence_def is_some_and_def i64_try_from_def Let_def)
  next
    case closed
    then show ?thesis
      using Some row ui v none
      by (simp add: checked_fence_def is_some_and_def i64_try_from_def Let_def)
  qed
qed

lemma recovery_state_done:
  assumes inv: "evidence_inv K C L" and x: "reservation_of L x = Some i"
    and row: "map_of (sl_reservations L) i = Some r" "rr_scope r = s"
  shows "\<exists>v. recovery_state_of K C all_done L s x (word_of_int i) = Inr v"
proof -
  note ok = intent_okD [OF inv x row(1)]
  have obs: "observation_ok C (map_of (sl_observations L) x)" using ok(1) by (simp add: execution_ok_def)
  obtain v where v: "read_observation C all_done L x (word_of_int i) s = Inr v"
      "resolved_charge v = Inr (final_charge C (map_of (sl_observations L) x))"
    using read_observation_done [OF obs] by blast
  obtain f where f: "checked_fence K C all_done L s x (word_of_int i) = Inr f"
      "f = None \<or> f = Some FenceAuthorized \<longrightarrow>
         charged_ok C i r (map_of (sl_observations L) x) (stored_receipt L i)"
    using checked_fence_done [OF ok(1) row ok(2,4)] by blast
  show ?thesis
  proof (cases "f = None \<or> f = Some FenceAuthorized")
    case True
    then obtain w where "checked_terminal_receipt all_done L s (word_of_int i)
        (final_charge C (map_of (sl_observations L) x)) = Inr w"
      using checked_terminal_receipt_done [OF _ obs row ok(2,4)] f(2) by blast
    with True f(1) v show ?thesis by (auto simp: recovery_state_of_def)
  next
    case False
    with f(1) show ?thesis
      by (auto simp: recovery_state_of_def split: option.split fence.split)
  qed
qed

lemma try_map_total: "\<forall>x \<in> set xs. \<exists>y. f x = Inr y \<Longrightarrow> \<exists>ys. try_map f xs = Inr ys"
  by (induction xs) auto

lemma try_map_Inr: "try_map f xs = Inr ys \<longleftrightarrow> list_all2 (\<lambda>x y. f x = Inr y) xs ys"
proof (induction xs arbitrary: ys)
  case (Cons x xs)
  then show ?case by (cases ys) (auto simp: bind_res_Inr)
qed auto

lemma scope_intents_row:
  assumes inv: "evidence_inv K C L" and mem: "(x, i) \<in> set (scope_intents L s)"
  obtains r where "reservation_of L x = Some i" and "map_of (sl_reservations L) i = Some r"
    and "rr_scope r = s" and "0 < i" and "i < 2 ^ 63" and "validate_execution_id x = Inr ()"
proof -
  from mem obtain t where t: "(x, t) \<in> set (sl_intents L)" "i = in_reservation_id t"
    and s: "scope_of L i = Some s"
    by (auto simp: scope_intents_def)
  have x: "reservation_of L x = Some i"
    using t evidence_invD(6) [OF inv] by (simp add: reservation_of_def map_of_is_SomeI)
  from s obtain r where r: "map_of (sl_reservations L) i = Some r" "rr_scope r = s"
    by (auto simp: scope_of_def)
  from intent_okD [OF inv x r(1)] x r show thesis by (intro that) auto
qed

lemma map_of_not_None: "(x, v) \<in> set xs \<Longrightarrow> map_of xs x \<noteq> None"
  by (induction xs) auto

lemma not_orphaned:
  assumes inv: "evidence_inv K C L"
  shows "\<not> orphaned L"
proof -
  have a: "map_of (sl_reservations L) (in_reservation_id t) \<noteq> None"
    if mem: "(x, t) \<in> set (sl_intents L)" for x t
  proof -
    have "reservation_of L x = Some (in_reservation_id t)"
      using mem evidence_invD(6) [OF inv] by (simp add: reservation_of_def map_of_is_SomeI)
    then have "intent_ok K C L x (in_reservation_id t)" by (rule evidence_invD(2) [OF inv])
    then show ?thesis unfolding intent_ok_def by (elim conjE exE) simp
  qed
  have b: "map_of (sl_intents L) x \<noteq> None"
    if "map_of (sl_observations L) x \<noteq> None \<or> map_of (sl_fences L) x \<noteq> None" for x
  proof -
    have "reservation_of L x \<noteq> None"
    proof
      assume n: "reservation_of L x = None"
      from evidence_invD(4) [OF inv n] evidence_invD(5) [OF inv n] that show False by simp
    qed
    then show ?thesis by (simp add: reservation_of_def)
  qed
  show ?thesis
  proof
    assume "orphaned L"
    then consider
        (intent) x t where "(x, t) \<in> set (sl_intents L)"
          "map_of (sl_reservations L) (in_reservation_id t) = None"
      | (observation) x row where "(x, row) \<in> set (sl_observations L)" "map_of (sl_intents L) x = None"
      | (fence) x row where "(x, row) \<in> set (sl_fences L)" "map_of (sl_intents L) x = None"
      unfolding orphaned_def Bex_def split_paired_Ex prod.case by blast
    then show False
    proof cases
      case intent
      then show False using a by blast
    next
      case observation
      then show False using b map_of_not_None [OF observation(1)] by blast
    next
      case fence
      then show False using b map_of_not_None [OF fence(1)] by blast
    qed
  qed
qed

lemma page_rows_subset: "set (page_rows L s a b) \<subseteq> set (scope_intents L s)"
  by (auto simp: page_rows_def)

lemma max_id_nonneg: "0 \<le> max_id ids"
proof -
  have "a \<le> fold max ids a" for a :: int
    by (induction ids arbitrary: a) (auto intro: order_trans [OF max.cobounded2])
  from this [of 0] show ?thesis by (simp add: max_id_def)
qed

text \<open>One page over consistent evidence: exactly the rows asked for, each with its state.\<close>

lemma recovery_page_done:
  assumes inv: "evidence_inv K C L" and scope: "validate_scope s = Inr ()"
    and limit: "1 \<le> limit" "limit \<le> 100" and cursor: "check_cursor s cursor = Inr ()"
    and bounds: "page_bounds all_done L s cursor = Inr (after_id, through_id)"
  shows "\<exists>entries next. recovery_page_durable K C all_done L s cursor limit =
      Inr \<lparr>rp_entries = entries, rp_next = next\<rparr> \<and>
    list_all2 (\<lambda>(x, i) e. re_execution_id e = x \<and> re_reservation_id e = word_of_int i \<and>
        recovery_state_of K C all_done L s x (word_of_int i) = Inr (re_state e))
      (take limit (page_rows L s (uint after_id) (uint through_id))) entries \<and>
    next = (if length (page_rows L s (uint after_id) (uint through_id)) > limit
      then Some \<lparr>rc_scope = s, rc_after_id = re_reservation_id (last entries),
                 rc_through_id = through_id\<rparr> else None)"
proof -
  define rows where "rows = page_rows L s (uint after_id) (uint through_id)"
  have sub: "set (take n rows) \<subseteq> set (scope_intents L s)" for n
    using page_rows_subset set_take_subset by (fastforce simp: rows_def)
  let ?conv = "\<lambda>(x, i). bind_res (get_u64 i) (\<lambda>i. Inr (x, i :: u64))"
  have conv: "?conv (x, i) = Inr (x, word_of_int i)" if mem: "(x, i) \<in> set (scope_intents L s)" for x i
  proof -
    have "0 < i" by (rule scope_intents_row [OF inv mem])
    then show ?thesis by (simp add: get_u64_def)
  qed
  have page: "try_map ?conv ps = Inr (map (\<lambda>(x, i). (x, word_of_int i)) ps)"
    if "set ps \<subseteq> set (scope_intents L s)" for ps
    using that conv by (induction ps) auto
  have entry: "\<exists>e. recovery_entry_of K C all_done L s (x, word_of_int i) = Inr e"
    if mem: "(x, i) \<in> set (scope_intents L s)" for x i
  proof -
    obtain r where r: "reservation_of L x = Some i" "map_of (sl_reservations L) i = Some r"
        "rr_scope r = s" "validate_execution_id x = Inr ()"
      using scope_intents_row [OF inv mem] by blast
    then show ?thesis using recovery_state_done [OF inv r(1-3)]
      by (auto simp: recovery_entry_of_def validate_execution_id_def split: if_split_asm)
  qed
  obtain entries where entries: "try_map (recovery_entry_of K C all_done L s)
      (map (\<lambda>(x, i). (x, word_of_int i)) (take limit rows)) = Inr entries"
    using try_map_total [of "map (\<lambda>(x, i). (x, word_of_int i)) (take limit rows)"
        "recovery_entry_of K C all_done L s"] entry sub [of limit] by fastforce
  have more: "length rows > limit \<Longrightarrow> entries \<noteq> []"
    using entries limit(1) by (auto simp: try_map_Inr)
  have listed: "list_all2 (\<lambda>(x, i) e. re_execution_id e = x \<and> re_reservation_id e = word_of_int i \<and>
        recovery_state_of K C all_done L s x (word_of_int i) = Inr (re_state e))
      (take limit rows) entries"
    using entries unfolding try_map_Inr list_all2_map1
    by (rule list_all2_mono) (auto simp: recovery_entry_of_def elim!: bind_resE split: if_split_asm)
  have fetched: "stored (try_map ?conv (take (limit + 1) rows)) =
      Inr (map (\<lambda>(x, i). (x, word_of_int i)) (take (limit + 1) rows))"
    using page [OF sub] by (simp add: stored_def)
  have "recovery_page_durable K C all_done L s cursor limit =
      Inr \<lparr>rp_entries = entries, rp_next = (if length rows > limit
        then Some \<lparr>rc_scope = s, rc_after_id = re_reservation_id (last entries),
                   rc_through_id = through_id\<rparr> else None)\<rparr>"
    using scope cursor limit not_orphaned [OF inv] bounds fetched entries more
    by (simp add: recovery_page_durable_def Let_def rows_def [symmetric] take_map)
  with listed show ?thesis unfolding rows_def by blast
qed

end
