(* ===== verification/Settle_Flow.thy ===== *)
theory Settle_Flow
  imports Recovery
begin

text \<open>
  What the evidence operations do on consistent evidence and a working engine: recording the usage
  of a dispatched execution, settling one that is ready, and replaying a settlement. These are the
  facts the settlement owner and the recovery of the proxy rest on.
\<close>

section \<open>Reservation ids\<close>

definition row_ids :: "sqlite_ledger \<Rightarrow> bool" where
  "row_ids L \<longleftrightarrow>
     distinct (map fst (sl_reservations L)) \<and> (\<forall>p \<in> set (sl_reservations L). fst p \<le> sl_sequence L)"

lemma row_ids_filter:
  "row_ids L \<Longrightarrow> sl_sequence L' = sl_sequence L \<Longrightarrow>
     sl_reservations L' = filter P (sl_reservations L) \<Longrightarrow> row_ids L'"
  by (auto simp: row_ids_def distinct_fst_filter)

lemma row_ids_same:
  "row_ids L \<Longrightarrow> sl_sequence L' = sl_sequence L \<Longrightarrow>
     map fst (sl_reservations L') = map fst (sl_reservations L) \<Longrightarrow> row_ids L'"
  unfolding row_ids_def by (metis (no_types, lifting) image_eqI image_set in_set_conv_nth list.set_map imageE)

lemma row_ids_lease:
  assumes "row_ids L" and "reserve_in_transaction K E L s c now ttl = Inr (Admitted r, L')"
  shows "row_ids L'"
proof -
  have "row_ids (reclaim_scope L s (unix_timestamp now))"
    by (rule row_ids_filter [OF assms(1)]) (simp_all add: reclaim_scope_def)
  then show ?thesis
    unfolding reserve_in_transaction_admitted(4) [OF assms(2)]
    by (fastforce simp: row_ids_def new_lease_def)
qed

lemma row_ids_receipt:
  assumes "row_ids L" and "settle_receipt E entropy now L s i c = Inr (out, L')"
  shows "row_ids L'"
  using assms(2)
  by (cases rule: settle_receipt_Inr)
    (auto simp: add_receipt_def intro!: row_ids_same [OF assms(1)] assms(1))

lemma row_ids_transition:
  assumes "row_ids L" and "transition K C E now L s x authorize = Inr ((fence, changed), L')"
  shows "row_ids L'"
  using assms(2)
  by (cases rule: transition_Inr) (auto intro!: row_ids_same [OF assms(1)] assms(1))

lemma claim_each_rows:
  "claim_each E entropy k until L pending = Inr (claims, L') \<Longrightarrow>
     sl_reservations L' = sl_reservations L \<and> sl_sequence L' = sl_sequence L"
proof (induction pending arbitrary: L k claims)
  case (Cons receipt pending)
  then show ?case by (auto simp: Let_def elim!: bind_resE split: option.split_asm)
qed simp

lemma row_ids_changes:
  assumes ids: "row_ids L" and ch: "changes K C w L call L'"
  shows "row_ids L'"
  using ch
proof cases
  case (lease s c now ttl r)
  with ids show ?thesis by (blast intro: row_ids_lease)
next
  case (reclaim now)
  then show ?thesis by (intro row_ids_filter [OF ids]) simp_all
next
  case (reclaim_both now d)
  then show ?thesis by (intro row_ids_filter [OF ids]) simp_all
next
  case (intent x s c now ttl r L1 prepared m request_id)
  have "row_ids L1" by (rule row_ids_lease [OF ids intent(4)])
  then show ?thesis unfolding intent(2) by (rule row_ids_same) (simp_all add: with_intent_def)
next
  case (terminal s x i settled obs charge out)
  with ids show ?thesis by (blast intro: row_ids_receipt)
next
  case (evidence i s a out)
  with ids show ?thesis by (blast intro: row_ids_receipt)
next
  case (claim until pending claims n now lease)
  then show ?thesis by (intro row_ids_same [OF ids]) (simp_all add: claim_each_rows)
next
  case (dispatch s x r)
  with ids show ?thesis by (cases r) (blast intro: row_ids_transition)
next
  case (close s x r)
  with ids show ?thesis by (cases r) (blast intro: row_ids_transition)
qed (auto intro!: row_ids_same [OF ids])

lemma row_ids_perform: "row_ids L \<Longrightarrow> row_ids (snd (perform K C w L call))"
  using perform_changes [of K C w L call] row_ids_changes [of L K C w call "snd (perform K C w L call)"]
  by auto

lemma row_ids_open: "row_ids (sqlite_open path)"
  by (simp add: row_ids_def sqlite_open_def)

section \<open>A bound execution\<close>

text \<open>The reservation an execution is bound to, and whether it may have been dispatched.\<close>

definition bound :: "sqlite_ledger \<Rightarrow> string \<Rightarrow> int \<Rightarrow> reservation_row \<Rightarrow> bool" where
  "bound L x i r \<longleftrightarrow> reservation_of L x = Some i \<and> map_of (sl_reservations L) i = Some r"

definition dispatched :: "sqlite_ledger \<Rightarrow> string \<Rightarrow> bool" where
  "dispatched L x \<longleftrightarrow>
     map_of (sl_fences L) x = None \<or> (\<exists>f. map_of (sl_fences L) x = Some f \<and> f_phase f = 1)"

lemma intent_binding_done:
  assumes "bound L x i r" and "0 \<le> i"
  shows "intent_binding all_done L x = Inr (Some (word_of_int i, rr_scope r, rr_settled r \<noteq> 0))"
  using assms by (auto simp: bound_def reservation_of_def intent_binding_def get_u64_def)

lemma observable_done:
  assumes inv: "evidence_inv K C L" and b: "bound L x i r" and d: "dispatched L x"
  shows "observable_binding K C all_done L (rr_scope r) x = Inr (word_of_int i, rr_settled r \<noteq> 0)"
proof -
  have b': "reservation_of L x = Some i" "map_of (sl_reservations L) i = Some r"
    using b by (simp_all add: bound_def)
  note ok = intent_okD [OF inv b']
  obtain v where v: "checked_fence K C all_done L (rr_scope r) x (word_of_int i) = Inr v"
    using checked_fence_done [OF ok(1) b'(2) refl ok(2,4)] by blast
  have "v = None \<or> v = Some FenceAuthorized"
  proof (cases v)
    case (Some f)
    obtain row where "map_of (sl_fences L) x = Some row" "f = FenceAuthorized \<longleftrightarrow> f_phase row = 1"
      using v unfolding Some by (rule checked_fence_phase)
    with d Some show ?thesis by (simp add: dispatched_def)
  qed simp
  with v intent_binding_done [OF b] ok(2) show ?thesis
    by (auto simp: observable_binding_def require_observable_def)
qed

lemma bound_charged:
  assumes inv: "evidence_inv K C L" and b: "bound L x i r" and d: "dispatched L x"
  shows "charged_ok C i r (map_of (sl_observations L) x) (stored_receipt L i)"
    and "observation_ok C (map_of (sl_observations L) x)"
proof -
  have b': "reservation_of L x = Some i" "map_of (sl_reservations L) i = Some r"
    using b by (simp_all add: bound_def)
  from intent_okD(1) [OF inv b'] d
  show "charged_ok C i r (map_of (sl_observations L) x) (stored_receipt L i)"
    and "observation_ok C (map_of (sl_observations L) x)"
    by (simp_all add: execution_ok_phase1 dispatched_def)
qed

section \<open>Recording\<close>

text \<open>The observation a record call stores.\<close>

definition observed_row :: "usage_v2 \<Rightarrow> u32 \<Rightarrow> string \<Rightarrow> int \<Rightarrow> observation_row" where
  "observed_row usage bp encoded ts =
     \<lparr>to_version = 1, to_usage_json = encoded,
      to_frozen_charge = map_option uint (frozen_charge_of usage bp), to_observed_at = ts\<rparr>"

definition with_observation :: "sqlite_ledger \<Rightarrow> string \<Rightarrow> observation_row \<Rightarrow> sqlite_ledger" where
  "with_observation L x row = L\<lparr>sl_observations := sl_observations L @ [(x, row)]\<rparr>"

lemma record_unobserved:
  assumes inv: "evidence_inv K C L" and b: "bound L x i r" and d: "dispatched L x"
    and new: "map_of (sl_observations L) x = None"
    and input: "validate_scope (rr_scope r) = Inr ()" "encode_usage C usage = Inr encoded"
      "charge_storable usage bp"
  shows "record_terminal_durable K C all_done utc L (rr_scope r) x usage bp =
    (Inr (Recorded \<lparr>t_version = 1, t_execution_id = x, t_reservation_id = word_of_int i,
        t_scope = rr_scope r, t_usage = usage, t_frozen_charge = frozen_charge_of usage bp,
        t_observed_at = unix_timestamp utc\<rparr>),
     with_observation L x (observed_row usage bp encoded (unix_timestamp utc)))"
proof -
  have b': "reservation_of L x = Some i" "map_of (sl_reservations L) i = Some r"
    using b by (simp_all add: bound_def)
  have "rr_settled r = 0"
    using bound_charged(1) [OF inv b d] new by (auto simp: charged_ok_def open_row_def final_charge_def)
  moreover have "length encoded \<le> 16384"
    using input(2) by (auto simp: encode_usage_def split: if_split_asm option.split_asm)
  moreover have "read_observation C all_done L x (word_of_int i) (rr_scope r) = Inr None"
    using new by (simp add: read_observation_def)
  moreover have "validate_execution_id x = Inr ()" by (rule intent_okD(6) [OF inv b'])
  moreover have "\<not> is_some_and (map_option uint (frozen_charge_of usage bp)) (\<lambda>c. c < 0)"
    by (cases "frozen_charge_of usage bp") (simp_all add: is_some_and_def)
  ultimately show ?thesis
    using observable_done [OF inv b d] input new
    by (simp add: record_terminal_durable_def transaction_done record_terminal_body_def
        insert_observation_def charge_storable_def with_observation_def observed_row_def Let_def)
qed

lemma record_again:
  assumes inv: "evidence_inv K C L" and b: "bound L x i r" and d: "dispatched L x"
    and obs: "map_of (sl_observations L) x = Some row" "dec_usage C (to_usage_json row) = Some usage"
    and input: "validate_scope (rr_scope r) = Inr ()" "encode_usage C usage = Inr encoded"
  shows "\<exists>t. record_terminal_durable K C all_done utc L (rr_scope r) x usage bp = (Inr (AlreadyRecorded t), L)"
proof -
  have b': "reservation_of L x = Some i" "map_of (sl_reservations L) i = Some r"
    using b by (simp_all add: bound_def)
  obtain t where t: "read_observation C all_done L x (word_of_int i) (rr_scope r) = Inr (Some t)"
    using read_observation_done [OF bound_charged(2) [OF inv b d], of "word_of_int i" "rr_scope r"] obs(1)
    by auto
  then have "t_usage t = usage" using obs by (elim read_observation_Some) simp
  with t observable_done [OF inv b d] input intent_okD(6) [OF inv b'] show ?thesis
    by (simp add: record_terminal_durable_def transaction_done record_terminal_body_def)
qed

section \<open>Settling\<close>

lemma settle_updated_one:
  assumes "row_ids L" and "map_of (sl_reservations L) i = Some r" and "rr_settled r = 0"
  shows "settle_updated L i = 1"
proof -
  have "length (filter (\<lambda>(j, r). j = i \<and> rr_settled r = 0) xs) = 1"
    if "distinct (map fst xs)" "map_of xs i = Some r" for xs :: "(int \<times> reservation_row) list"
    using that
  proof (induction xs)
    case (Cons p xs)
    obtain j q where p: "p = (j, q)" by (cases p)
    show ?case
    proof (cases "j = i")
      case True
      then have "i \<notin> fst ` set xs" "q = r" using Cons.prems p by auto
      then have "filter (\<lambda>(j, r). j = i \<and> rr_settled r = 0) xs = []"
        by (force simp: filter_empty_conv)
      then show ?thesis using True p \<open>q = r\<close> assms(3) by simp
    next
      case False
      then show ?thesis using Cons p by simp
    qed
  qed simp
  with assms show ?thesis by (simp add: settle_updated_def row_ids_def)
qed

lemma settle_ready:
  assumes inv: "evidence_inv K C L" and ids: "row_ids L" and b: "bound L x i r" and d: "dispatched L x"
    and charge: "final_charge C (map_of (sl_observations L) x) = Some c" and new: "stored_receipt L i = None"
    and scope: "validate_scope (rr_scope r) = Inr ()"
    and draw: "opaque_id entropy = Inr rid" "map_of (sl_outbox L) rid = None"
  shows "settle_terminal_durable K C all_done entropy utc L (rr_scope r) x =
    (Inr (Committed \<lparr>sr_receipt_id = rid, sr_reservation_id = word_of_int i, sr_scope = rr_scope r,
        sr_charged_tokens = word_of_int c, sr_settled_at = unix_timestamp utc\<rparr>),
     add_receipt (settle_row L i c (unix_timestamp utc)) rid i (rr_scope r) c (unix_timestamp utc))"
proof -
  have b': "reservation_of L x = Some i" "map_of (sl_reservations L) i = Some r"
    using b by (simp_all add: bound_def)
  note ok = intent_okD [OF inv b'] and ch = bound_charged [OF inv b d]
  obtain v where v: "read_observation C all_done L x (word_of_int i) (rr_scope r) = Inr v"
      "resolved_charge v = Inr (Some c)"
    using read_observation_done [OF ch(2)] charge by metis
  then obtain obs where obs: "v = Some obs" "terminal_charge obs = Inr c"
    by (auto simp: resolved_charge_def split: option.split_asm sum.split_asm evidence_error.split_asm)
  obtain q where q: "checked_terminal_receipt all_done L (rr_scope r) (word_of_int i) (Some c) = Inr q"
    using checked_terminal_receipt_done [OF ch(1,2) b'(2) refl ok(2,4)] charge by auto
  have small: "\<not> 2 ^ 63 \<le> unat (word_of_int i :: u64)"
    using ok(2,4) by (simp add: unat_word_of_int)
  have find: "find_receipt L i = None" using new by (simp add: stored_receipt_def)
  have unset: "rr_settled r = 0" using ch(1) new by (auto simp: charged_ok_def open_row_def)
  have "0 \<le> c" by (rule final_charge_range(1) [OF ch(2) charge])
  then have "settle_receipt all_done entropy utc L (rr_scope r) i c =
      Inr (Committed \<lparr>sr_receipt_id = rid, sr_reservation_id = word_of_int i, sr_scope = rr_scope r,
        sr_charged_tokens = word_of_int c, sr_settled_at = unix_timestamp utc\<rparr>,
       add_receipt (settle_row L i c (unix_timestamp utc)) rid i (rr_scope r) c (unix_timestamp utc))"
    using find unset b'(2) draw ok(2) settle_updated_one [OF ids b'(2) unset]
    by (simp add: settle_receipt_def insert_receipt_def add_receipt_def Let_def)
  then have "settle_terminal_body K C all_done entropy utc L (rr_scope r) x =
      Inr (Committed \<lparr>sr_receipt_id = rid, sr_reservation_id = word_of_int i, sr_scope = rr_scope r,
        sr_charged_tokens = word_of_int c, sr_settled_at = unix_timestamp utc\<rparr>,
       add_receipt (settle_row L i c (unix_timestamp utc)) rid i (rr_scope r) c (unix_timestamp utc))"
    using observable_done [OF inv b d] v obs q small ok(5)
    by (simp add: settle_terminal_body_def)
  then show ?thesis
    using scope ok(6) by (simp add: settle_terminal_durable_def transaction_done committed_def)
qed

lemma receipt_found:
  assumes inv: "evidence_inv K C L" and b: "bound L x i r" and d: "dispatched L x"
    and found: "stored_receipt L i = Some (rid, j, s, a, ts)"
  shows "j = i" "s = rr_scope r" "a = rr_actual r" "rr_settled r = 1" "rr_settled_at r = Some ts"
    "final_charge C (map_of (sl_observations L) x) = Some a" "validate_execution_id rid = Inr ()"
    "\<exists>row. find_receipt L i = Some (rid, row) \<and> receipt_of (rid, row) =
       Inr \<lparr>sr_receipt_id = rid, sr_reservation_id = word_of_int i, sr_scope = rr_scope r,
            sr_charged_tokens = word_of_int a, sr_settled_at = ts\<rparr>"
proof -
  note ch = bound_charged [OF inv b d]
  show eqs: "j = i" "s = rr_scope r" "a = rr_actual r" "rr_settled r = 1" "rr_settled_at r = Some ts"
    "validate_execution_id rid = Inr ()"
    and fc: "final_charge C (map_of (sl_observations L) x) = Some a"
    using ch(1) found by (auto simp: charged_ok_def)
  have "0 \<le> a" using final_charge_range(1) [OF ch(2) fc] .
  moreover have "0 < i" using b intent_okD(2) [OF inv] by (auto simp: bound_def)
  ultimately show "\<exists>row. find_receipt L i = Some (rid, row) \<and> receipt_of (rid, row) =
       Inr \<lparr>sr_receipt_id = rid, sr_reservation_id = word_of_int i, sr_scope = rr_scope r,
            sr_charged_tokens = word_of_int a, sr_settled_at = ts\<rparr>"
    using found eqs by (auto simp: stored_receipt_def receipt_core_def receipt_of_def get_u64_def)
qed

lemma resolved_read:
  assumes "observation_ok C (map_of (sl_observations L) x)"
    and "final_charge C (map_of (sl_observations L) x) = Some c"
  obtains obs where "read_observation C all_done L x i s = Inr (Some obs)" and "terminal_charge obs = Inr c"
proof -
  obtain v where v: "read_observation C all_done L x i s = Inr v" "resolved_charge v = Inr (Some c)"
    using read_observation_done [OF assms(1)] assms(2) by metis
  then obtain obs where "v = Some obs" "terminal_charge obs = Inr c"
    by (auto simp: resolved_charge_def split: option.split_asm sum.split_asm evidence_error.split_asm)
  with v(1) show thesis by (intro that) simp_all
qed

lemma settle_replay:
  assumes inv: "evidence_inv K C L" and b: "bound L x i r" and d: "dispatched L x"
    and found: "stored_receipt L i = Some (rid, j, s, a, ts)"
    and scope: "validate_scope (rr_scope r) = Inr ()"
  shows "settle_terminal_durable K C all_done entropy utc L (rr_scope r) x =
    (Inr (AlreadyCommitted \<lparr>sr_receipt_id = rid, sr_reservation_id = word_of_int i,
        sr_scope = rr_scope r, sr_charged_tokens = word_of_int a, sr_settled_at = ts\<rparr>), L)"
proof -
  have b': "reservation_of L x = Some i" "map_of (sl_reservations L) i = Some r"
    using b by (simp_all add: bound_def)
  note ok = intent_okD [OF inv b'] and ch = bound_charged [OF inv b d]
  note rc = receipt_found [OF inv b d found]
  obtain obs where obs: "read_observation C all_done L x (word_of_int i) (rr_scope r) = Inr (Some obs)"
      "terminal_charge obs = Inr a"
    by (rule resolved_read [OF ch(2) rc(6)])
  obtain q where q: "checked_terminal_receipt all_done L (rr_scope r) (word_of_int i) (Some a) = Inr q"
    using checked_terminal_receipt_done [OF ch(1,2) b'(2) refl ok(2,4)] rc(6) by auto
  have small: "\<not> 2 ^ 63 \<le> unat (word_of_int i :: u64)"
    using ok(2,4) by (simp add: unat_word_of_int)
  from rc(8) have "settle_receipt all_done entropy utc L (rr_scope r) i a =
      Inr (AlreadyCommitted \<lparr>sr_receipt_id = rid, sr_reservation_id = word_of_int i,
        sr_scope = rr_scope r, sr_charged_tokens = word_of_int a, sr_settled_at = ts\<rparr>, L)"
    by (auto simp: settle_receipt_def)
  then have "settle_terminal_body K C all_done entropy utc L (rr_scope r) x =
      Inr (AlreadyCommitted \<lparr>sr_receipt_id = rid, sr_reservation_id = word_of_int i,
        sr_scope = rr_scope r, sr_charged_tokens = word_of_int a, sr_settled_at = ts\<rparr>, L)"
    using observable_done [OF inv b d] obs q small ok(5)
    by (simp add: settle_terminal_body_def)
  then show ?thesis
    using scope ok(6) by (simp add: settle_terminal_durable_def transaction_done committed_def)
qed

section \<open>The state the inventory reports\<close>

definition reported_state ::
  "usage_codec \<Rightarrow> sqlite_ledger \<Rightarrow> string \<Rightarrow> int \<Rightarrow> recovery_state" where
  "reported_state C L x i =
     (case stored_receipt L i of
        Some (rid, j, s, a, ts) \<Rightarrow>
          Settled \<lparr>sr_receipt_id = rid, sr_reservation_id = word_of_int i, sr_scope = s,
                   sr_charged_tokens = word_of_int a, sr_settled_at = ts\<rparr>
      | None \<Rightarrow>
          (case map_of (sl_observations L) x of
             None \<Rightarrow> if map_of (sl_fences L) x \<noteq> None then MayHaveDispatched else MissingObservation
           | Some _ \<Rightarrow>
               (case final_charge C (map_of (sl_observations L) x) of
                  None \<Rightarrow> UnresolvedObservation | Some _ \<Rightarrow> ReadyToSettle)))"

lemma recovery_state_dispatched:
  assumes inv: "evidence_inv K C L" and b: "bound L x i r" and d: "dispatched L x"
  shows "recovery_state_of K C all_done L (rr_scope r) x (word_of_int i) = Inr (reported_state C L x i)"
proof -
  have b': "reservation_of L x = Some i" "map_of (sl_reservations L) i = Some r"
    using b by (simp_all add: bound_def)
  note ok = intent_okD [OF inv b'] and ch = bound_charged [OF inv b d]
  obtain f where f: "checked_fence K C all_done L (rr_scope r) x (word_of_int i) = Inr f"
    using checked_fence_done [OF ok(1) b'(2) refl ok(2,4)] by blast
  have fd: "f = None \<and> map_of (sl_fences L) x = None \<or>
      f = Some FenceAuthorized \<and> map_of (sl_fences L) x \<noteq> None"
  proof (cases f)
    case None
    with f checked_fence_None show ?thesis by blast
  next
    case (Some g)
    obtain row where "map_of (sl_fences L) x = Some row" "g = FenceAuthorized \<longleftrightarrow> f_phase row = 1"
      using f unfolding Some by (rule checked_fence_phase)
    with d Some show ?thesis by (simp add: dispatched_def)
  qed
  obtain v where v: "read_observation C all_done L x (word_of_int i) (rr_scope r) = Inr v"
      "v = None \<longleftrightarrow> map_of (sl_observations L) x = None"
      "resolved_charge v = Inr (final_charge C (map_of (sl_observations L) x))"
    using read_observation_done [OF ch(2)] by blast
  have ui: "uint (word_of_int i :: u64) = i" "unat (word_of_int i :: u64) < 2 ^ 63"
    using ok(2,4) by (simp_all add: uint_word_of_int_eq unat_word_of_int)
  show ?thesis
  proof (cases "stored_receipt L i")
    case None
    then have "checked_terminal_receipt all_done L (rr_scope r) (word_of_int i)
        (final_charge C (map_of (sl_observations L) x)) = Inr None"
      using ch(1) b'(2) ui
      by (auto simp: charged_ok_def open_row_def checked_terminal_receipt_def i64_try_from_def
          bounded_receipt_def stored_receipt_def)
    with f fd v None show ?thesis
      by (auto simp: recovery_state_of_def reported_state_def split: option.split)
  next
    case (Some p)
    then obtain rid j s a ts where found: "stored_receipt L i = Some (rid, j, s, a, ts)" by (cases p) auto
    note rc = receipt_found [OF inv b d found]
    from rc(8) obtain row where row: "find_receipt L i = Some (rid, row)" "receipt_of (rid, row) =
       Inr \<lparr>sr_receipt_id = rid, sr_reservation_id = word_of_int i, sr_scope = rr_scope r,
            sr_charged_tokens = word_of_int a, sr_settled_at = ts\<rparr>" by blast
    then have "ob_scope row = rr_scope r" by (auto simp: receipt_of_def elim!: bind_resE)
    moreover have "length rid = 64" using rc(7) by (simp add: validate_execution_id_def split: if_split_asm)
    moreover have "0 \<le> a" by (rule final_charge_range(1) [OF ch(2) rc(6)])
    ultimately have "checked_terminal_receipt all_done L (rr_scope r) (word_of_int i)
        (final_charge C (map_of (sl_observations L) x)) =
        Inr (Some \<lparr>sr_receipt_id = rid, sr_reservation_id = word_of_int i, sr_scope = rr_scope r,
            sr_charged_tokens = word_of_int a, sr_settled_at = ts\<rparr>)"
      using row rc b'(2) ui
      by (simp add: checked_terminal_receipt_def i64_try_from_def bounded_receipt_def receipt_matches_def)
    with f fd v found rc(2) show ?thesis
      by (auto simp: recovery_state_of_def reported_state_def)
  qed
qed

lemma recovery_state_undispatched:
  assumes inv: "evidence_inv K C L" and b: "bound L x i r" and d: "\<not> dispatched L x"
  shows "recovery_state_of K C all_done L (rr_scope r) x (word_of_int i) = Inr Prepared \<or>
    (\<exists>c. recovery_state_of K C all_done L (rr_scope r) x (word_of_int i) = Inr (ClosedBeforeDispatch c))"
proof -
  have b': "reservation_of L x = Some i" "map_of (sl_reservations L) i = Some r"
    using b by (simp_all add: bound_def)
  note ok = intent_okD [OF inv b']
  obtain v where v: "checked_fence K C all_done L (rr_scope r) x (word_of_int i) = Inr v"
    using checked_fence_done [OF ok(1) b'(2) refl ok(2,4)] by blast
  have "v \<noteq> None"
  proof
    assume "v = None"
    with v checked_fence_None have "map_of (sl_fences L) x = None" by blast
    with d show False by (simp add: dispatched_def)
  qed
  then obtain f where f: "v = Some f" by blast
  obtain row where "map_of (sl_fences L) x = Some row" "f = FenceAuthorized \<longleftrightarrow> f_phase row = 1"
    using v unfolding f by (rule checked_fence_phase)
  with d have "f \<noteq> FenceAuthorized" by (auto simp: dispatched_def)
  with v f show ?thesis by (cases f) (auto simp: recovery_state_of_def)
qed

text \<open>An execution reported without an observation was dispatched, or may have been.\<close>

lemma unobserved_state:
  assumes inv: "evidence_inv K C L" and b: "bound L x i r"
    and st: "recovery_state_of K C all_done L (rr_scope r) x (word_of_int i) = Inr MayHaveDispatched \<or>
      recovery_state_of K C all_done L (rr_scope r) x (word_of_int i) = Inr MissingObservation"
  shows "dispatched L x" and "map_of (sl_observations L) x = None" and "stored_receipt L i = None"
proof -
  show d: "dispatched L x"
  proof (rule ccontr)
    assume "\<not> dispatched L x"
    from recovery_state_undispatched [OF inv b this] st show False by auto
  qed
  show "map_of (sl_observations L) x = None" and "stored_receipt L i = None"
    using st recovery_state_dispatched [OF inv b d]
    by (auto simp: reported_state_def split: option.split_asm prod.split_asm)
qed

section \<open>After recording and settling\<close>

lemma record_effect:
  assumes inv: "evidence_inv K C L" and ids: "row_ids L" and b: "bound L x i r" and d: "dispatched L x"
    and new: "map_of (sl_observations L) x = None"
    and input: "validate_scope (rr_scope r) = Inr ()" "encode_usage C usage = Inr encoded"
      "charge_storable usage bp"
    and world: "codec_ok C" "world_ok K w" "wo_engine w = all_done"
  defines "L1 \<equiv> with_observation L x (observed_row usage bp encoded (unix_timestamp (wo_utc w)))"
  shows "evidence_inv K C L1" and "row_ids L1" and "bound L1 x i r" and "dispatched L1 x"
    and "stored_receipt L1 i = None"
    and "\<lbrakk>u_completeness usage = Final; u_basis usage = ProviderReported\<rbrakk> \<Longrightarrow>
      final_charge C (map_of (sl_observations L1) x) = Some (uint (billable_weighted usage bp))"
proof -
  have L1: "snd (perform K C w L (RecordTerminal (rr_scope r) x usage bp)) = L1"
    using record_unobserved [OF inv b d new input, of "wo_utc w"] world(3) by (simp add: L1_def)
  show "evidence_inv K C L1" using evidence_perform [OF inv world(2,1)] unfolding L1 [symmetric] .
  show "row_ids L1" using row_ids_perform [OF ids] unfolding L1 [symmetric] .
  show "bound L1 x i r" "dispatched L1 x"
    using b d by (simp_all add: L1_def with_observation_def bound_def dispatched_def reservation_of_def)
  have "stored_receipt L i = None"
    using bound_charged(1) [OF inv b d] new by (auto simp: charged_ok_def final_charge_def)
  then show "stored_receipt L1 i = None"
    by (simp add: L1_def with_observation_def stored_receipt_def find_receipt_def)
  show "\<lbrakk>u_completeness usage = Final; u_basis usage = ProviderReported\<rbrakk> \<Longrightarrow>
      final_charge C (map_of (sl_observations L1) x) = Some (uint (billable_weighted usage bp))"
    using world(1) input(2) new
    by (simp add: L1_def with_observation_def observed_row_def final_charge_def codec_ok_def
        frozen_charge_of_def map_add_def)
qed

lemma settle_effect:
  assumes inv: "evidence_inv K C L" and ids: "row_ids L" and b: "bound L x i r" and d: "dispatched L x"
    and charge: "final_charge C (map_of (sl_observations L) x) = Some c" and new: "stored_receipt L i = None"
    and scope: "validate_scope (rr_scope r) = Inr ()"
    and draw: "opaque_id (wo_entropy w 0) = Inr rid" "map_of (sl_outbox L) rid = None"
    and world: "codec_ok C" "world_ok K w" "wo_engine w = all_done"
  defines "ts \<equiv> unix_timestamp (wo_utc w)"
  defines "L2 \<equiv> add_receipt (settle_row L i c ts) rid i (rr_scope r) c ts"
  shows "evidence_inv K C L2" and "row_ids L2"
    and "bound L2 x i (r\<lparr>rr_actual := c, rr_settled := 1, rr_settled_at := Some ts\<rparr>)"
    and "dispatched L2 x" and "stored_receipt L2 i = Some (rid, i, rr_scope r, c, ts)"
proof -
  have L2: "snd (perform K C w L (SettleTerminal (rr_scope r) x)) = L2"
    using settle_ready [OF inv ids b d charge new scope draw, of "wo_utc w"] world(3)
    by (simp add: L2_def ts_def)
  show "evidence_inv K C L2" using evidence_perform [OF inv world(2,1)] unfolding L2 [symmetric] .
  show "row_ids L2" using row_ids_perform [OF ids] unfolding L2 [symmetric] .
  have "rr_settled r = 0"
    using bound_charged(1) [OF inv b d] new by (auto simp: charged_ok_def open_row_def)
  then show "bound L2 x i (r\<lparr>rr_actual := c, rr_settled := 1, rr_settled_at := Some ts\<rparr>)"
    using b by (simp add: L2_def bound_def reservation_of_def add_receipt_def map_of_settle_row)
  show "dispatched L2 x" using d by (simp add: L2_def dispatched_def add_receipt_def)
  have "stored_receipt (settle_row L i c ts) i = None" using new by (simp add: stored_receipt_def)
  then show "stored_receipt L2 i = Some (rid, i, rr_scope r, c, ts)"
    by (simp add: L2_def stored_receipt_add)
qed

lemma intent_durable_bound:
  assumes "intent_durable K all_done L x = Inr (Some intent)"
  obtains i r where "bound L x i r" and "r_id (ei_reservation intent) = word_of_int i"
    and "r_scope (ei_reservation intent) = rr_scope r" and "ei_execution_id intent = x"
proof -
  from assms obtain i r where ir: "Option.bind (map_of (sl_intents L) x)
      (\<lambda>t. map_option (\<lambda>r. (in_reservation_id t, r)) (map_of (sl_reservations L) (in_reservation_id t))) =
      Some (i, r)" "r_id (ei_reservation intent) = word_of_int i"
      "r_scope (ei_reservation intent) = rr_scope r" "ei_execution_id intent = x"
    unfolding intent_durable_def
    by (auto simp: get_u64_def elim!: bind_resE split: option.split_asm if_split_asm)
  then have "bound L x i r"
    by (auto simp: bound_def reservation_of_def bind_eq_Some_conv)
  with ir show thesis by (intro that) auto
qed

end
