(* ===== verification/Sharded.thy ===== *)
theory Sharded
  imports Recovery
begin

text \<open>
  \<^verbatim>\<open>crates/sandhi-store/src/sharded.rs\<close>: the durable ledger as a list of SQLite ledgers, a
  scope living in the one its hash selects, and the operations on execution evidence, which accept a
  single file-backed ledger only. A poisoned
  shard mutex makes the plain operations panic, which is the answer \<^const>\<open>None\<close> here, and the
  evidence operations report an error.
\<close>

unbundle bit_operations_syntax

section \<open>Routing\<close>

record shard =
  sd_ledger :: sqlite_ledger
  sd_poisoned :: bool

record sharded_ledger =
  sh_shards :: "shard list"

definition as_bytes :: "string \<Rightarrow> u8 list" where
  "as_bytes s = map of_char s"

definition fnv1a :: "u8 list \<Rightarrow> u64" where
  "fnv1a bytes =
     foldl (\<lambda>hash byte. (hash XOR ucast byte) * 0x100000001b3) 0xcbf29ce484222325 bytes"

definition route :: "nat \<Rightarrow> string \<Rightarrow> nat" where
  "route n scope = unat (fnv1a (as_bytes scope) mod of_nat n)"

definition shard_for :: "sharded_ledger \<Rightarrow> string \<Rightarrow> nat" where
  "shard_for S scope = route (length (sh_shards S)) scope"

definition put_shard :: "sharded_ledger \<Rightarrow> nat \<Rightarrow> sqlite_ledger \<Rightarrow> sharded_ledger" where
  "put_shard S i L =
     S\<lparr>sh_shards := (sh_shards S)[i := (sh_shards S ! i)\<lparr>sd_ledger := L\<rparr>]\<rparr>"

definition with_shard ::
  "sharded_ledger \<Rightarrow> string \<Rightarrow> (sqlite_ledger \<Rightarrow> 'r \<times> sqlite_ledger) \<Rightarrow> 'r option \<times> sharded_ledger" where
  "with_shard S scope f =
     (let i = shard_for S scope; shard = sh_shards S ! i in
      if sh_shards S = [] \<or> sd_poisoned shard then (None, S)
      else case f (sd_ledger shard) of (r, L) \<Rightarrow> (Some r, put_shard S i L))"

section \<open>Operations on a scope\<close>

definition sh_set_limit_durable ::
  "engine \<Rightarrow> sharded_ledger \<Rightarrow> string \<Rightarrow> u64 option \<Rightarrow> window \<Rightarrow> policy \<Rightarrow>
     (sql_error + unit) option \<times> sharded_ledger" where
  "sh_set_limit_durable E S scope limit window policy =
     with_shard S scope (\<lambda>L. set_limit_durable E L scope limit window policy)"

definition sh_reserve_durable ::
  "calendar \<Rightarrow> engine \<Rightarrow> sharded_ledger \<Rightarrow> string \<Rightarrow> u64 \<Rightarrow> instant \<Rightarrow> duration \<Rightarrow>
     (sql_error + reserve_outcome) option \<times> sharded_ledger" where
  "sh_reserve_durable K E S scope ceil now ttl =
     with_shard S scope (\<lambda>L. reserve_durable K E L scope ceil now ttl)"

definition sh_settle_durable ::
  "engine \<Rightarrow> int \<Rightarrow> sharded_ledger \<Rightarrow> string \<Rightarrow> u64 \<Rightarrow> u64 \<Rightarrow>
     (sql_error + unit) option \<times> sharded_ledger" where
  "sh_settle_durable E clock S scope reservation_id actual =
     with_shard S scope (\<lambda>L. settle_durable E clock L reservation_id actual)"

definition sh_limit_durable ::
  "engine \<Rightarrow> sharded_ledger \<Rightarrow> string \<Rightarrow> (sql_error + u64 option) option" where
  "sh_limit_durable E S scope = fst (with_shard S scope (\<lambda>L. (limit_durable E L scope, L)))"

definition sh_spent_durable ::
  "calendar \<Rightarrow> engine \<Rightarrow> instant \<Rightarrow> sharded_ledger \<Rightarrow> string \<Rightarrow> (sql_error + u64) option" where
  "sh_spent_durable K E now_utc S scope =
     fst (with_shard S scope (\<lambda>L. (spent_durable K E now_utc L scope, L)))"

definition sh_reserved_durable ::
  "engine \<Rightarrow> sharded_ledger \<Rightarrow> string \<Rightarrow> (sql_error + u64) option" where
  "sh_reserved_durable E S scope = fst (with_shard S scope (\<lambda>L. (reserved_durable E L scope, L)))"

text \<open>Deduplication routes by the virtual key.\<close>

definition sh_seen_durable ::
  "engine \<Rightarrow> sharded_ledger \<Rightarrow> string \<Rightarrow> string \<Rightarrow> instant \<Rightarrow>
     (sql_error + (u64 \<times> u64) option) option \<times> sharded_ledger" where
  "sh_seen_durable E S vkey idem_key now =
     with_shard S vkey (\<lambda>L. seen_durable E L vkey idem_key now)"

definition sh_record_durable ::
  "engine \<Rightarrow> sharded_ledger \<Rightarrow> string \<Rightarrow> string \<Rightarrow> u64 \<Rightarrow> u64 \<Rightarrow> instant \<Rightarrow> duration \<Rightarrow>
     (sql_error + unit) option \<times> sharded_ledger" where
  "sh_record_durable E S vkey idem_key reservation actual now ttl =
     with_shard S vkey (\<lambda>L. record_durable E L vkey idem_key reservation actual now ttl)"

section \<open>Operations on every shard\<close>

text \<open>\<open>E k\<close> is the engine of the \<open>k\<close>-th shard; an error stops the loop.\<close>

fun list_each ::
  "(nat \<Rightarrow> engine) \<Rightarrow> nat \<Rightarrow> shard list \<Rightarrow> (sql_error + budget_row list) option" where
  "list_each E k [] = Some (Inr [])"
| "list_each E k (shard # shards) =
     (if sd_poisoned shard then None
      else
        (case list_budgets_durable (E k) (sd_ledger shard) of
           Inl e \<Rightarrow> Some (Inl e)
         | Inr rows \<Rightarrow>
             (case list_each E (Suc k) shards of
                None \<Rightarrow> None
              | Some (Inl e) \<Rightarrow> Some (Inl e)
              | Some (Inr rest) \<Rightarrow> Some (Inr (rows @ rest)))))"

definition sh_list_budgets_durable ::
  "(nat \<Rightarrow> engine) \<Rightarrow> sharded_ledger \<Rightarrow> (sql_error + budget_row list) option" where
  "sh_list_budgets_durable E S =
     map_option (map_sum (\<lambda>e. e) (sort_key br_scope)) (list_each E 0 (sh_shards S))"

fun reclaim_each ::
  "(nat \<Rightarrow> engine) \<Rightarrow> nat \<Rightarrow> instant \<Rightarrow> shard list \<Rightarrow> (sql_error + nat) option \<times> shard list" where
  "reclaim_each E k now [] = (Some (Inr 0), [])"
| "reclaim_each E k now (shard # shards) =
     (if sd_poisoned shard then (None, shard # shards)
      else
        (case reclaim_expired_durable (E k) (sd_ledger shard) now of
           (Inl e, L) \<Rightarrow> (Some (Inl e), shard\<lparr>sd_ledger := L\<rparr> # shards)
         | (Inr n, L) \<Rightarrow>
             (case reclaim_each E (Suc k) now shards of
                (r, shards) \<Rightarrow>
                  (map_option (map_sum (\<lambda>e. e) (\<lambda>m. n + m)) r, shard\<lparr>sd_ledger := L\<rparr> # shards))))"

definition sh_reclaim_expired_durable ::
  "(nat \<Rightarrow> engine) \<Rightarrow> sharded_ledger \<Rightarrow> instant \<Rightarrow> (sql_error + nat) option \<times> sharded_ledger" where
  "sh_reclaim_expired_durable E S now =
     (case reclaim_each E 0 now (sh_shards S) of (r, shards) \<Rightarrow> (r, S\<lparr>sh_shards := shards\<rparr>))"

section \<open>Execution evidence\<close>

text \<open>One shard's evidence, by index or by scope; a poisoned shard is an error.\<close>

definition on_shard ::
  "sharded_ledger \<Rightarrow> nat \<Rightarrow> (sqlite_ledger \<Rightarrow> (evidence_error + 'a) \<times> sqlite_ledger) \<Rightarrow>
     (evidence_error + 'a) \<times> sharded_ledger" where
  "on_shard S i f =
     (if i \<ge> length (sh_shards S) then (Inl InvalidShard, S)
      else if sd_poisoned (sh_shards S ! i) then (Inl ShardPoisoned, S)
      else case f (sd_ledger (sh_shards S ! i)) of (r, L) \<Rightarrow> (r, put_shard S i L))"

definition sh_settle_with_evidence_durable ::
  "engine \<Rightarrow> u8 list option \<Rightarrow> instant \<Rightarrow> sharded_ledger \<Rightarrow> string \<Rightarrow> u64 \<Rightarrow> u64 \<Rightarrow>
     (evidence_error + settlement_outcome) \<times> sharded_ledger" where
  "sh_settle_with_evidence_durable E entropy now_utc S scope reservation_id charged_tokens =
     on_shard S (shard_for S scope)
       (\<lambda>L. settle_with_evidence_durable E entropy now_utc L scope reservation_id charged_tokens)"

definition evidence_shard_count :: "sharded_ledger \<Rightarrow> nat" where
  "evidence_shard_count S = length (sh_shards S)"

definition sh_claim_settlements_durable ::
  "engine \<Rightarrow> (nat \<Rightarrow> u8 list option) \<Rightarrow> sharded_ledger \<Rightarrow> nat \<Rightarrow> nat \<Rightarrow> instant \<Rightarrow> u32 \<Rightarrow>
     (evidence_error + claimed_settlement list) \<times> sharded_ledger" where
  "sh_claim_settlements_durable E entropy S shard_index limit now lease_seconds =
     on_shard S shard_index (\<lambda>L. claim_settlements_durable E entropy L limit now lease_seconds)"

definition sh_acknowledge_settlement_durable ::
  "engine \<Rightarrow> sharded_ledger \<Rightarrow> nat \<Rightarrow> string \<Rightarrow> string \<Rightarrow> instant \<Rightarrow>
     (evidence_error + bool) \<times> sharded_ledger" where
  "sh_acknowledge_settlement_durable E S shard_index receipt_id claim_token now =
     on_shard S shard_index (\<lambda>L. acknowledge_settlement_durable E L receipt_id claim_token now)"

definition tracked_ledger :: "sharded_ledger \<Rightarrow> evidence_error + sqlite_ledger" where
  "tracked_ledger S =
     (if length (sh_shards S) \<noteq> 1 then Inl UnsupportedTrackedLedger
      else if sd_poisoned (sh_shards S ! 0) then Inl ShardPoisoned
      else if \<not> is_file_backed (sd_ledger (sh_shards S ! 0)) then Inl UnsupportedTrackedLedger
      else Inr (sd_ledger (sh_shards S ! 0)))"

definition on_tracked ::
  "sharded_ledger \<Rightarrow> (sqlite_ledger \<Rightarrow> (evidence_error + 'a) \<times> sqlite_ledger) \<Rightarrow>
     (evidence_error + 'a) \<times> sharded_ledger" where
  "on_tracked S f =
     (case tracked_ledger S of
        Inl e \<Rightarrow> (Inl e, S)
      | Inr L \<Rightarrow> (case f L of (r, L) \<Rightarrow> (r, put_shard S 0 L)))"

definition validate_tracked_durable :: "sharded_ledger \<Rightarrow> evidence_error + unit" where
  "validate_tracked_durable S = map_sum (\<lambda>e. e) (\<lambda>_. ()) (tracked_ledger S)"

definition sh_reserve_correlated_durable ::
  "calendar \<Rightarrow> engine \<Rightarrow> u8 list option \<Rightarrow> sharded_ledger \<Rightarrow> string \<Rightarrow> u64 \<Rightarrow> instant \<Rightarrow> duration \<Rightarrow>
     nat \<Rightarrow> string \<Rightarrow> (evidence_error + intent_admission) \<times> sharded_ledger" where
  "sh_reserve_correlated_durable K E entropy S scope ceil now ttl retained_limit request_id =
     on_tracked S
       (\<lambda>L. reserve_correlated_durable K E entropy L scope ceil now ttl retained_limit request_id)"

definition sh_reserve_prepared_durable ::
  "calendar \<Rightarrow> engine \<Rightarrow> u8 list option \<Rightarrow> sharded_ledger \<Rightarrow> string \<Rightarrow> u64 \<Rightarrow> instant \<Rightarrow> duration \<Rightarrow>
     nat \<Rightarrow> (evidence_error + intent_admission) \<times> sharded_ledger" where
  "sh_reserve_prepared_durable K E entropy S scope ceil now ttl retained_limit =
     on_tracked S (\<lambda>L. reserve_prepared_durable K E entropy L scope ceil now ttl retained_limit)"

definition sh_request_id_durable ::
  "calendar \<Rightarrow> engine \<Rightarrow> sharded_ledger \<Rightarrow> string \<Rightarrow> string \<Rightarrow> evidence_error + string option" where
  "sh_request_id_durable K E S scope execution_id =
     bind_res (tracked_ledger S) (\<lambda>L. request_id_durable K E L scope execution_id)"

definition sh_recovery_scopes_durable ::
  "engine \<Rightarrow> sharded_ledger \<Rightarrow> scope_cursor option \<Rightarrow> nat \<Rightarrow> evidence_error + scope_page" where
  "sh_recovery_scopes_durable E S cursor limit =
     bind_res (tracked_ledger S) (\<lambda>L. recovery_scopes_durable E L cursor limit)"

definition sh_recovery_page_durable ::
  "calendar \<Rightarrow> usage_codec \<Rightarrow> engine \<Rightarrow> sharded_ledger \<Rightarrow> string \<Rightarrow> recovery_cursor option \<Rightarrow> nat \<Rightarrow>
     evidence_error + recovery_page" where
  "sh_recovery_page_durable K C E S scope cursor limit =
     bind_res (tracked_ledger S) (\<lambda>L. recovery_page_durable K C E L scope cursor limit)"

definition checked_intent ::
  "calendar \<Rightarrow> engine \<Rightarrow> sqlite_ledger \<Rightarrow> execution_intent \<Rightarrow> evidence_error + execution_intent" where
  "checked_intent K E L intent =
     bind_res (intent_durable K E L (ei_execution_id intent)) (\<lambda>found.
     case found of
       None \<Rightarrow> Inl MissingIntent
     | Some original \<Rightarrow>
         let a = ei_reservation original; b = ei_reservation intent in
         if r_scope a \<noteq> r_scope b then Inl WrongScope
         else if r_id a \<noteq> r_id b \<or> r_ceiling a \<noteq> r_ceiling b \<or>
                 unix_timestamp (r_expires_at a) \<noteq> unix_timestamp (r_expires_at b)
         then Inl InvalidInput
         else Inr original)"

text \<open>An operation on the original admission of an intent.\<close>

definition on_intent ::
  "calendar \<Rightarrow> engine \<Rightarrow> sharded_ledger \<Rightarrow> execution_intent \<Rightarrow>
     (string \<Rightarrow> string \<Rightarrow> sqlite_ledger \<Rightarrow> (evidence_error + 'a) \<times> sqlite_ledger) \<Rightarrow>
     (evidence_error + 'a) \<times> sharded_ledger" where
  "on_intent K E S intent f =
     on_tracked S (\<lambda>L.
       case checked_intent K E L intent of
         Inl e \<Rightarrow> (Inl e, L)
       | Inr original \<Rightarrow> f (r_scope (ei_reservation original)) (ei_execution_id original) L)"

definition record_terminal_for_intent_durable ::
  "calendar \<Rightarrow> usage_codec \<Rightarrow> engine \<Rightarrow> instant \<Rightarrow> sharded_ledger \<Rightarrow> execution_intent \<Rightarrow> usage_v2 \<Rightarrow> u32 \<Rightarrow>
     (evidence_error + observation_outcome) \<times> sharded_ledger" where
  "record_terminal_for_intent_durable K C E now_utc S intent usage cache_read_bp =
     on_intent K E S intent (\<lambda>scope execution_id L.
       record_terminal_durable K C E now_utc L scope execution_id usage cache_read_bp)"

definition authorize_dispatch_for_intent_durable ::
  "calendar \<Rightarrow> usage_codec \<Rightarrow> engine \<Rightarrow> instant \<Rightarrow> sharded_ledger \<Rightarrow> execution_intent \<Rightarrow>
     (evidence_error + dispatch_outcome) \<times> sharded_ledger" where
  "authorize_dispatch_for_intent_durable K C E now_utc S intent =
     on_intent K E S intent (\<lambda>scope execution_id L.
       authorize_dispatch_durable K C E now_utc L scope execution_id)"

definition close_before_dispatch_for_intent_durable ::
  "calendar \<Rightarrow> usage_codec \<Rightarrow> engine \<Rightarrow> instant \<Rightarrow> sharded_ledger \<Rightarrow> execution_intent \<Rightarrow>
     (evidence_error + closure_outcome) \<times> sharded_ledger" where
  "close_before_dispatch_for_intent_durable K C E now_utc S intent =
     on_intent K E S intent (\<lambda>scope execution_id L.
       close_before_dispatch_durable K C E now_utc L scope execution_id)"

definition sh_settle_terminal_durable ::
  "calendar \<Rightarrow> usage_codec \<Rightarrow> engine \<Rightarrow> u8 list option \<Rightarrow> instant \<Rightarrow> sharded_ledger \<Rightarrow> string \<Rightarrow>
     string \<Rightarrow> (evidence_error + settlement_outcome) \<times> sharded_ledger" where
  "sh_settle_terminal_durable K C E entropy now_utc S scope execution_id =
     on_tracked S (\<lambda>L. settle_terminal_durable K C E entropy now_utc L scope execution_id)"

section \<open>The shards as single ledgers\<close>

text \<open>Calls on the sharded ledger, and what one shard sees of them.\<close>

datatype shard_call =
    ShReserve string u64 instant duration
  | ShSettle string u64 u64
  | ShReclaim instant

fun sh_step :: "calendar \<Rightarrow> nat \<Rightarrow> sharded_ledger \<Rightarrow> shard_call \<Rightarrow> sharded_ledger" where
  "sh_step K clock S (ShReserve s c now ttl) = snd (sh_reserve_durable K all_done S s c now ttl)"
| "sh_step K clock S (ShSettle s i a) = snd (sh_settle_durable all_done (int clock) S s i a)"
| "sh_step K clock S (ShReclaim now) = snd (sh_reclaim_expired_durable (\<lambda>_. all_done) S now)"

definition sh_run :: "calendar \<Rightarrow> nat \<Rightarrow> sharded_ledger \<Rightarrow> shard_call list \<Rightarrow> sharded_ledger" where
  "sh_run K clock = foldl (sh_step K clock)"

fun seen_by :: "nat \<Rightarrow> nat \<Rightarrow> shard_call \<Rightarrow> ledger_op list" where
  "seen_by n i (ShReserve s c now ttl) = (if route n s = i then [Reserve s c now ttl] else [])"
| "seen_by n i (ShSettle s j a) = (if route n s = i then [Settle j a] else [])"
| "seen_by n i (ShReclaim now) = [ReclaimExpired now]"

definition shards_ok :: "sharded_ledger \<Rightarrow> bool" where
  "shards_ok S \<longleftrightarrow> sh_shards S \<noteq> [] \<and> (\<forall>shard \<in> set (sh_shards S). \<not> sd_poisoned shard)"

definition shard_at :: "sharded_ledger \<Rightarrow> nat \<Rightarrow> sqlite_ledger" where
  "shard_at S i = sd_ledger (sh_shards S ! i)"

lemma route_less: "0 < n \<Longrightarrow> n < 2 ^ 64 \<Longrightarrow> route n s < n"
  by (simp add: route_def unat_mod_distrib unat_of_nat take_bit_nat_eq_self)

lemma snd_sq_reserve: "snd (sq_reserve K E L s c now ttl) = snd (reserve_durable K E L s c now ttl)"
  by (auto simp: sq_reserve_def split: prod.split sum.split reserve_outcome.split)

lemma snd_sq_reclaim: "snd (sq_reclaim_expired E L now) = snd (reclaim_expired_durable E L now)"
  by (auto simp: sq_reclaim_expired_def split: prod.split sum.split)

lemma with_shard_effect:
  assumes "shards_ok S" and "route (length (sh_shards S)) s < length (sh_shards S)"
  shows "shards_ok (snd (with_shard S s f))"
    and "length (sh_shards (snd (with_shard S s f))) = length (sh_shards S)"
    and "i < length (sh_shards S) \<Longrightarrow> shard_at (snd (with_shard S s f)) i =
      (if route (length (sh_shards S)) s = i then snd (f (shard_at S i)) else shard_at S i)"
  using assms
  by (auto simp: with_shard_def shards_ok_def shard_for_def put_shard_def shard_at_def Let_def
      split: prod.split dest!: set_update_subset_insert [THEN subsetD])

lemma reclaim_each_done:
  assumes "\<forall>shard \<in> set shards. \<not> sd_poisoned shard"
  shows "snd (reclaim_each (\<lambda>_. all_done) k now shards) =
    map (\<lambda>shard. shard\<lparr>sd_ledger := snd (reclaim_expired_durable all_done (sd_ledger shard) now)\<rparr>) shards"
  using assms
proof (induction shards arbitrary: k)
  case (Cons shard shards)
  have "\<exists>n L. reclaim_expired_durable all_done (sd_ledger shard) now = (Inr n, L)"
    by (simp add: reclaim_expired_durable_def Let_def)
  with Cons show ?case by (auto simp: split_def)
qed simp

lemma sh_step_effect:
  assumes ok: "shards_ok S" and n: "length (sh_shards S) < 2 ^ 64" and i: "i < length (sh_shards S)"
  shows "shards_ok (sh_step K clock S x)"
    and "length (sh_shards (sh_step K clock S x)) = length (sh_shards S)"
    and "shard_at (sh_step K clock S x) i =
      sq_run K clock (shard_at S i) (seen_by (length (sh_shards S)) i x)"
proof -
  have r: "route (length (sh_shards S)) s < length (sh_shards S)" for s
    using ok n by (intro route_less) (auto simp: shards_ok_def)
  note w = with_shard_effect [OF ok r]
  have "shards_ok (sh_step K clock S x) \<and>
    length (sh_shards (sh_step K clock S x)) = length (sh_shards S) \<and>
    shard_at (sh_step K clock S x) i =
      sq_run K clock (shard_at S i) (seen_by (length (sh_shards S)) i x)"
  proof (cases x)
    case (ShReserve s c now ttl)
    with i show ?thesis by (simp add: w sh_reserve_durable_def snd_sq_reserve)
  next
    case (ShSettle s j a)
    with i show ?thesis by (simp add: w sh_settle_durable_def sq_settle_def)
  next
    case (ShReclaim now)
    with ok i show ?thesis
      by (auto simp: sh_reclaim_expired_durable_def shards_ok_def shard_at_def snd_sq_reclaim
          reclaim_each_done split_def)
  qed
  then show "shards_ok (sh_step K clock S x)"
    and "length (sh_shards (sh_step K clock S x)) = length (sh_shards S)"
    and "shard_at (sh_step K clock S x) i =
      sq_run K clock (shard_at S i) (seen_by (length (sh_shards S)) i x)" by blast+
qed

lemma sq_run_append: "sq_run K clock L (xs @ ys) = sq_run K clock (sq_run K clock L xs) ys"
  by (simp add: ledger_run_def)

lemma sh_run_simps [simp]:
  "sh_run K clock S [] = S" "sh_run K clock S (x # xs) = sh_run K clock (sh_step K clock S x) xs"
  by (simp_all add: sh_run_def)

lemma sh_run_effect:
  assumes "shards_ok S" and "length (sh_shards S) < 2 ^ 64" and "i < length (sh_shards S)"
  shows "shards_ok (sh_run K clock S xs) \<and>
    length (sh_shards (sh_run K clock S xs)) = length (sh_shards S) \<and>
    shard_at (sh_run K clock S xs) i =
      sq_run K clock (shard_at S i) (concat (map (seen_by (length (sh_shards S)) i) xs))"
  using assms
proof (induction xs arbitrary: S)
  case (Cons x xs)
  note step = sh_step_effect [OF Cons.prems, of K clock x]
  show ?case using Cons.IH [OF step(1)] Cons.prems step by (simp add: sq_run_append)
qed simp

lemma sq_reads_done:
  assumes "sq_inv L"
  shows "spent_durable K all_done utc L s = Inr (sq_spent K all_done utc L s)"
    and "reserved_durable all_done L s = Inr (sq_reserved all_done L s)"
proof -
  have "\<exists>v. spent_durable K all_done utc L s = Inr v"
  proof (cases "map_of (sl_limits L) s")
    case None
    then show ?thesis
      using select_done(1) [OF assms, of s]
      by (simp add: spent_durable_def window_of_durable_def window_default_def)
  next
    case (Some row)
    with sq_inv_limits(1) [OF assms Some] select_done(1) [OF assms, of s] show ?thesis
      by (simp add: spent_durable_def window_of_durable_def)
  qed
  then show "spent_durable K all_done utc L s = Inr (sq_spent K all_done utc L s)"
    by (auto simp: sq_spent_def)
  show "reserved_durable all_done L s = Inr (sq_reserved all_done L s)"
    using select_done(2) [OF assms, of s] by (simp add: sq_reserved_def reserved_durable_def)
qed

text \<open>The invariant of the single ledger along a history in range.\<close>

lemma sq_run_inv:
  assumes "sq_inv L" and "in_range sq_lease sq_fits sq_chargeable (sq_step K clock) L xs"
  shows "sq_inv (sq_run K clock L xs)"
  using assms
proof (induction xs arbitrary: L)
  case (Cons x xs)
  then show ?case using sq.step_inv [of L x K clock] by simp
qed simp

section \<open>Properties\<close>



section \<open>Witnesses\<close>

definition ex_shards :: sharded_ledger where
  "ex_shards = \<lparr>sh_shards = replicate 2 \<lparr>sd_ledger = ex_db, sd_poisoned = False\<rparr>\<rparr>"

definition ex_shard_calls :: "shard_call list" where
  "ex_shard_calls = [ShReserve ''team'' 60 0 900000000000, ShSettle ''team'' 1 70, ShReclaim 0]"

lemma ex_shards_ok:
  "shards_ok ex_shards" "length (sh_shards ex_shards) < 2 ^ 64"
  "shard_at ex_shards (shard_for ex_shards s) = ex_db"
proof -
  show "shards_ok ex_shards" "length (sh_shards ex_shards) < 2 ^ 64"
    by (simp_all add: ex_shards_def shards_ok_def)
  have "shard_for ex_shards s < 2"
    using route_less [of 2 s] by (simp add: shard_for_def ex_shards_def)
  then show "shard_at ex_shards (shard_for ex_shards s) = ex_db"
    by (simp add: shard_at_def ex_shards_def)
qed

lemma ex_shard_ops:
  "concat (map (seen_by (length (sh_shards ex_shards)) (shard_for ex_shards ''team'')) ex_shard_calls) =
     [Reserve ''team'' 60 0 900000000000, Settle 1 70, ReclaimExpired 0]"
  by (simp add: ex_shard_calls_def shard_for_def)



end
