(* ===== verification/Migration.thy ===== *)
theory Migration
  imports Sharded
begin

text \<open>
  \<^verbatim>\<open>crates/sandhi-store/src/sharded.rs\<close>: opening the shards of a ledger, and the migration of
  the rows of a single file into them.
\<close>

section \<open>Opening and migration\<close>

text \<open>
  The files a ledger is opened on: a database has its tables by name, and the contents of the
  ledger's tables. \<open>E path\<close> is the engine of a connection to \<open>path\<close>.
\<close>

record database =
  db_tables :: "string list"
  db_ledger :: sqlite_ledger

type_synonym disk = "string \<Rightarrow> database option"

abbreviation memory_path :: string where
  "memory_path \<equiv> '':memory:''"

definition ledger_tables :: "string list" where
  "ledger_tables =
     [''budget_limit'', ''budget_reservation'', ''idempotency_dedup'', ''budget_execution_intent'',
      ''budget_request_correlation'', ''budget_dispatch_fence'', ''budget_settlement_outbox'',
      ''budget_terminal_observation'']"

definition empty_database :: "string \<Rightarrow> database" where
  "empty_database path =
     \<lparr>db_tables = [], db_ledger = sqlite_open (Some (if path = memory_path then [] else path))\<rparr>"

text \<open>What a connection to a path finds.\<close>

definition connect :: "disk \<Rightarrow> string \<Rightarrow> database" where
  "connect disk path =
     (if path = memory_path then empty_database path
      else case disk path of None \<Rightarrow> empty_database path | Some db \<Rightarrow> db)"

definition put_database :: "disk \<Rightarrow> string \<Rightarrow> database \<Rightarrow> disk" where
  "put_database disk path db = (if path = memory_path then disk else disk(path \<mapsto> db))"

text \<open>\<^verbatim>\<open>SqliteLedger::open\<close>: connect and create the tables that are missing.\<close>

definition open_ledger ::
  "(string \<Rightarrow> engine) \<Rightarrow> disk \<Rightarrow> string \<Rightarrow> (sql_error + sqlite_ledger) \<times> disk" where
  "open_ledger E disk path =
     (let db = connect disk path in
      autocommit (E path) OpenDatabase disk
        (put_database disk path (db\<lparr>db_tables := remdups (db_tables db @ ledger_tables)\<rparr>))
        (db_ledger db))"

fun open_each ::
  "(string \<Rightarrow> engine) \<Rightarrow> disk \<Rightarrow> string list \<Rightarrow> (sql_error + sqlite_ledger list) \<times> disk" where
  "open_each E disk [] = (Inr [], disk)"
| "open_each E disk (path # paths) =
     (case open_ledger E disk path of
        (Inl e, disk) \<Rightarrow> (Inl e, disk)
      | (Inr L, disk) \<Rightarrow>
          (case open_each E disk paths of
             (Inl e, disk) \<Rightarrow> (Inl e, disk)
           | (Inr Ls, disk) \<Rightarrow> (Inr (L # Ls), disk)))"

text \<open>An operation of an opened ledger, on its file.\<close>

definition on_file ::
  "(string \<Rightarrow> engine) \<Rightarrow> disk \<Rightarrow> string \<Rightarrow>
     (engine \<Rightarrow> sqlite_ledger \<Rightarrow> (sql_error + 'a) \<times> sqlite_ledger) \<Rightarrow> (sql_error + 'a) \<times> disk" where
  "on_file E disk path f =
     (let db = connect disk path in
      case f (E path) (db_ledger db) of
        (r, L) \<Rightarrow> (r, put_database disk path (db\<lparr>db_ledger := L\<rparr>)))"

fun move_limits ::
  "(string \<Rightarrow> engine) \<Rightarrow> string list \<Rightarrow> disk \<Rightarrow> (string \<times> limit_row) list \<Rightarrow>
     (sql_error + nat) \<times> disk" where
  "move_limits E paths disk [] = (Inr 0, disk)"
| "move_limits E paths disk ((scope, row) # rows) =
     (case on_file E disk (paths ! route (length paths) scope)
             (\<lambda>E L. insert_migrated_limit E L scope row) of
        (Inl e, disk) \<Rightarrow> (Inl e, disk)
      | (Inr _, disk) \<Rightarrow>
          (case move_limits E paths disk rows of (r, disk) \<Rightarrow> (map_sum (\<lambda>e. e) Suc r, disk)))"

fun move_reservations ::
  "(string \<Rightarrow> engine) \<Rightarrow> string list \<Rightarrow> disk \<Rightarrow> (int \<times> reservation_row) list \<Rightarrow>
     (sql_error + nat) \<times> disk" where
  "move_reservations E paths disk [] = (Inr 0, disk)"
| "move_reservations E paths disk ((i, row) # rows) =
     (case on_file E disk (paths ! route (length paths) (rr_scope row))
             (\<lambda>E L. insert_migrated_reservation E L i row) of
        (Inl e, disk) \<Rightarrow> (Inl e, disk)
      | (Inr _, disk) \<Rightarrow>
          (case move_reservations E paths disk rows of (r, disk) \<Rightarrow> (map_sum (\<lambda>e. e) Suc r, disk)))"

text \<open>The last two statements of the migration.\<close>

definition clear_legacy ::
  "(string \<Rightarrow> engine) \<Rightarrow> disk \<Rightarrow> string \<Rightarrow> (sql_error + unit) \<times> disk" where
  "clear_legacy E disk base_path =
     (case on_file E disk base_path
             (\<lambda>E L. autocommit E DeleteLegacyReservations L (L\<lparr>sl_reservations := []\<rparr>) ()) of
        (Inl e, disk) \<Rightarrow> (Inl e, disk)
      | (Inr _, disk) \<Rightarrow>
          on_file E disk base_path
            (\<lambda>E L. autocommit E DeleteLegacyLimits L (L\<lparr>sl_limits := []\<rparr>) ()))"

text \<open>What the legacy file is read as: refused, without ledger tables, or the rows to move.\<close>

definition legacy_rows ::
  "(string \<Rightarrow> engine) \<Rightarrow> disk \<Rightarrow> string \<Rightarrow>
     sql_error + ((string \<times> limit_row) list \<times> (int \<times> reservation_row) list) option" where
  "legacy_rows E disk base_path =
     (let db = connect disk base_path; L = db_ledger db; has_table = (\<lambda>t. t \<in> set (db_tables db));
          run = statement (E base_path) in
      bind_res (run SelectMaster) (\<lambda>_.
      bind_res (if has_table ''budget_settlement_outbox'' then run SelectLegacyOutbox else Inr ()) (\<lambda>_.
      if has_table ''budget_settlement_outbox'' \<and> sl_outbox L \<noteq> [] then Inl ToSqlConversionFailure
      else
        bind_res (if has_table ''budget_execution_intent'' then run SelectLegacyIntents else Inr ()) (\<lambda>_.
        if has_table ''budget_execution_intent'' \<and> sl_intents L \<noteq> [] then Inl ToSqlConversionFailure
        else if \<not> has_table ''budget_reservation'' \<or> \<not> has_table ''budget_limit'' then Inr None
        else
          bind_res (run SelectLegacyLimits) (\<lambda>_.
          bind_res (run SelectLegacyReservations) (\<lambda>_.
          Inr (Some (sl_limits L, sl_reservations L))))))))"

text \<open>The answer \<^const>\<open>None\<close> is the failure of the assertion on the number of rows moved.\<close>

definition migrate_legacy ::
  "(string \<Rightarrow> engine) \<Rightarrow> disk \<Rightarrow> string \<Rightarrow> string list \<Rightarrow> (sql_error + unit) option \<times> disk" where
  "migrate_legacy E disk base_path shard_paths =
     (case legacy_rows E disk base_path of
        Inl e \<Rightarrow> (Some (Inl e), disk)
      | Inr None \<Rightarrow> (Some (Inr ()), disk)
      | Inr (Some (limits, reservations)) \<Rightarrow>
          (case open_each E disk shard_paths of
             (Inl e, disk) \<Rightarrow> (Some (Inl e), disk)
           | (Inr _, disk) \<Rightarrow>
               (case move_limits E shard_paths disk limits of
                  (Inl e, disk) \<Rightarrow> (Some (Inl e), disk)
                | (Inr a, disk) \<Rightarrow>
                    (case move_reservations E shard_paths disk reservations of
                       (Inl e, disk) \<Rightarrow> (Some (Inl e), disk)
                     | (Inr b, disk) \<Rightarrow>
                         if a + b \<noteq> length limits + length reservations then (None, disk)
                         else (case clear_legacy E disk base_path of
                                 (r, disk) \<Rightarrow> (Some r, disk))))))"

definition shard_path :: "string \<Rightarrow> nat \<Rightarrow> string" where
  "shard_path base_path i = base_path @ ''-ledger-shard-'' @ decimal i @ ''.db''"

definition shard_paths :: "string \<Rightarrow> nat \<Rightarrow> string list" where
  "shard_paths base_path shards =
     (if base_path = memory_path then replicate shards memory_path
      else if shards = 1 then [base_path]
      else map (shard_path base_path) [0..<shards])"

definition open_sharded ::
  "(string \<Rightarrow> engine) \<Rightarrow> disk \<Rightarrow> string \<Rightarrow> nat \<Rightarrow> (sql_error + sharded_ledger) option \<times> disk" where
  "open_sharded E disk base_path shards =
     (if shards = 0 then (None, disk)
      else
        let paths = shard_paths base_path shards in
        case (if shards > 1 \<and> disk base_path \<noteq> None then migrate_legacy E disk base_path paths
              else (Some (Inr ()), disk)) of
          (None, disk) \<Rightarrow> (None, disk)
        | (Some (Inl e), disk) \<Rightarrow> (Some (Inl e), disk)
        | (Some (Inr _), disk) \<Rightarrow>
            (case open_each E disk paths of
               (Inl e, disk) \<Rightarrow> (Some (Inl e), disk)
             | (Inr Ls, disk) \<Rightarrow>
                 (Some (Inr \<lparr>sh_shards = map (\<lambda>L. \<lparr>sd_ledger = L, sd_poisoned = False\<rparr>) Ls\<rparr>), disk)))"

section \<open>Paths\<close>

lemma decimal_digit_inj:
  assumes "k < 10" and "m < 10" and "(char_of (48 + k) :: char) = char_of (48 + m :: nat)"
  shows "k = m"
proof -
  have "(48 + k) mod 256 = (48 + m) mod 256"
    using arg_cong [OF assms(3), of "of_char :: char \<Rightarrow> nat"] by simp
  then show ?thesis using assms(1,2) by simp
qed

lemma decimal_inj: "decimal a = decimal b \<Longrightarrow> a = b"
proof (induction a arbitrary: b rule: decimal.induct)
  case (1 a)
  have nonempty: "decimal k \<noteq> []" for k by (subst decimal.simps) simp
  show ?case
  proof (cases "a < 10"; cases "b < 10")
    assume "a < 10" "b < 10"
    with 1(2) show ?thesis by (simp add: decimal.simps decimal_digit_inj)
  next
    assume ab: "\<not> a < 10" "\<not> b < 10"
    from 1(2) have "decimal (a div 10) @ [char_of (48 + a mod 10)] =
        decimal (b div 10) @ [char_of (48 + b mod 10)]"
      by (subst (asm) (1 2) decimal.simps) (simp add: ab)
    then have "decimal (a div 10) = decimal (b div 10)"
      and "(char_of (48 + a mod 10) :: char) = char_of (48 + b mod 10)" by simp_all
    then have "a div 10 = b div 10" and "a mod 10 = b mod 10"
      using 1(1) [OF ab(1)] decimal_digit_inj [of "a mod 10" "b mod 10"] by auto
    then show ?thesis by (metis div_mult_mod_eq)
  next
    assume ab: "a < 10" "\<not> b < 10"
    from 1(2) have "[char_of (48 + a)] = decimal (b div 10) @ [char_of (48 + b mod 10)]"
      by (subst (asm) (1 2) decimal.simps) (simp add: ab)
    then show ?thesis using nonempty [of "b div 10"] by (simp add: Cons_eq_append_conv)
  next
    assume ab: "\<not> a < 10" "b < 10"
    from 1(2) have "decimal (a div 10) @ [char_of (48 + a mod 10)] = [char_of (48 + b)]"
      by (subst (asm) (1 2) decimal.simps) (simp add: ab)
    then show ?thesis using nonempty [of "a div 10"] by (simp add: append_eq_Cons_conv)
  qed
qed

lemma shard_path_simps:
  "shard_path base i = shard_path base j \<longleftrightarrow> i = j"
  "shard_path base i \<noteq> base" "shard_path base i \<noteq> memory_path"
proof -
  show "shard_path base i = shard_path base j \<longleftrightarrow> i = j"
    by (auto simp: shard_path_def dest: decimal_inj)
  show "shard_path base i \<noteq> base" by (simp add: shard_path_def)
  have "last (shard_path base i) = CHR ''b''" by (simp add: shard_path_def)
  moreover have "last memory_path = CHR '':''" by simp
  ultimately show "shard_path base i \<noteq> memory_path" by force
qed

lemma shard_paths_many:
  assumes "base \<noteq> memory_path" and "1 < n"
  shows "shard_paths base n = map (shard_path base) [0..<n]"
    and "distinct (shard_paths base n)" and "base \<notin> set (shard_paths base n)"
    and "memory_path \<notin> set (shard_paths base n)"
  using assms
  by (auto simp: shard_paths_def distinct_map inj_on_def shard_path_simps shard_path_simps(2,3) [symmetric])

section \<open>Moving rows\<close>

abbreviation done_files :: "string \<Rightarrow> engine" where
  "done_files \<equiv> \<lambda>_. all_done"

text \<open>The files of the shards with their ledgers changed, every other file as it was.\<close>

definition files_moved ::
  "string list \<Rightarrow> (nat \<Rightarrow> sqlite_ledger \<Rightarrow> sqlite_ledger) \<Rightarrow> disk \<Rightarrow> disk \<Rightarrow> bool" where
  "files_moved paths f disk disk' \<longleftrightarrow>
     (\<forall>i < length paths. \<exists>db. disk (paths ! i) = Some db \<and>
        disk' (paths ! i) = Some (db\<lparr>db_ledger := f i (db_ledger db)\<rparr>)) \<and>
     (\<forall>p. p \<notin> set paths \<longrightarrow> disk' p = disk p)"

definition on_disk :: "string list \<Rightarrow> disk \<Rightarrow> bool" where
  "on_disk paths disk \<longleftrightarrow>
     distinct paths \<and> memory_path \<notin> set paths \<and> 0 < length paths \<and> length paths < 2 ^ 64 \<and>
     (\<forall>p \<in> set paths. disk p \<noteq> None)"

lemma files_moved_on_disk: "on_disk paths disk \<Longrightarrow> files_moved paths f disk disk' \<Longrightarrow> on_disk paths disk'"
  unfolding on_disk_def files_moved_def by (metis in_set_conv_nth option.distinct(1))

lemma files_moved_trans:
  assumes "files_moved paths f disk disk1" and "files_moved paths g disk1 disk2"
  shows "files_moved paths (\<lambda>i L. g i (f i L)) disk disk2"
  unfolding files_moved_def
proof (intro conjI allI impI)
  fix i assume i: "i < length paths"
  with assms(1) obtain db where db: "disk (paths ! i) = Some db"
      "disk1 (paths ! i) = Some (db\<lparr>db_ledger := f i (db_ledger db)\<rparr>)"
    unfolding files_moved_def by blast
  moreover obtain d where "disk1 (paths ! i) = Some d"
      "disk2 (paths ! i) = Some (d\<lparr>db_ledger := g i (db_ledger d)\<rparr>)"
    using assms(2) i unfolding files_moved_def by blast
  ultimately have "disk2 (paths ! i) = Some (db\<lparr>db_ledger := g i (f i (db_ledger db))\<rparr>)" by simp
  with db(1) show "\<exists>db. disk (paths ! i) = Some db \<and>
      disk2 (paths ! i) = Some (db\<lparr>db_ledger := g i (f i (db_ledger db))\<rparr>)" by blast
qed (use assms in \<open>simp add: files_moved_def\<close>)

lemma files_moved_cong:
  "files_moved paths f disk disk' \<Longrightarrow> (\<And>i L. f i L = g i L) \<Longrightarrow> files_moved paths g disk disk'"
  by (simp add: files_moved_def)

lemma on_file_moved:
  assumes "on_disk paths disk" and "k < length paths"
    and "\<And>L. f all_done L = (Inr v, g L)"
  shows "\<exists>disk'. on_file done_files disk (paths ! k) f = (Inr v, disk') \<and>
    files_moved paths (\<lambda>i L. if i = k then g L else L) disk disk'"
proof -
  from assms(1,2) obtain db where db: "disk (paths ! k) = Some db" "paths ! k \<noteq> memory_path"
    unfolding on_disk_def by (metis not_None_eq nth_mem)
  have "files_moved paths (\<lambda>i L. if i = k then g L else L) disk
      (disk(paths ! k \<mapsto> db\<lparr>db_ledger := g (db_ledger db)\<rparr>))"
    unfolding files_moved_def
  proof (intro conjI allI impI)
    fix i assume i: "i < length paths"
    then obtain db' where "disk (paths ! i) = Some db'"
      using assms(1) unfolding on_disk_def by (metis not_None_eq nth_mem)
    then show "\<exists>d. disk (paths ! i) = Some d \<and>
        (disk(paths ! k \<mapsto> db\<lparr>db_ledger := g (db_ledger db)\<rparr>)) (paths ! i) =
          Some (d\<lparr>db_ledger := if i = k then g (db_ledger d) else db_ledger d\<rparr>)"
      using db i assms(1,2) by (auto simp: on_disk_def nth_eq_iff_index_eq)
  qed (use assms(2) in auto)
  then show ?thesis
    using db by (simp add: on_file_def connect_def put_database_def assms(3))
qed

lemma move_limits_done:
  assumes "on_disk paths disk"
  shows "\<exists>disk'. move_limits done_files paths disk rows = (Inr (length rows), disk') \<and>
    files_moved paths (\<lambda>i L. L\<lparr>sl_limits :=
      fold (\<lambda>(s, row). AList.update s row) (filter (\<lambda>(s, _). route (length paths) s = i) rows) (sl_limits L)\<rparr>)
      disk disk'"
  using assms
proof (induction rows arbitrary: disk)
  case Nil
  then show ?case
    by (auto simp: files_moved_def on_disk_def)
next
  case (Cons p rows)
  obtain s row where p: "p = (s, row)" by (cases p)
  have r: "route (length paths) s < length paths"
    using Cons.prems by (intro route_less) (simp_all add: on_disk_def)
  obtain disk1 where d1: "on_file done_files disk (paths ! route (length paths) s)
        (\<lambda>E L. insert_migrated_limit E L s row) = (Inr (), disk1)"
      "files_moved paths (\<lambda>i L. if i = route (length paths) s
         then L\<lparr>sl_limits := AList.update s row (sl_limits L)\<rparr> else L) disk disk1"
    using on_file_moved [OF Cons.prems r, of "\<lambda>E L. insert_migrated_limit E L s row" "()"
        "\<lambda>L. L\<lparr>sl_limits := AList.update s row (sl_limits L)\<rparr>"]
    by (auto simp: insert_migrated_limit_def)
  obtain disk2 where d2: "move_limits done_files paths disk1 rows = (Inr (length rows), disk2)"
      "files_moved paths (\<lambda>i L. L\<lparr>sl_limits :=
        fold (\<lambda>(s, row). AList.update s row) (filter (\<lambda>(s, _). route (length paths) s = i) rows)
          (sl_limits L)\<rparr>) disk1 disk2"
    using Cons.IH [OF files_moved_on_disk [OF Cons.prems d1(2)]] by blast
  have "files_moved paths (\<lambda>i L. L\<lparr>sl_limits :=
      fold (\<lambda>(s, row). AList.update s row) (filter (\<lambda>(s, _). route (length paths) s = i) (p # rows))
        (sl_limits L)\<rparr>) disk disk2"
    by (rule files_moved_cong [OF files_moved_trans [OF d1(2) d2(2)]]) (simp add: p)
  with d1(1) d2(1) show ?case by (auto simp: p)
qed

lemma move_reservations_done:
  assumes "on_disk paths disk"
  shows "\<exists>disk'. move_reservations done_files paths disk rows = (Inr (length rows), disk') \<and>
    files_moved paths (\<lambda>i L. L\<lparr>sl_reservations :=
        fold (\<lambda>(j, r). AList.update j r)
          (filter (\<lambda>(_, r). route (length paths) (rr_scope r) = i) rows) (sl_reservations L),
      sl_sequence :=
        fold max (map fst (filter (\<lambda>(_, r). route (length paths) (rr_scope r) = i) rows)) (sl_sequence L)\<rparr>)
      disk disk'"
  using assms
proof (induction rows arbitrary: disk)
  case Nil
  then show ?case by (auto simp: files_moved_def on_disk_def)
next
  case (Cons p rows)
  obtain j r where p: "p = (j, r)" by (cases p)
  let ?k = "route (length paths) (rr_scope r)"
  have k: "?k < length paths"
    using Cons.prems by (intro route_less) (simp_all add: on_disk_def)
  obtain disk1 where d1: "on_file done_files disk (paths ! ?k)
        (\<lambda>E L. insert_migrated_reservation E L j r) = (Inr (), disk1)"
      "files_moved paths (\<lambda>i L. if i = ?k
         then L\<lparr>sl_reservations := AList.update j r (sl_reservations L),
                sl_sequence := max (sl_sequence L) j\<rparr> else L) disk disk1"
    using on_file_moved [OF Cons.prems k, of "\<lambda>E L. insert_migrated_reservation E L j r" "()"
        "\<lambda>L. L\<lparr>sl_reservations := AList.update j r (sl_reservations L),
               sl_sequence := max (sl_sequence L) j\<rparr>"]
    by (auto simp: insert_migrated_reservation_def)
  obtain disk2 where d2: "move_reservations done_files paths disk1 rows = (Inr (length rows), disk2)"
      "files_moved paths (\<lambda>i L. L\<lparr>sl_reservations :=
        fold (\<lambda>(j, r). AList.update j r)
          (filter (\<lambda>(_, r). route (length paths) (rr_scope r) = i) rows) (sl_reservations L),
      sl_sequence :=
        fold max (map fst (filter (\<lambda>(_, r). route (length paths) (rr_scope r) = i) rows)) (sl_sequence L)\<rparr>)
      disk1 disk2"
    using Cons.IH [OF files_moved_on_disk [OF Cons.prems d1(2)]] by blast
  have "files_moved paths (\<lambda>i L. L\<lparr>sl_reservations :=
        fold (\<lambda>(j, r). AList.update j r)
          (filter (\<lambda>(_, r). route (length paths) (rr_scope r) = i) (p # rows)) (sl_reservations L),
      sl_sequence :=
        fold max (map fst (filter (\<lambda>(_, r). route (length paths) (rr_scope r) = i) (p # rows))) (sl_sequence L)\<rparr>)
      disk disk2"
    by (rule files_moved_cong [OF files_moved_trans [OF d1(2) d2(2)]]) (simp add: p max.commute)
  with d1(1) d2(1) show ?case by (auto simp: p)
qed

lemma fold_update_append:
  "distinct (map fst (xs @ ys)) \<Longrightarrow> fold (\<lambda>(k, v). AList.update k v) ys xs = xs @ ys"
proof (induction ys arbitrary: xs)
  case (Cons p ys)
  obtain k v where p: "p = (k, v)" by (cases p)
  with Cons.prems have "map_of xs k = None" by (force simp: map_of_eq_None_iff)
  with Cons.IH [of "xs @ [(k, v)]"] Cons.prems p show ?case by (simp add: alist_update_fresh)
qed simp

text \<open>Opening the shards creates the files that are missing.\<close>

definition opened :: "disk \<Rightarrow> string \<Rightarrow> database" where
  "opened disk path =
     (let db = connect disk path in db\<lparr>db_tables := remdups (db_tables db @ ledger_tables)\<rparr>)"

lemma open_each_done:
  assumes "distinct paths" and "memory_path \<notin> set paths"
  shows "open_each done_files disk paths =
    (Inr (map (\<lambda>p. db_ledger (connect disk p)) paths),
     \<lambda>p. if p \<in> set paths then Some (opened disk p) else disk p)"
  using assms
proof (induction paths arbitrary: disk)
  case Nil
  then show ?case by simp
next
  case (Cons path paths)
  let ?d = "disk(path \<mapsto> opened disk path)"
  have "open_ledger done_files disk path = (Inr (db_ledger (connect disk path)), ?d)"
    using Cons.prems by (auto simp: open_ledger_def put_database_def opened_def Let_def)
  moreover have same: "connect ?d p = connect disk p" "opened ?d p = opened disk p"
    if "p \<in> set paths" for p
    using that Cons.prems by (auto simp: connect_def opened_def)
  moreover have "(\<lambda>p. if p \<in> set paths then Some (opened ?d p) else ?d p) =
      (\<lambda>p. if p \<in> set (path # paths) then Some (opened disk p) else disk p)"
    using same(2) Cons.prems by (auto simp: fun_eq_iff)
  ultimately show ?case using Cons by (simp cong: map_cong)
qed

text \<open>The ledger of a shard after a migration into new files.\<close>

definition moved_ledger :: "string \<Rightarrow> nat \<Rightarrow> sqlite_ledger \<Rightarrow> nat \<Rightarrow> sqlite_ledger" where
  "moved_ledger base n L i = (sqlite_open (Some (shard_path base i)))
     \<lparr>sl_limits := filter (\<lambda>(s, _). route n s = i) (sl_limits L),
      sl_reservations := filter (\<lambda>(_, r). route n (rr_scope r) = i) (sl_reservations L),
      sl_sequence :=
        fold max (map fst (filter (\<lambda>(_, r). route n (rr_scope r) = i) (sl_reservations L))) 0\<rparr>"

definition migratable :: "disk \<Rightarrow> string \<Rightarrow> nat \<Rightarrow> database \<Rightarrow> bool" where
  "migratable disk base n db \<longleftrightarrow>
     base \<noteq> memory_path \<and> 1 < n \<and> n < 2 ^ 64 \<and> disk base = Some db \<and>
     set ledger_tables \<subseteq> set (db_tables db) \<and> sl_outbox (db_ledger db) = [] \<and>
     sl_intents (db_ledger db) = [] \<and> distinct (map fst (sl_limits (db_ledger db))) \<and>
     distinct (map fst (sl_reservations (db_ledger db))) \<and>
     (\<forall>i < n. disk (shard_path base i) = None)"

lemma clear_legacy_done:
  assumes "base \<noteq> memory_path" and "disk base = Some db"
  shows "clear_legacy done_files disk base = (Inr (), disk(base \<mapsto>
    db\<lparr>db_ledger := (db_ledger db)\<lparr>sl_reservations := [], sl_limits := []\<rparr>\<rparr>))"
  using assms by (simp add: clear_legacy_def on_file_def connect_def put_database_def)

lemma legacy_rows_done:
  assumes "disk base = Some db" and "base \<noteq> memory_path" and "set ledger_tables \<subseteq> set (db_tables db)"
    and "sl_outbox (db_ledger db) = []" and "sl_intents (db_ledger db) = []"
  shows "legacy_rows done_files disk base =
    Inr (Some (sl_limits (db_ledger db), sl_reservations (db_ledger db)))"
  using assms by (simp add: legacy_rows_def connect_def ledger_tables_def Let_def)

lemma remdups_tables: "remdups (ledger_tables @ ledger_tables) = ledger_tables"
  "remdups ledger_tables = ledger_tables"
  by (simp_all add: ledger_tables_def)

lemma migrate_legacy_done:
  assumes m: "migratable disk base n db"
  shows "\<exists>disk'. migrate_legacy done_files disk base (shard_paths base n) = (Some (Inr ()), disk') \<and>
    (\<forall>i < n. disk' (shard_path base i) =
       Some \<lparr>db_tables = ledger_tables, db_ledger = moved_ledger base n (db_ledger db) i\<rparr>) \<and>
    disk' base = Some (db\<lparr>db_ledger := (db_ledger db)\<lparr>sl_reservations := [], sl_limits := []\<rparr>\<rparr>)"
proof -
  let ?ps = "shard_paths base n" and ?L = "db_ledger db"
  note mm = m [unfolded migratable_def]
  have ps: "?ps = map (shard_path base) [0..<n]" "distinct ?ps" "base \<notin> set ?ps" "memory_path \<notin> set ?ps"
    using mm shard_paths_many [of base n] by blast+
  then have len: "length ?ps = n" and nth: "i < n \<Longrightarrow> ?ps ! i = shard_path base i" for i by simp_all
  define disk1 where "disk1 = (\<lambda>p. if p \<in> set ?ps then Some (opened disk p) else disk p)"
  have open1: "open_each done_files disk ?ps =
      (Inr (map (\<lambda>p. db_ledger (connect disk p)) ?ps), disk1)"
    unfolding disk1_def by (rule open_each_done [OF ps(2,4)])
  have fresh: "disk1 (shard_path base i) =
      Some \<lparr>db_tables = ledger_tables, db_ledger = sqlite_open (Some (shard_path base i))\<rparr>"
    if "i < n" for i
    using that ps(1) mm
    by (simp add: disk1_def opened_def connect_def empty_database_def shard_path_simps remdups_tables)
  have on1: "on_disk ?ps disk1"
    using ps len mm by (auto simp: on_disk_def disk1_def)
  obtain disk2 where d2: "move_limits done_files ?ps disk1 (sl_limits ?L) =
      (Inr (length (sl_limits ?L)), disk2)"
      "files_moved ?ps (\<lambda>i L. L\<lparr>sl_limits := fold (\<lambda>(s, row). AList.update s row)
         (filter (\<lambda>(s, _). route n s = i) (sl_limits ?L)) (sl_limits L)\<rparr>) disk1 disk2"
    using move_limits_done [OF on1, of "sl_limits ?L"] unfolding len by blast
  obtain disk3 where d3: "move_reservations done_files ?ps disk2 (sl_reservations ?L) =
      (Inr (length (sl_reservations ?L)), disk3)"
      "files_moved ?ps (\<lambda>i L. L\<lparr>sl_reservations := fold (\<lambda>(j, r). AList.update j r)
          (filter (\<lambda>(_, r). route n (rr_scope r) = i) (sl_reservations ?L)) (sl_reservations L),
        sl_sequence := fold max (map fst
          (filter (\<lambda>(_, r). route n (rr_scope r) = i) (sl_reservations ?L))) (sl_sequence L)\<rparr>) disk2 disk3"
    using move_reservations_done [OF files_moved_on_disk [OF on1 d2(2)], of "sl_reservations ?L"]
    unfolding len by blast
  have base: "disk3 base = Some db"
    using d2(2) d3(2) ps(3) mm by (auto simp: files_moved_def disk1_def)
  have "disk3 (shard_path base i) =
      Some \<lparr>db_tables = ledger_tables, db_ledger = moved_ledger base n ?L i\<rparr>" if i: "i < n" for i
  proof -
    have "filter (\<lambda>(s, _). route n s = i) (sl_limits ?L) =
        fold (\<lambda>(s, row). AList.update s row) (filter (\<lambda>(s, _). route n s = i) (sl_limits ?L)) []"
      "filter (\<lambda>(_, r). route n (rr_scope r) = i) (sl_reservations ?L) =
        fold (\<lambda>(j, r). AList.update j r)
          (filter (\<lambda>(_, r). route n (rr_scope r) = i) (sl_reservations ?L)) []"
      using mm by (subst fold_update_append; simp add: distinct_fst_filter)+
    with files_moved_trans [OF d2(2) d3(2)] fresh [OF i] i show ?thesis
      unfolding files_moved_def len by (auto simp: nth moved_ledger_def sqlite_open_def)
  qed
  moreover have "migrate_legacy done_files disk base ?ps =
      (Some (Inr ()), disk3(base \<mapsto> db\<lparr>db_ledger := ?L\<lparr>sl_reservations := [], sl_limits := []\<rparr>\<rparr>))"
    using mm clear_legacy_done [of base disk3 db] legacy_rows_done [of disk base db] base
    by (simp add: migrate_legacy_def open1 d2(1) d3(1))
  ultimately show ?thesis by (auto simp: shard_path_simps)
qed

lemma open_sharded_moved:
  assumes m: "migratable disk base n db"
  shows "\<exists>disk'. open_sharded done_files disk base n =
      (Some (Inr \<lparr>sh_shards =
         map (\<lambda>i. \<lparr>sd_ledger = moved_ledger base n (db_ledger db) i, sd_poisoned = False\<rparr>) [0..<n]\<rparr>), disk') \<and>
    disk' base = Some (db\<lparr>db_ledger := (db_ledger db)\<lparr>sl_reservations := [], sl_limits := []\<rparr>\<rparr>) \<and>
    (\<forall>i < n. disk' (shard_path base i) =
       Some \<lparr>db_tables = ledger_tables, db_ledger = moved_ledger base n (db_ledger db) i\<rparr>)"
proof -
  let ?ps = "shard_paths base n"
  note mm = m [unfolded migratable_def]
  have ps: "?ps = map (shard_path base) [0..<n]" "distinct ?ps" "base \<notin> set ?ps" "memory_path \<notin> set ?ps"
    using mm shard_paths_many [of base n] by blast+
  obtain disk1 where d1: "migrate_legacy done_files disk base ?ps = (Some (Inr ()), disk1)"
      "\<And>i. i < n \<Longrightarrow> disk1 (shard_path base i) =
         Some \<lparr>db_tables = ledger_tables, db_ledger = moved_ledger base n (db_ledger db) i\<rparr>"
      "disk1 base = Some (db\<lparr>db_ledger := (db_ledger db)\<lparr>sl_reservations := [], sl_limits := []\<rparr>\<rparr>)"
    using migrate_legacy_done [OF m] by blast
  have c: "connect disk1 (shard_path base i) =
      \<lparr>db_tables = ledger_tables, db_ledger = moved_ledger base n (db_ledger db) i\<rparr>" if "i < n" for i
    using d1(2) [OF that] by (simp add: connect_def shard_path_simps)
  have "(\<lambda>p. if p \<in> set ?ps then Some (opened disk1 p) else disk1 p) = disk1"
    using c d1(2) ps(1) by (auto simp: fun_eq_iff opened_def remdups_tables)
  then have "open_each done_files disk1 ?ps =
      (Inr (map (moved_ledger base n (db_ledger db)) [0..<n]), disk1)"
    using open_each_done [OF ps(2,4), of disk1] c by (simp add: ps(1))
  then show ?thesis
    using mm d1 by (auto simp: open_sharded_def o_def)
qed

text \<open>A file whose rows have moved is opened as it was left.\<close>

lemma open_sharded_again:
  assumes b: "base \<noteq> memory_path" "1 < n" "n < 2 ^ 64"
    and legacy: "disk base = Some db" "set ledger_tables \<subseteq> set (db_tables db)"
      "sl_outbox (db_ledger db) = []" "sl_intents (db_ledger db) = []"
      "sl_limits (db_ledger db) = []" "sl_reservations (db_ledger db) = []"
    and shards: "\<And>i. i < n \<Longrightarrow> disk (shard_path base i) =
         Some \<lparr>db_tables = ledger_tables, db_ledger = Ls i\<rparr>"
  shows "open_sharded done_files disk base n =
    (Some (Inr \<lparr>sh_shards = map (\<lambda>i. \<lparr>sd_ledger = Ls i, sd_poisoned = False\<rparr>) [0..<n]\<rparr>), disk)"
proof -
  let ?ps = "shard_paths base n"
  have ps: "?ps = map (shard_path base) [0..<n]" "distinct ?ps" "base \<notin> set ?ps" "memory_path \<notin> set ?ps"
    using b shard_paths_many [of base n] by blast+
  have c: "connect disk (shard_path base i) = \<lparr>db_tables = ledger_tables, db_ledger = Ls i\<rparr>"
    if "i < n" for i
    using shards [OF that] by (simp add: connect_def shard_path_simps)
  have "(\<lambda>p. if p \<in> set ?ps then Some (opened disk p) else disk p) = disk"
    using c shards ps(1) by (auto simp: fun_eq_iff opened_def remdups_tables)
  then have opn: "open_each done_files disk ?ps = (Inr (map Ls [0..<n]), disk)"
    using open_each_done [OF ps(2,4), of disk] c by (simp add: ps(1))
  have clear: "disk(base \<mapsto> db\<lparr>db_ledger := (db_ledger db)\<lparr>sl_reservations := [], sl_limits := []\<rparr>\<rparr>) = disk"
    using legacy by (intro ext) simp
  have "migrate_legacy done_files disk base ?ps = (Some (Inr ()), disk)"
    using legacy_rows_done [of disk base db] clear_legacy_done [of base disk db] b(1) legacy clear
    by (simp add: migrate_legacy_def opn)
  with opn b legacy(1) show ?thesis by (simp add: open_sharded_def o_def)
qed

section \<open>Properties\<close>

lemma sum_filter_route:
  "(\<And>p. p \<in> set xs \<Longrightarrow> Q p \<Longrightarrow> P p) \<Longrightarrow> filter Q (filter P xs) = filter Q xs"
  by (induction xs) auto

lemma map_of_filter_key:
  "map_of (filter (\<lambda>(k, _). P k) xs) s = (if P s then map_of xs s else None)"
  by (induction xs) auto

lemma moved_ledger_scope:
  fixes L base n s
  defines "L' \<equiv> moved_ledger base n L (route n s)"
  shows "map_of (sl_limits L') s = map_of (sl_limits L) s"
    and "settled_total L' s t = settled_total L s t" and "held_total L' s = held_total L s"
proof -
  show "map_of (sl_limits L') s = map_of (sl_limits L) s"
    by (simp add: L'_def moved_ledger_def map_of_filter_key)
  have rows: "sl_reservations L' = filter (\<lambda>(_, r). route n (rr_scope r) = route n s) (sl_reservations L)"
    by (simp add: L'_def moved_ledger_def)
  have "filter (\<lambda>(_, r). rr_scope r = s \<and> Q r) (sl_reservations L') =
      filter (\<lambda>(_, r). rr_scope r = s \<and> Q r) (sl_reservations L)" for Q
    unfolding rows by (rule sum_filter_route) auto
  then show "settled_total L' s t = settled_total L s t" and "held_total L' s = held_total L s"
    by (simp_all add: settled_total_def held_total_def settled_actuals_def held_ceilings_def)
qed


text \<open>
  C19: a legacy file that holds settlement receipts or execution intents is not widened. Whatever
  the engine does, opening it with several shards reports an error before any shard is created or
  any row removed.
\<close>

theorem migration_refuses_evidence:
  assumes "1 < n" and "base \<noteq> memory_path" and "disk base = Some db"
    and "set ledger_tables \<subseteq> set (db_tables db)"
    and "sl_outbox (db_ledger db) \<noteq> [] \<or> sl_intents (db_ledger db) \<noteq> []"
  shows "\<exists>e. open_sharded E disk base n = (Some (Inl e), disk)"
proof -
  have "\<exists>e. legacy_rows E disk base = Inl e"
    using assms
    by (auto simp: legacy_rows_def connect_def ledger_tables_def Let_def bind_res_def split: sum.split)
  then show ?thesis using assms by (auto simp: open_sharded_def migrate_legacy_def)
qed

section \<open>Witnesses\<close>

definition ex_legacy :: database where
  "ex_legacy = \<lparr>db_tables = ledger_tables, db_ledger = ex_db\<lparr>sl_sequence := 2, sl_reservations :=
     [(1, \<lparr>rr_scope = ''team'', rr_ceiling = 60, rr_actual = 70, rr_settled = 1,
           rr_settled_at = Some 5, rr_expires_at = 900\<rparr>),
      (2, \<lparr>rr_scope = ''other'', rr_ceiling = 9, rr_actual = 0, rr_settled = 0,
           rr_settled_at = None, rr_expires_at = 900\<rparr>)]\<rparr>\<rparr>"


theorem migration_refuses_evidence_witness:
  "\<exists>e. open_sharded done_files
     [''ledger.db'' \<mapsto> ex_legacy\<lparr>db_ledger := ex_at 0 None\<rparr>] ''ledger.db'' 2 =
     (Some (Inl e), [''ledger.db'' \<mapsto> ex_legacy\<lparr>db_ledger := ex_at 0 None\<rparr>])"
  by (rule migration_refuses_evidence [where db = "ex_legacy\<lparr>db_ledger := ex_at 0 None\<rparr>"])
    (simp_all add: ex_legacy_def ex_at_def)

end
