(* ===== verification/Proxy_Ledger.thy ===== *)
theory Proxy_Ledger
  imports Migration Core_Ledger
begin

text \<open>
  \<^verbatim>\<open>crates/sandhi-proxy/src/ledger.rs\<close>: the ledger of the proxy, in memory or durable, and
  what an admission does when the durable store fails: a blocking budget refuses, a warning budget
  admits without a lease. The answer \<^const>\<open>None\<close> is the panic of a poisoned shard; log lines
  are not modelled.
\<close>

section \<open>Operations\<close>

definition RESERVATION_TTL_SECS :: int where
  "RESERVATION_TTL_SECS = 900"

datatype admission = Leased reservation | Unmetered | AdmissionDenied

datatype proxy_ledger = Memory in_memory_ledger | Durable sharded_ledger

definition pl_in_memory :: proxy_ledger where
  "pl_in_memory = Memory mem_new"

definition pl_durable ::
  "(string \<Rightarrow> engine) \<Rightarrow> disk \<Rightarrow> string \<Rightarrow> nat \<Rightarrow> (sql_error + proxy_ledger) option \<times> disk" where
  "pl_durable E disk path shards =
     map_prod (map_option (map_sum (\<lambda>e. e) Durable)) (\<lambda>d. d) (open_sharded E disk path shards)"

definition lease_ttl :: duration where
  "lease_ttl = RESERVATION_TTL_SECS * 1000000000"

definition is_volatile :: "proxy_ledger \<Rightarrow> bool" where
  "is_volatile P = (case P of Memory _ \<Rightarrow> True | Durable _ \<Rightarrow> False)"

definition pl_seen ::
  "world \<Rightarrow> proxy_ledger \<Rightarrow> string \<Rightarrow> string \<Rightarrow> (u64 \<times> u64) option option \<times> proxy_ledger" where
  "pl_seen w P vkey idem_key =
     (case P of
        Memory _ \<Rightarrow> (Some None, P)
      | Durable S \<Rightarrow>
          map_prod (map_option (case_sum (\<lambda>_. None) (\<lambda>v. v))) Durable
            (sh_seen_durable (wo_engine w) S vkey idem_key (wo_utc w)))"

definition pl_record ::
  "world \<Rightarrow> proxy_ledger \<Rightarrow> string \<Rightarrow> string \<Rightarrow> u64 \<Rightarrow> u64 \<Rightarrow> unit option \<times> proxy_ledger" where
  "pl_record w P vkey idem_key reservation actual =
     (case P of
        Memory _ \<Rightarrow> (Some (), P)
      | Durable S \<Rightarrow>
          map_prod (map_option (\<lambda>_. ())) Durable
            (sh_record_durable (wo_engine w) S vkey idem_key reservation actual (wo_utc w) lease_ttl))"

definition set_budget ::
  "world \<Rightarrow> proxy_ledger \<Rightarrow> string \<Rightarrow> u64 option \<Rightarrow> window \<Rightarrow> policy \<Rightarrow>
     (sql_error + unit) option \<times> proxy_ledger" where
  "set_budget w P scope limit window policy =
     (case P of
        Memory L \<Rightarrow>
          let enforced = (case policy of Block \<Rightarrow> limit | Warn \<Rightarrow> None) in
          (Some (Inr ()), Memory (mem_set_limit L scope enforced))
      | Durable S \<Rightarrow>
          map_prod (\<lambda>r. r) Durable
            (sh_set_limit_durable (wo_engine w) S scope limit window policy))"

definition pl_reserve ::
  "calendar \<Rightarrow> world \<Rightarrow> proxy_ledger \<Rightarrow> string \<Rightarrow> u64 \<Rightarrow> instant \<Rightarrow> policy \<Rightarrow>
     admission option \<times> proxy_ledger" where
  "pl_reserve K w P scope ceil now policy =
     (case P of
        Memory L \<Rightarrow>
          (case mem_reserve L scope ceil now lease_ttl of
             (Inr r, L) \<Rightarrow> (Some (Leased r), Memory L)
           | (Inl _, L) \<Rightarrow> (Some AdmissionDenied, Memory L))
      | Durable S \<Rightarrow>
          (case sh_reserve_durable K (wo_engine w) S scope ceil now lease_ttl of
             (r, S) \<Rightarrow>
               (map_option (\<lambda>r. case r of
                    Inr (Admitted r) \<Rightarrow> Leased r
                  | Inr (Denied _) \<Rightarrow> AdmissionDenied
                  | Inl _ \<Rightarrow> (case policy of Warn \<Rightarrow> Unmetered | Block \<Rightarrow> AdmissionDenied)) r,
                Durable S)))"

definition pl_settle ::
  "world \<Rightarrow> proxy_ledger \<Rightarrow> reservation \<Rightarrow> u64 \<Rightarrow> unit option \<times> proxy_ledger" where
  "pl_settle w P reservation actual =
     (case P of
        Memory L \<Rightarrow> (Some (), Memory (mem_settle L (r_id reservation) actual))
      | Durable S \<Rightarrow>
          map_prod (map_option (\<lambda>_. ())) Durable
            (sh_settle_durable (wo_engine w) (wo_sql_clock w) S (r_scope reservation) (r_id reservation)
               actual))"

definition pl_limit :: "world \<Rightarrow> proxy_ledger \<Rightarrow> string \<Rightarrow> u64 option option" where
  "pl_limit w P scope =
     (case P of
        Memory L \<Rightarrow> Some (mem_limit L scope)
      | Durable S \<Rightarrow>
          map_option (case_sum (\<lambda>_. None) (\<lambda>v. v)) (sh_limit_durable (wo_engine w) S scope))"

definition try_spent :: "calendar \<Rightarrow> world \<Rightarrow> proxy_ledger \<Rightarrow> string \<Rightarrow> (sql_error + u64) option" where
  "try_spent K w P scope =
     (case P of
        Memory L \<Rightarrow> Some (Inr (mem_spent L scope))
      | Durable S \<Rightarrow> sh_spent_durable K (wo_engine w) (wo_utc w) S scope)"

definition pl_spent :: "calendar \<Rightarrow> world \<Rightarrow> proxy_ledger \<Rightarrow> string \<Rightarrow> u64 option" where
  "pl_spent K w P scope = map_option (case_sum (\<lambda>_. 0) (\<lambda>v. v)) (try_spent K w P scope)"

definition pl_reserved :: "world \<Rightarrow> proxy_ledger \<Rightarrow> string \<Rightarrow> u64 option" where
  "pl_reserved w P scope =
     (case P of
        Memory L \<Rightarrow> Some (mem_reserved L scope)
      | Durable S \<Rightarrow>
          map_option (case_sum (\<lambda>_. 0) (\<lambda>v. v)) (sh_reserved_durable (wo_engine w) S scope))"

definition budgets :: "(nat \<Rightarrow> engine) \<Rightarrow> proxy_ledger \<Rightarrow> budget_row list option" where
  "budgets E P =
     (case P of
        Memory _ \<Rightarrow> Some []
      | Durable S \<Rightarrow> map_option (case_sum (\<lambda>_. []) (\<lambda>v. v)) (sh_list_budgets_durable E S))"

definition pl_reclaim_expired ::
  "(nat \<Rightarrow> engine) \<Rightarrow> proxy_ledger \<Rightarrow> instant \<Rightarrow> nat option \<times> proxy_ledger" where
  "pl_reclaim_expired E P now =
     (case P of
        Memory L \<Rightarrow> map_prod Some Memory (mem_reclaim_expired L now)
      | Durable S \<Rightarrow>
          map_prod (map_option (case_sum (\<lambda>_. 0) (\<lambda>n. n))) Durable
            (sh_reclaim_expired_durable E S now))"

text \<open>The timer's sweep; a poisoned mutex reads as nothing reclaimed.\<close>

definition reclaim_sweep_at ::
  "(nat \<Rightarrow> engine) \<Rightarrow> bool \<Rightarrow> proxy_ledger \<Rightarrow> instant \<Rightarrow> nat option \<times> proxy_ledger" where
  "reclaim_sweep_at E mutex_poisoned P now =
     (if mutex_poisoned then (Some 0, P) else pl_reclaim_expired E P now)"

section \<open>Properties\<close>

text \<open>A ledger that can be called: no shard is poisoned.\<close>

definition proxy_ok :: "proxy_ledger \<Rightarrow> bool" where
  "proxy_ok P \<longleftrightarrow>
     (case P of Memory _ \<Rightarrow> True | Durable S \<Rightarrow> shards_ok S \<and> length (sh_shards S) < 2 ^ 64)"

lemma route_shard: "shards_ok S \<Longrightarrow> length (sh_shards S) < 2 ^ 64 \<Longrightarrow> shard_for S s < length (sh_shards S)"
  unfolding shard_for_def by (intro route_less) (auto simp: shards_ok_def)

lemma with_shard_eq:
  assumes "shards_ok S" and "length (sh_shards S) < 2 ^ 64"
  shows "with_shard S s f = (Some (fst (f (shard_at S (shard_for S s)))),
    put_shard S (shard_for S s) (snd (f (shard_at S (shard_for S s)))))"
  using assms route_shard [OF assms, of s]
  by (auto simp: with_shard_def shards_ok_def shard_at_def Let_def split: prod.split)

lemma put_shard_simps:
  assumes "shards_ok S" and "length (sh_shards S) < 2 ^ 64"
  shows "shards_ok (put_shard S (shard_for S s) L)"
    and "length (sh_shards (put_shard S i L)) = length (sh_shards S)"
    and "shard_for (put_shard S i L) t = shard_for S t"
    and "shard_at (put_shard S (shard_for S s) L) (shard_for S s) = L"
  using assms route_shard [OF assms, of s]
  by (auto simp: shards_ok_def put_shard_def shard_for_def shard_at_def
      dest!: set_update_subset_insert [THEN subsetD])

text \<open>What a scope has settled in its window and holds, in either arm.\<close>

definition committed_tokens ::
  "calendar \<Rightarrow> proxy_ledger \<Rightarrow> string \<Rightarrow> window \<Rightarrow> instant \<Rightarrow> int" where
  "committed_tokens K P s win now =
     (case P of
        Memory L \<Rightarrow> int (unat (mem_spent L s)) + int (unat (mem_reserved L s))
      | Durable S \<Rightarrow>
          (let L = shard_at S (shard_for S s) in
           settled_total L s (window_start_ts K now win) + held_total L s))"

lemma parse_as_str: "window_parse (window_as_str win) = win" "policy_parse (policy_as_str p) = p"
  by (cases win; simp add: window_parse_def ascii_lower_def ascii_lower_char_def)
    (cases p; simp add: policy_parse_def ascii_lower_def ascii_lower_char_def)

lemma set_limit_durable_row:
  assumes "set_limit_durable E L s (Some l) win p = (Inr (), L')"
  shows "map_of (sl_limits L') s = Some \<lparr>lr_limit_tokens = Some (int (unat l)),
      lr_window = window_as_str win, lr_policy = policy_as_str p\<rparr>"
  using assms
  by (auto simp: set_limit_durable_def i64_try_from_def sint_small update_conv' dest!: autocommit_Inr
      split: sum.split_asm if_split_asm)

lemma warn_cap_breach:
  "map_of (sl_limits L) s = Some row \<Longrightarrow> policy_parse (lr_policy row) = Warn \<Longrightarrow>
     cap_breach K E L s c now \<noteq> Inr (Some d)"
  by (auto simp: cap_breach_def bind_res_Inr split: option.splits)

lemma pl_reserve_memory:
  assumes "mem_limit L s = Some l" and "l \<noteq> - 1"
    and "mem_reserve L s c now ttl = (Inr r, L')"
  shows "int (unat (mem_spent L' s)) + int (unat (mem_reserved L' s)) \<le> int (unat l)"
proof -
  have "unat l \<noteq> 2 ^ LENGTH(64) - 1" using assms(2) unat_max_word [where 'a = 64] by (metis word_unat_eq_iff)
  then have sum: "unat (mem_spent L s) + unat (mem_reserved L s) + unat c \<le> unat l"
    using mem_reserve_admitted(3) [OF assms(3,1)] by (simp add: sat_add_le_iff)
  then have "unat (mem_reserved L s + c) = unat (mem_reserved L s) + unat c"
    using unat_lt_pow [of l] by (intro unat_add_exact) simp
  moreover have "mem_spent L' s = mem_spent L s" "mem_reserved L' s = mem_reserved L s + c"
    using mem_reserve_admitted(1,2) [OF assms(3)]
    by (simp_all add: admit_def mem_spent_def mem_reserved_def)
  ultimately have "unat (mem_spent L' s) + unat (mem_reserved L' s) \<le> unat l" using sum by simp
  then show ?thesis by (simp only: of_nat_add [symmetric] of_nat_le_iff)
qed

text \<open>
  C10: the policy of a budget decides what its admissions do. Once a budget is set, an admission
  against it always returns. Under the policy Warn it is never refused, whatever the database
  does. Under Block it is never let through without a lease, and a lease is given only where the
  spend of the window, the capacity held and the new ceiling fit the cap; a database failure
  refuses it.
\<close>

theorem budget_policy_enforced:
  assumes ok: "proxy_ok P" and set: "set_budget w P s (Some l) win p = (Some (Inr ()), P1)" and l: "l \<noteq> - 1"
  shows "\<exists>adm P2. pl_reserve K w' P1 s c now p = (Some adm, P2) \<and>
    (p = Warn \<longrightarrow> adm \<noteq> AdmissionDenied) \<and>
    (p = Block \<longrightarrow> adm \<noteq> Unmetered \<and>
       (\<forall>r. adm = Leased r \<longrightarrow> committed_tokens K P2 s win now \<le> int (unat l)))"
proof (cases P)
  case (Memory L)
  then have P1: "P1 = Memory (mem_set_limit L s (case p of Block \<Rightarrow> Some l | Warn \<Rightarrow> None))"
    using set by (simp add: set_budget_def)
  let ?L = "mem_set_limit L s (case p of Block \<Rightarrow> Some l | Warn \<Rightarrow> None)"
  have lim: "mem_limit ?L s = (case p of Block \<Rightarrow> Some l | Warn \<Rightarrow> None)"
    by (simp add: mem_limit_def mem_set_limit_def)
  show ?thesis
  proof (cases "mem_reserve ?L s c now lease_ttl")
    case (Pair res L')
    show ?thesis
    proof (cases res)
      case (Inl d)
      then have "p = Block" using Pair lim by (cases p) (auto simp: mem_reserve_def Let_def)
      then show ?thesis using Pair Inl by (simp add: P1 pl_reserve_def)
    next
      case (Inr r)
      then show ?thesis
        using Pair pl_reserve_memory [OF _ l, of ?L s c now lease_ttl r L'] lim
        by (auto simp: P1 pl_reserve_def committed_tokens_def)
    qed
  qed
next
  case (Durable S)
  with ok have S: "shards_ok S" "length (sh_shards S) < 2 ^ 64" by (simp_all add: proxy_ok_def)
  define i where "i = shard_for S s"
  obtain L1 where L1: "set_limit_durable (wo_engine w) (shard_at S i) s (Some l) win p = (Inr (), L1)"
      and P1: "P1 = Durable (put_shard S i L1)"
    using set Durable
    by (auto simp: set_budget_def sh_set_limit_durable_def with_shard_eq [OF S] i_def prod_eq_iff)
  note S1 = put_shard_simps(1) [OF S, of s L1, folded i_def] put_shard_simps(2) [OF S, of i L1]
    put_shard_simps(3) [OF S, of i L1] put_shard_simps(4) [OF S, of s L1, folded i_def]
  have row: "map_of (sl_limits L1) s = Some \<lparr>lr_limit_tokens = Some (int (unat l)),
      lr_window = window_as_str win, lr_policy = policy_as_str p\<rparr>"
    by (rule set_limit_durable_row [OF L1])
  obtain res L2 where res: "reserve_durable K (wo_engine w') L1 s c now lease_ttl = (res, L2)" by fastforce
  have at: "shard_at (put_shard S i L1) (shard_for S s) = L1" using S1(4) by (simp add: i_def)
  have S1ok: "shards_ok (put_shard S i L1)" "length (sh_shards (put_shard S i L1)) < 2 ^ 64"
    using S1 S by simp_all
  have run: "sh_reserve_durable K (wo_engine w') (put_shard S i L1) s c now lease_ttl =
      (Some res, put_shard (put_shard S i L1) i L2)"
    unfolding sh_reserve_durable_def with_shard_eq [OF S1ok, of s] S1(3) using at res by (simp add: i_def)
  show ?thesis
  proof (cases "\<exists>r. res = Inr (Admitted r)")
    case True
    then obtain r where r: "res = Inr (Admitted r)" by blast
    have "settled_total L2 s (window_start_ts K now win) + held_total L2 s \<le> int (unat l)" if "p = Block"
    proof -
      note adm = reserve_in_transaction_admitted [OF reserve_durable_admitted [OF res [unfolded r]]]
      show ?thesis
        using cap_breach_None [OF adm(5), of _ "int (unat l)"] row that
        by (simp add: adm(4) held_total_new_lease parse_as_str ex_db_parse add.assoc)
    qed
    moreover have "shard_at (put_shard (put_shard S i L1) i L2) i = L2"
      using put_shard_simps(4) [OF S1ok, of s L2] S1(3) by (simp add: i_def)
    moreover have "shard_for (put_shard (put_shard S i L1) i L2) s = i"
      by (simp add: put_shard_def shard_for_def i_def)
    ultimately show ?thesis
      using run r by (simp add: P1 pl_reserve_def committed_tokens_def Let_def)
  next
    case False
    have "p = Block" if "res = Inr (Denied d)" for d
    proof (rule ccontr)
      assume "p \<noteq> Block"
      then have warn: "p = Warn" by (cases p) simp_all
      have "policy_parse ''warn'' = Warn" using parse_as_str(2) [of Warn] by simp
      then show False
        using warn_cap_breach [of "reclaim_scope L1 s (unix_timestamp now)" s _ K "wo_engine w'" c now d]
          reserve_durable_denied(2) [OF res [unfolded that]] row warn by simp
    qed
    with False run show ?thesis
      by (cases res; cases p) (auto simp: P1 pl_reserve_def split: reserve_outcome.split)
  qed
qed

section \<open>Witness\<close>

theorem budget_policy_enforced_witness:
  "\<exists>P1 adm P2. set_budget ex_world (Durable ex_shards) ''team'' (Some 50) Daily Block = (Some (Inr ()), P1) \<and>
     pl_reserve ex_calendar ex_world P1 ''team'' 60 0 Block = (Some adm, P2) \<and> adm \<noteq> Unmetered"
proof -
  have set: "set_budget ex_world (Durable ex_shards) ''team'' (Some 50) Daily Block =
      (Some (Inr ()), Durable (put_shard ex_shards (shard_for ex_shards ''team'')
         (ex_db\<lparr>sl_limits := [(''team'', \<lparr>lr_limit_tokens = Some 50, lr_window = ''daily'',
            lr_policy = ''block''\<rparr>)]\<rparr>)))"
    by (simp add: set_budget_def sh_set_limit_durable_def with_shard_eq [OF ex_shards_ok(1,2)]
        ex_shards_ok(3) set_limit_durable_def ex_world_def i64_try_from_def ex_db_eq)
  show ?thesis
    using budget_policy_enforced [OF _ set, of ex_calendar ex_world 60 0] ex_shards_ok set
    by (auto simp: proxy_ok_def)
qed

end
