(* ===== verification/Settlement.thy ===== *)
theory Settlement
  imports Settle_Flow Proxy_Ledger Allowance
begin

text \<open>
  \<^verbatim>\<open>crates/sandhi-proxy/src/settlement.rs\<close> and
  \<^verbatim>\<open>crates/sandhi-proxy/src/settlement/admission.rs\<close>: the owners of one execution in the
  proxy. A prepared admission becomes a pending dispatch, an authorised execution, and a pending
  settlement; every attempt goes through the ledger's mutex without waiting for it, and an attempt
  that fails keeps its owner.
\<close>

section \<open>Owners\<close>

record tracked_observation =
  tk_intent :: execution_intent
  tk_usage :: usage_v2
  tk_recorded :: bool

record pending_settlement =
  ps_request_id :: string
  ps_reservation :: "reservation option"
  ps_charge :: "u64 option"
  ps_tracked :: "tracked_observation option"
  ps_cache_read_bp :: u32

datatype failure =
    LedgerBusy
  | LedgerPoisoned
  | NoReservation
  | NonDurableLedger
  | UnknownUsage
  | EvidenceFailure evidence_error

datatype attempt =
    AttemptCommitted string settlement_outcome
  | AttemptUnresolved pending_settlement failure

definition settlement_new ::
  "string \<Rightarrow> reservation option \<Rightarrow> usage_v2 \<Rightarrow> pending_settlement" where
  "settlement_new request_id reservation usage =
     \<lparr>ps_request_id = request_id, ps_reservation = reservation,
      ps_charge = (case u_completeness usage of
          Final \<Rightarrow> Some (billable usage) | Partial \<Rightarrow> Some (billable usage) | Unavailable \<Rightarrow> None),
      ps_tracked = None, ps_cache_read_bp = basis_points weight_default\<rparr>"

definition settlement_tracked ::
  "string \<Rightarrow> execution_intent \<Rightarrow> usage_v2 \<Rightarrow> pending_settlement" where
  "settlement_tracked request_id intent usage =
     \<lparr>ps_request_id = request_id, ps_reservation = Some (ei_reservation intent), ps_charge = None,
      ps_tracked = Some \<lparr>tk_intent = intent, tk_usage = usage, tk_recorded = False\<rparr>,
      ps_cache_read_bp = basis_points weight_default\<rparr>"

definition terminal_usage :: "pending_settlement \<Rightarrow> usage_v2 option" where
  "terminal_usage p = map_option tk_usage (ps_tracked p)"

definition observation_recorded :: "pending_settlement \<Rightarrow> bool option" where
  "observation_recorded p = map_option tk_recorded (ps_tracked p)"

definition with_cache_read_weight :: "pending_settlement \<Rightarrow> u32 \<Rightarrow> pending_settlement" where
  "with_cache_read_weight p cache_read_bp = p\<lparr>ps_cache_read_bp := cache_read_bp\<rparr>"

section \<open>The ledger behind its mutex\<close>

datatype try_lock = Acquired | WouldBlock | Poisoned

text \<open>
  \<^verbatim>\<open>with_durable_ledger\<close>: the operation also updates a variable \<open>v\<close> of the caller it
  captures.
\<close>

definition with_durable_ledger ::
  "try_lock \<Rightarrow> proxy_ledger \<Rightarrow> 'v \<Rightarrow>
     ('v \<Rightarrow> sharded_ledger \<Rightarrow> (evidence_error + 'a) \<times> 'v \<times> sharded_ledger) \<Rightarrow>
     (failure + 'a) \<times> 'v \<times> proxy_ledger" where
  "with_durable_ledger lock P v operation =
     (case lock of
        WouldBlock \<Rightarrow> (Inl LedgerBusy, v, P)
      | Poisoned \<Rightarrow> (Inl LedgerPoisoned, v, P)
      | Acquired \<Rightarrow>
          (case P of
             Memory _ \<Rightarrow> (Inl NonDurableLedger, v, P)
           | Durable S \<Rightarrow>
               (case operation v S of
                  (r, v, S) \<Rightarrow> (map_sum EvidenceFailure (\<lambda>a. a) r, v, Durable S))))"

text \<open>What a settlement attempt does inside the mutex.\<close>

definition commit_operation ::
  "calendar \<Rightarrow> usage_codec \<Rightarrow> world \<Rightarrow> pending_settlement \<Rightarrow> sharded_ledger \<Rightarrow>
     (evidence_error + settlement_outcome) \<times> pending_settlement \<times> sharded_ledger" where
  "commit_operation K C w p S =
     (case ps_tracked p of
        Some tracked \<Rightarrow>
          (case record_terminal_for_intent_durable K C (wo_engine w) (wo_utc w) S (tk_intent tracked)
                  (tk_usage tracked) (ps_cache_read_bp p) of
             (Inl e, S) \<Rightarrow> (Inl e, p, S)
           | (Inr _, S) \<Rightarrow>
               (case sh_settle_terminal_durable K C (wo_engine w) (wo_entropy w 0) (wo_utc w) S
                       (r_scope (ei_reservation (tk_intent tracked)))
                       (ei_execution_id (tk_intent tracked)) of
                  (r, S) \<Rightarrow> (r, p\<lparr>ps_tracked := Some (tracked\<lparr>tk_recorded := True\<rparr>)\<rparr>, S)))
      | None \<Rightarrow>
          (case sh_settle_with_evidence_durable (wo_engine w) (wo_entropy w 0) (wo_utc w) S
                  (r_scope (the (ps_reservation p))) (r_id (the (ps_reservation p)))
                  (the (ps_charge p)) of
             (r, S) \<Rightarrow> (r, p, S)))"

definition try_commit ::
  "calendar \<Rightarrow> usage_codec \<Rightarrow> world \<Rightarrow> try_lock \<Rightarrow> proxy_ledger \<Rightarrow> pending_settlement \<Rightarrow>
     attempt \<times> proxy_ledger" where
  "try_commit K C w lock P p =
     (if ps_tracked p = None \<and> ps_charge p = None then (AttemptUnresolved p UnknownUsage, P)
      else if ps_tracked p = None \<and> ps_reservation p = None
      then (AttemptUnresolved p NoReservation, P)
      else
        (case with_durable_ledger lock P p (commit_operation K C w) of
           (Inr outcome, p, P) \<Rightarrow> (AttemptCommitted (ps_request_id p) outcome, P)
         | (Inl failure, p, P) \<Rightarrow> (AttemptUnresolved p failure, P)))"

section \<open>Dispatch\<close>

record pending_dispatch =
  pd_request_id :: string
  pd_intent :: execution_intent

record authorized_execution =
  ax_request_id :: string
  ax_intent :: execution_intent
  ax_permit :: dispatch_permit

datatype dispatch_attempt =
    AttemptMayHaveDispatched pending_dispatch
  | AttemptAuthorized authorized_execution
  | AttemptClosed string pre_dispatch_closure
  | DispatchUnresolved pending_dispatch failure

definition try_authorize ::
  "calendar \<Rightarrow> usage_codec \<Rightarrow> world \<Rightarrow> try_lock \<Rightarrow> proxy_ledger \<Rightarrow> pending_dispatch \<Rightarrow>
     dispatch_attempt \<times> proxy_ledger" where
  "try_authorize K C w lock P p =
     (case with_durable_ledger lock P () (\<lambda>_ S.
          case authorize_dispatch_for_intent_durable K C (wo_engine w) (wo_utc w) S (pd_intent p) of
            (r, S) \<Rightarrow> (r, (), S)) of
        (Inr (Authorized permit), _, P) \<Rightarrow>
          (AttemptAuthorized \<lparr>ax_request_id = pd_request_id p, ax_intent = pd_intent p,
                              ax_permit = permit\<rparr>, P)
      | (Inr (dispatch_outcome.ClosedBeforeDispatch closure), _, P) \<Rightarrow>
          (AttemptClosed (pd_request_id p) closure, P)
      | (Inr dispatch_outcome.MayHaveDispatched, _, P) \<Rightarrow> (AttemptMayHaveDispatched p, P)
      | (Inl failure, _, P) \<Rightarrow> (DispatchUnresolved p failure, P))"

definition try_close ::
  "calendar \<Rightarrow> usage_codec \<Rightarrow> world \<Rightarrow> try_lock \<Rightarrow> proxy_ledger \<Rightarrow> pending_dispatch \<Rightarrow>
     dispatch_attempt \<times> proxy_ledger" where
  "try_close K C w lock P p =
     (case with_durable_ledger lock P () (\<lambda>_ S.
          case close_before_dispatch_for_intent_durable K C (wo_engine w) (wo_utc w) S (pd_intent p) of
            (r, S) \<Rightarrow> (r, (), S)) of
        (Inr (Closed closure), _, P) \<Rightarrow> (AttemptClosed (pd_request_id p) closure, P)
      | (Inr (AlreadyClosed closure), _, P) \<Rightarrow> (AttemptClosed (pd_request_id p) closure, P)
      | (Inr ClosureMayHaveDispatched, _, P) \<Rightarrow> (AttemptMayHaveDispatched p, P)
      | (Inl failure, _, P) \<Rightarrow> (DispatchUnresolved p failure, P))"

definition into_settlement :: "authorized_execution \<Rightarrow> usage_v2 \<Rightarrow> pending_settlement" where
  "into_settlement x usage = settlement_tracked (ax_request_id x) (ax_intent x) usage"

section \<open>Admission\<close>

record admission_evidence =
  ae_request_id :: string
  ae_scope :: string
  ae_ceiling :: u64
  ae_ttl :: duration
  ae_retained_limit :: nat

record prepared_admission =
  pa_evidence :: admission_evidence
  pa_correlated :: bool

datatype admission_outcome =
    AdmissionPrepared pending_dispatch
  | AdmissionRefused admission_evidence denied
  | AdmissionCutoff admission_evidence
  | AdmissionFailed admission_evidence failure
  | AdmissionInterrupted admission_evidence

definition prepared_admission_new ::
  "string \<Rightarrow> string \<Rightarrow> u64 \<Rightarrow> duration \<Rightarrow> nat \<Rightarrow> evidence_error + prepared_admission" where
  "prepared_admission_new request_id scope ceil ttl retained_limit =
     (if request_id = [] \<or> length request_id > 4096 \<or> scope = [] \<or> length scope > 4096
      then Inl InvalidInput
      else Inr \<lparr>pa_evidence = \<lparr>ae_request_id = request_id, ae_scope = scope, ae_ceiling = ceil,
                                ae_ttl = ttl, ae_retained_limit = retained_limit\<rparr>,
                pa_correlated = False\<rparr>)"

definition correlated :: "prepared_admission \<Rightarrow> prepared_admission" where
  "correlated a = a\<lparr>pa_correlated := True\<rparr>"

definition admission_run ::
  "calendar \<Rightarrow> world \<Rightarrow> try_lock \<Rightarrow> bool \<Rightarrow> proxy_ledger \<Rightarrow> prepared_admission \<Rightarrow>
     admission_outcome \<times> proxy_ledger" where
  "admission_run K w lock is_running P a =
     (let ev = pa_evidence a in
      case with_durable_ledger lock P () (\<lambda>_ S.
          if \<not> is_running then (Inr None, (), S)
          else
            (case (if pa_correlated a
                   then sh_reserve_correlated_durable K (wo_engine w) (wo_entropy w 0) S (ae_scope ev)
                          (ae_ceiling ev) (wo_utc w) (ae_ttl ev) (ae_retained_limit ev) (ae_request_id ev)
                   else sh_reserve_prepared_durable K (wo_engine w) (wo_entropy w 0) S (ae_scope ev)
                          (ae_ceiling ev) (wo_utc w) (ae_ttl ev) (ae_retained_limit ev)) of
               (r, S) \<Rightarrow> (map_sum (\<lambda>e. e) Some r, (), S))) of
        (Inr (Some (IntentAdmitted intent)), _, P) \<Rightarrow>
          (AdmissionPrepared \<lparr>pd_request_id = ae_request_id ev, pd_intent = intent\<rparr>, P)
      | (Inr (Some (IntentDenied denial)), _, P) \<Rightarrow> (AdmissionRefused ev denial, P)
      | (Inr None, _, P) \<Rightarrow> (AdmissionCutoff ev, P)
      | (Inl failure, _, P) \<Rightarrow> (AdmissionFailed ev failure, P))"

section \<open>Properties\<close>

lemma tracked_put:
  assumes "tracked_ledger S = Inr L" and "sl_path L' = sl_path L"
  shows "tracked_ledger (put_shard S 0 L') = Inr L'"
    and "put_shard (put_shard S 0 L') 0 L'' = put_shard S 0 L''"
proof -
  have "length (sh_shards S) = 1" "\<not> sd_poisoned (sh_shards S ! 0)" "is_file_backed L"
    using assms(1) by (auto simp: tracked_ledger_def split: if_split_asm)
  then show "tracked_ledger (put_shard S 0 L') = Inr L'"
    and "put_shard (put_shard S 0 L') 0 L'' = put_shard S 0 L''"
    using assms(2) by (simp_all add: tracked_ledger_def put_shard_def is_file_backed_def)
qed

lemma put_shard_id: "tracked_ledger S = Inr L \<Longrightarrow> put_shard S 0 L = S"
proof -
  assume "tracked_ledger S = Inr L"
  then have L: "L = sd_ledger (sh_shards S ! 0)" by (simp add: tracked_ledger_def split: if_split_asm)
  have "(sh_shards S ! 0)\<lparr>sd_ledger := sd_ledger (sh_shards S ! 0)\<rparr> = sh_shards S ! 0"
    by (cases "sh_shards S ! 0") simp
  then show ?thesis by (simp add: put_shard_def L)
qed

lemma on_tracked_eq:
  "tracked_ledger S = Inr L \<Longrightarrow> on_tracked S f = (fst (f L), put_shard S 0 (snd (f L)))"
  by (simp add: on_tracked_def split: prod.split)

lemma checked_intent_self:
  "intent_durable K E L (ei_execution_id intent) = Inr (Some intent) \<Longrightarrow> checked_intent K E L intent = Inr intent"
  by (simp add: checked_intent_def Let_def)

text \<open>
  One attempt on the ledger of a tracked settlement, from the answers of the store.
\<close>

lemma try_commit_tracked:
  assumes S: "tracked_ledger S = Inr L"
    and intent: "intent_durable K (wo_engine w) L (ei_execution_id intent) = Inr (Some intent)"
    and recorded: "record_terminal_durable K C (wo_engine w) (wo_utc w) L (r_scope (ei_reservation intent))
        (ei_execution_id intent) usage cache_bp = (Inr out, L1)"
    and path: "sl_path L1 = sl_path L"
    and settle: "settle_terminal_durable K C (wo_engine w) (wo_entropy w 0) (wo_utc w) L1
        (r_scope (ei_reservation intent)) (ei_execution_id intent) = (Inr outcome, L2)"
  shows "try_commit K C w Acquired (Durable S) (with_cache_read_weight (settlement_tracked req intent usage) cache_bp) =
    (AttemptCommitted req outcome, Durable (put_shard S 0 L2))"
  using S intent recorded settle tracked_put [OF S path]
  by (simp add: try_commit_def with_durable_ledger_def commit_operation_def with_cache_read_weight_def
      settlement_tracked_def record_terminal_for_intent_durable_def on_intent_def on_tracked_eq
      checked_intent_self sh_settle_terminal_durable_def)

lemma intent_durable_settled:
  "intent_durable K all_done (add_receipt (settle_row (with_observation L x row) i c ts) rid i s c ts) y =
     intent_durable K all_done L y"
proof (cases "map_of (sl_intents L) y")
  case (Some t)
  then show ?thesis
    by (cases "map_of (sl_reservations L) (in_reservation_id t)")
      (simp_all add: intent_durable_def add_receipt_def with_observation_def map_of_settle_row
        cong: option.case_cong)
qed (simp add: intent_durable_def add_receipt_def with_observation_def)


section \<open>Witness\<close>

definition ex_intent :: execution_intent where
  "ex_intent = \<lparr>ei_execution_id = ex_x, ei_reservation = \<lparr>r_id = 1, r_scope = ''team'', r_ceiling = 60,
     r_expires_at = 900000000000\<rparr>\<rparr>"

definition ex_tracked :: sharded_ledger where
  "ex_tracked = \<lparr>sh_shards = [\<lparr>sd_ledger = ex_at 1 (Some 5), sd_poisoned = False\<rparr>]\<rparr>"

definition ex_calls :: "(world \<times> ledger_call) list" where
  "ex_calls = [(ex_world, SetLimit ''team'' (Some 100) Total Block),
     (ex_world, ReserveIntent ''team'' 60 0 900000000000 10 True None),
     (ex_world, AuthorizeDispatch ''team'' ex_x)]"

lemma ex_calls_ledger:
  "snd (history ex_calendar ex_codec (sqlite_open (Some ''ledger.db'')) ex_calls) = ex_at 1 (Some 5)"
proof -
  have "snd (perform ex_calendar ex_codec ex_world (sqlite_open (Some ''ledger.db''))
      (SetLimit ''team'' (Some 100) Total Block)) = ex_db"
    by (simp add: ex_db_def sq_set_limit_def ex_world_def)
  then show ?thesis by (simp only: ex_calls_def history_Cons history.simps(1) snd_conv ex_reserve ex_authorize)
qed

lemma ex_codec_ok: "codec_ok ex_codec"
  by (auto simp: codec_ok_def encode_usage_def ex_codec_def split: option.split_asm if_split_asm)

lemma ex_world_ok: "world_ok ex_calendar ex_world"
  by (simp add: world_ok_def ex_calendar_def ex_world_def)

lemma ex_encode: "encode_usage ex_codec ex_usage = Inr ''final 30 12''"
  by (simp add: encode_usage_def ex_codec_def ex_usage_def usage_v2_default_def is_some_and_def)

lemma ex_billable: "billable_weighted ex_usage 10000 = 42"
  by (simp add: billable_weighted_def ex_usage_def usage_v2_default_def billable_parts_weighted_def
      billable_parts_with_reasoning_def scaled_cache_read_def unfolded_reasoning_def billable_parts_def sat_add_def)

lemma ex_state: "recovery_state_of ex_calendar ex_codec all_done (ex_at 1 (Some 5)) ''team'' ex_x 1 =
    Inr MayHaveDispatched"
  unfolding recovery_state_of_def ex_fence
  by (simp add: read_observation_def resolved_charge_def checked_terminal_receipt_def
      bounded_receipt_def i64_try_from_def find_receipt_def ex_at_def ex_db_eq sqlite_open_def)

lemma ex_intent_found: "intent_durable ex_calendar all_done (ex_at 1 (Some 5)) ex_x = Inr (Some ex_intent)"
  by (simp add: intent_durable_def ex_x_valid ex_at_def get_u64_def ex_calendar_def ex_intent_def)


end
