(* ===== verification/Lifecycle.thy ===== *)
theory Lifecycle
  imports Prelude
begin

text \<open>
  \<^verbatim>\<open>crates/sandhi-proxy/src/lifecycle.rs\<close>: the shutdown phases of the proxy and the count of
  admitted operations. Every method takes the mutex for its whole body, so each is one step. The
  waiting methods return when the condition they poll holds; they are the predicates
  \<open>cancelled\<close> and \<open>idle\<close>. The monotonic clock is an argument.
\<close>

section \<open>Operations\<close>

datatype lifecycle_phase = Running | Quiescing | Draining | Stopped

record lifecycle =
  lc_phase :: lifecycle_phase
  lc_started :: "instant option"
  lc_deadline :: "instant option"
  lc_stopped :: "instant option"
  lc_active :: nat

definition lifecycle_new :: lifecycle where
  "lifecycle_new = \<lparr>lc_phase = Running, lc_started = None, lc_deadline = None, lc_stopped = None,
                    lc_active = 0\<rparr>"

definition is_running :: "lifecycle \<Rightarrow> bool" where
  "is_running l \<longleftrightarrow> lc_phase l = Running"

text \<open>\<^verbatim>\<open>Instant::checked_add\<close>: an instant has at most \<open>2 ^ 63\<close> seconds.\<close>

definition checked_add_instant :: "instant \<Rightarrow> duration \<Rightarrow> instant option" where
  "checked_add_instant now d = (if now + d < 2 ^ 63 * 1000000000 then Some (now + d) else None)"

definition begin_quiesce :: "instant \<Rightarrow> duration \<Rightarrow> lifecycle \<Rightarrow> instant \<times> lifecycle" where
  "begin_quiesce now grace l =
     (case lc_deadline l of
        Some deadline \<Rightarrow> (deadline, l)
      | None \<Rightarrow>
          let deadline = unwrap_or (checked_add_instant now grace) now in
          (deadline, l\<lparr>lc_started := Some now, lc_deadline := Some deadline, lc_phase := Quiescing\<rparr>))"

definition start_draining :: "lifecycle \<Rightarrow> lifecycle" where
  "start_draining l = (if lc_phase l = Quiescing then l\<lparr>lc_phase := Draining\<rparr> else l)"

definition stop :: "instant \<Rightarrow> lifecycle \<Rightarrow> lifecycle" where
  "stop now l =
     (if lc_phase l = Running \<or> lc_active l \<noteq> 0 then l
      else l\<lparr>lc_phase := Stopped, lc_stopped := Some (unwrap_or (lc_stopped l) now)\<rparr>)"

definition remaining :: "instant \<Rightarrow> lifecycle \<Rightarrow> duration option" where
  "remaining now l = map_option (\<lambda>d. max 0 (d - now)) (lc_deadline l)"

definition elapsed :: "instant \<Rightarrow> lifecycle \<Rightarrow> duration" where
  "elapsed now l =
     (case lc_started l of
        None \<Rightarrow> 0
      | Some start \<Rightarrow> max 0 (unwrap_or (lc_stopped l) now - start))"

definition active_operations :: "lifecycle \<Rightarrow> nat" where
  "active_operations l = lc_active l"

definition try_operation :: "lifecycle \<Rightarrow> lifecycle option" where
  "try_operation l =
     (if lc_phase l \<noteq> Running then None else Some (l\<lparr>lc_active := lc_active l + 1\<rparr>))"

text \<open>Dropping the guard of an operation.\<close>

definition drop_operation :: "lifecycle \<Rightarrow> lifecycle" where
  "drop_operation l = l\<lparr>lc_active := lc_active l - 1\<rparr>"

definition cancelled :: "lifecycle \<Rightarrow> bool" where
  "cancelled l \<longleftrightarrow> \<not> is_running l"

definition idle :: "lifecycle \<Rightarrow> bool" where
  "idle l \<longleftrightarrow> active_operations l = 0"

section \<open>The lifecycle as a state machine\<close>

text \<open>
  One call of any thread. The second component counts the guards that exist: a guard is created by
  a successful \<open>try_operation\<close> only and dropped once.
\<close>

datatype lifecycle_call =
    BeginQuiesce instant duration
  | StartDraining
  | Stop instant
  | TryOperation
  | DropOperation

inductive lifecycle_step ::
  "lifecycle \<times> nat \<Rightarrow> lifecycle_call \<Rightarrow> lifecycle \<times> nat \<Rightarrow> bool" where
  quiesce: "lifecycle_step (l, g) (BeginQuiesce now grace) (snd (begin_quiesce now grace l), g)"
| draining: "lifecycle_step (l, g) StartDraining (start_draining l, g)"
| stop: "lifecycle_step (l, g) (Stop now) (stop now l, g)"
| admit: "try_operation l = Some l' \<Longrightarrow> lifecycle_step (l, g) TryOperation (l', Suc g)"
| refuse: "try_operation l = None \<Longrightarrow> lifecycle_step (l, g) TryOperation (l, g)"
| release: "lifecycle_step (l, Suc g) DropOperation (drop_operation l, g)"

inductive_cases lifecycle_stepE: "lifecycle_step s c t"

inductive lifecycle_run ::
  "lifecycle \<times> nat \<Rightarrow> lifecycle_call list \<Rightarrow> lifecycle \<times> nat \<Rightarrow> bool" where
  none: "lifecycle_run s [] s"
| more: "lifecycle_step s c t \<Longrightarrow> lifecycle_run t cs u \<Longrightarrow> lifecycle_run s (c # cs) u"

fun phase_rank :: "lifecycle_phase \<Rightarrow> nat" where
  "phase_rank Running = 0" | "phase_rank Quiescing = 1" | "phase_rank Draining = 2" | "phase_rank Stopped = 3"

definition lifecycle_inv :: "lifecycle \<times> nat \<Rightarrow> bool" where
  "lifecycle_inv = (\<lambda>(l, g).
     lc_active l = g \<and> (lc_phase l = Running \<longleftrightarrow> lc_deadline l = None) \<and>
     (lc_phase l = Stopped \<longrightarrow> g = 0) \<and> (lc_stopped l \<noteq> None \<longleftrightarrow> lc_phase l = Stopped))"

lemmas lifecycle_defs = begin_quiesce_def start_draining_def stop_def try_operation_def
  drop_operation_def Let_def

text \<open>What no step undoes.\<close>

definition advanced :: "lifecycle \<times> nat \<Rightarrow> lifecycle \<times> nat \<Rightarrow> bool" where
  "advanced = (\<lambda>(l, g) (l', g').
     phase_rank (lc_phase l) \<le> phase_rank (lc_phase l') \<and>
     (\<forall>d. lc_deadline l = Some d \<longrightarrow> lc_deadline l' = Some d \<and> g' \<le> g) \<and>
     (\<forall>s. lc_stopped l = Some s \<longrightarrow> lc_stopped l' = Some s))"

lemma lifecycle_step_inv:
  assumes "lifecycle_step s c t" and "lifecycle_inv s"
  shows "lifecycle_inv t"
  using assms
proof (induction rule: lifecycle_step.induct)
  case (quiesce l g now grace)
  then show ?case
    by (cases "lc_deadline l"; cases "lc_phase l") (simp_all add: lifecycle_inv_def lifecycle_defs)
qed (auto simp: lifecycle_inv_def lifecycle_defs split: if_splits)

lemma lifecycle_step_advanced:
  assumes "lifecycle_step s c t" and "lifecycle_inv s"
  shows "advanced s t"
  using assms
proof (induction rule: lifecycle_step.induct)
  case (quiesce l g now grace)
  then show ?case
    by (cases "lc_deadline l"; cases "lc_phase l")
      (simp_all add: lifecycle_inv_def advanced_def lifecycle_defs)
next
  case (stop l g now)
  then show ?case
    by (cases "lc_phase l") (simp_all add: lifecycle_inv_def advanced_def lifecycle_defs)
qed (auto simp: lifecycle_inv_def advanced_def lifecycle_defs split: if_splits)

lemma advanced_trans: "advanced s t \<Longrightarrow> advanced t u \<Longrightarrow> advanced s u"
  by (auto simp: advanced_def)

lemma lifecycle_run_keeps:
  assumes "lifecycle_run s cs t" and "lifecycle_inv s"
  shows "lifecycle_inv t \<and> advanced s t"
  using assms
proof (induction rule: lifecycle_run.induct)
  case (none s)
  then show ?case by (auto simp: advanced_def)
next
  case (more s c t cs u)
  then show ?case using lifecycle_step_inv [of s c t] lifecycle_step_advanced [of s c t]
    by (metis advanced_trans)
qed

lemma lifecycle_run_append:
  "lifecycle_run s cs t \<Longrightarrow> lifecycle_run t ds u \<Longrightarrow> lifecycle_run s (cs @ ds) u"
  by (induction rule: lifecycle_run.induct) (auto intro: lifecycle_run.intros)

lemma lifecycle_step_deterministic:
  "lifecycle_step s c t \<Longrightarrow> lifecycle_step s c u \<Longrightarrow> t = u"
  by (induction rule: lifecycle_step.induct) (auto elim: lifecycle_stepE)

lemma lifecycle_run_deterministic:
  "lifecycle_run s cs t \<Longrightarrow> lifecycle_run s cs u \<Longrightarrow> t = u"
proof (induction arbitrary: u rule: lifecycle_run.induct)
  case (none s)
  then show ?case by (auto elim: lifecycle_run.cases)
next
  case (more s c t cs v)
  from more.prems obtain t' where "lifecycle_step s c t'" and "lifecycle_run t' cs u"
    by (auto elim: lifecycle_run.cases)
  with more show ?case using lifecycle_step_deterministic by blast
qed

lemma release_all:
  "\<exists>l'. lifecycle_run (l, g) (replicate g DropOperation) (l', 0) \<and> lc_active l' = lc_active l - g \<and>
        lc_phase l' = lc_phase l"
proof (induction g arbitrary: l)
  case 0
  show ?case by (rule exI [of _ l]) (simp add: lifecycle_run.none)
next
  case (Suc g)
  obtain l' where l': "lifecycle_run (drop_operation l, g) (replicate g DropOperation) (l', 0)"
    "lc_active l' = lc_active l - 1 - g" "lc_phase l' = lc_phase l"
    using Suc [of "drop_operation l"] by (auto simp: drop_operation_def)
  have "lifecycle_run (l, Suc g) (replicate (Suc g) DropOperation) (l', 0)"
    using lifecycle_run.more [OF lifecycle_step.release l'(1)] by simp
  with l' show ?case by auto
qed

lemma lifecycle_inv_new: "lifecycle_inv (lifecycle_new, 0)"
  by (simp add: lifecycle_inv_def lifecycle_new_def)

section \<open>Properties\<close>

text \<open>
  C20: The cutoff of a shutdown is final. Once a deadline is set, whatever calls follow in whatever
  order, the deadline is the one first set, the phase only advances, no operation is admitted and
  the number of live operation guards only falls; and a stopped proxy has no live operation.
\<close>

theorem shutdown_is_final:
  assumes "lifecycle_run (lifecycle_new, 0) cs (l, g)" and "lc_deadline l = Some d"
    and "lifecycle_run (l, g) cs' (l', g')"
  shows "lc_deadline l' = Some d \<and> try_operation l' = None \<and> g' \<le> g \<and>
    phase_rank (lc_phase l) \<le> phase_rank (lc_phase l') \<and>
    (lc_phase l' = Stopped \<longrightarrow> idle l' \<and> g' = 0)"
proof -
  have "lifecycle_inv (l, g)"
    using lifecycle_run_keeps [OF assms(1) lifecycle_inv_new] by simp
  then have "lifecycle_inv (l', g')" and "advanced (l, g) (l', g')"
    using lifecycle_run_keeps [OF assms(3)] by auto
  with assms(2) show ?thesis
    by (auto simp: advanced_def lifecycle_inv_def try_operation_def idle_def active_operations_def)
qed

theorem shutdown_is_final_witness:
  "lc_deadline (stop 9 (drop_operation (snd (begin_quiesce 5 3 (the (try_operation lifecycle_new)))))) =
     Some (8 :: int)"
proof -
  define l where "l = snd (begin_quiesce 5 3 (the (try_operation lifecycle_new)))"
  have a: "lifecycle_run (lifecycle_new, 0) [TryOperation, BeginQuiesce 5 3] (l, 1)"
    unfolding l_def One_nat_def
    by (rule lifecycle_run.more [OF lifecycle_step.admit
          lifecycle_run.more [OF lifecycle_step.quiesce lifecycle_run.none]])
      (simp add: try_operation_def lifecycle_new_def)
  have b: "lifecycle_run (l, 1) [DropOperation, Stop 9] (stop 9 (drop_operation l), 0)"
    unfolding One_nat_def
    by (rule lifecycle_run.more [OF lifecycle_step.release
          lifecycle_run.more [OF lifecycle_step.stop lifecycle_run.none]])
  have "lc_deadline l = Some 8"
    by (simp add: l_def lifecycle_defs lifecycle_new_def checked_add_instant_def unwrap_or_def)
  from shutdown_is_final [OF a this b] show ?thesis by (simp add: l_def)
qed

text \<open>
  C21: A shutdown completes. From every reachable state, beginning it, dropping the guards that are
  live and stopping leaves the proxy stopped and idle; these calls are always possible and have one
  outcome.
\<close>

theorem shutdown_completes:
  assumes "lifecycle_run (lifecycle_new, 0) cs (l, g)"
  shows "\<exists>l'. lifecycle_run (l, g) (BeginQuiesce now grace # replicate g DropOperation @ [Stop t]) (l', 0) \<and>
           lc_phase l' = Stopped \<and> idle l' \<and>
           (\<forall>u. lifecycle_run (l, g) (BeginQuiesce now grace # replicate g DropOperation @ [Stop t]) u \<longrightarrow>
              u = (l', 0))"
proof -
  define q where "q = snd (begin_quiesce now grace l)"
  have inv: "lifecycle_inv (l, g)"
    using lifecycle_run_keeps [OF assms lifecycle_inv_new] by simp
  have step: "lifecycle_step (l, g) (BeginQuiesce now grace) (q, g)"
    unfolding q_def by (rule lifecycle_step.quiesce)
  have "lc_phase q \<noteq> Running" and q: "lc_active q = g"
    using inv lifecycle_step_inv [OF step inv]
    by (auto simp: lifecycle_inv_def q_def begin_quiesce_def Let_def split: option.split_asm)
  moreover obtain r where r: "lifecycle_run (q, g) (replicate g DropOperation) (r, 0)"
    "lc_active r = lc_active q - g" "lc_phase r = lc_phase q"
    using release_all by blast
  ultimately have stopped: "lc_phase (stop t r) = Stopped" "idle (stop t r)"
    by (simp_all add: stop_def idle_def active_operations_def)
  have "lifecycle_run (r, 0) [Stop t] (stop t r, 0)"
    by (rule lifecycle_run.more [OF lifecycle_step.stop lifecycle_run.none])
  then have "lifecycle_run (l, g) (BeginQuiesce now grace # replicate g DropOperation @ [Stop t])
      (stop t r, 0)"
    using lifecycle_run.more [OF step lifecycle_run_append [OF r(1)]] by simp
  with stopped show ?thesis using lifecycle_run_deterministic by blast
qed

theorem shutdown_completes_witness:
  "\<exists>l'. lifecycle_run (the (try_operation lifecycle_new), 1)
      [BeginQuiesce 5 3, DropOperation, Stop 9] (l', 0) \<and> lc_phase l' = Stopped"
proof -
  have "lifecycle_run (lifecycle_new, 0) [TryOperation] (the (try_operation lifecycle_new), 1)"
    unfolding One_nat_def
    by (rule lifecycle_run.more [OF lifecycle_step.admit lifecycle_run.none])
      (simp add: try_operation_def lifecycle_new_def)
  from shutdown_completes [OF this, of 5 3 9] show ?thesis by auto
qed

end
