(* ===== verification/Jobs.thy ===== *)
theory Jobs
  imports Settlement Lifecycle
begin

text \<open>
  \<^verbatim>\<open>crates/sandhi-proxy/src/settlement/jobs.rs\<close>: the bounded registry that owns
  accounting work while it is queued, running or unclaimed. Every method that takes the registry's
  mutex is one function on the registry; what a spawned closure does later is \<open>run_input\<close>
  followed by \<open>finish\<close>. No critical section of the source panics, so the mutex is never
  poisoned. The presence of a runtime and the clock are arguments.
\<close>

section \<open>Work and results\<close>

datatype work =
    WorkAuthorize pending_dispatch
  | WorkClose pending_dispatch
  | WorkSettle pending_settlement

definition settlement_snapshot :: "pending_settlement \<Rightarrow> pending_settlement" where
  "settlement_snapshot p =
     \<lparr>ps_request_id = ps_request_id p, ps_reservation = ps_reservation p, ps_charge = ps_charge p,
      ps_tracked = map_option (\<lambda>t. \<lparr>tk_intent = tk_intent t, tk_usage = tk_usage t,
                                    tk_recorded = tk_recorded t\<rparr>) (ps_tracked p),
      ps_cache_read_bp = ps_cache_read_bp p\<rparr>"

fun work_snapshot :: "work \<Rightarrow> work" where
  "work_snapshot (WorkAuthorize p) =
     WorkAuthorize \<lparr>pd_request_id = pd_request_id p, pd_intent = pd_intent p\<rparr>"
| "work_snapshot (WorkClose p) =
     WorkClose \<lparr>pd_request_id = pd_request_id p, pd_intent = pd_intent p\<rparr>"
| "work_snapshot (WorkSettle p) = WorkSettle (settlement_snapshot p)"

datatype outcome =
    OutcomeDispatch dispatch_attempt
  | OutcomeSettlement attempt
  | OutcomeInterrupted work

fun work_run ::
  "calendar \<Rightarrow> usage_codec \<Rightarrow> world \<Rightarrow> try_lock \<Rightarrow> proxy_ledger \<Rightarrow> work \<Rightarrow> outcome \<times> proxy_ledger" where
  "work_run K C w lock P (WorkAuthorize p) =
     (case try_authorize K C w lock P p of (r, P) \<Rightarrow> (OutcomeDispatch r, P))"
| "work_run K C w lock P (WorkClose p) =
     (case try_close K C w lock P p of (r, P) \<Rightarrow> (OutcomeDispatch r, P))"
| "work_run K C w lock P (WorkSettle p) =
     (case try_commit K C w lock P p of (r, P) \<Rightarrow> (OutcomeSettlement r, P))"

datatype refusal = RefusalFull | RefusalClosed | RefusalNoRuntime

datatype job_kind = KindWork | KindAdmission

datatype job_input = InputWork work | InputAdmission prepared_admission

datatype result_value = ResultWork outcome | ResultAdmission admission_outcome

fun input_snapshot :: "job_input \<Rightarrow> job_input" where
  "input_snapshot (InputWork work) = InputWork (work_snapshot work)"
| "input_snapshot (InputAdmission a) =
     InputAdmission \<lparr>pa_evidence = pa_evidence a, pa_correlated = pa_correlated a\<rparr>"

fun input_interrupted :: "job_input \<Rightarrow> result_value" where
  "input_interrupted (InputWork work) = ResultWork (OutcomeInterrupted work)"
| "input_interrupted (InputAdmission a) = ResultAdmission (AdmissionInterrupted (pa_evidence a))"

fun result_kind :: "result_value \<Rightarrow> job_kind" where
  "result_kind (ResultWork _) = KindWork"
| "result_kind (ResultAdmission _) = KindAdmission"

fun result_interrupted :: "result_value \<Rightarrow> bool" where
  "result_interrupted (ResultWork (OutcomeInterrupted _)) = True"
| "result_interrupted (ResultAdmission (AdmissionInterrupted _)) = True"
| "result_interrupted _ = False"

text \<open>The body of the spawned closures.\<close>

fun run_input ::
  "calendar \<Rightarrow> usage_codec \<Rightarrow> world \<Rightarrow> try_lock \<Rightarrow> lifecycle \<Rightarrow> proxy_ledger \<Rightarrow> job_input \<Rightarrow>
     result_value \<times> proxy_ledger" where
  "run_input K C w lock life P (InputWork work) =
     (case work_run K C w lock P work of (r, P) \<Rightarrow> (ResultWork r, P))"
| "run_input K C w lock life P (InputAdmission a) =
     (case admission_run K w lock (is_running life) P a of (r, P) \<Rightarrow> (ResultAdmission r, P))"

section \<open>The registry\<close>

datatype job_phase =
    JobEmpty | JobAdmitting | JobPrepared | JobAuthorizing | JobAuthorized | JobClosing
  | JobTerminal | JobResolved | JobUncertain

record slot =
  so_snapshot :: "job_input option"
  so_outcome :: "result_value option"
  so_held :: bool
  so_running :: bool
  so_epoch :: u64
  so_releasable :: bool
  so_consumed :: bool
  so_phase :: job_phase

record jobs =
  jb_slots :: "(u64 \<times> slot) list"
  jb_next :: u64
  jb_closed :: bool
  jb_capacity :: nat

definition jobs_new :: "nat \<Rightarrow> jobs" where
  "jobs_new capacity = \<lparr>jb_slots = [], jb_next = 0, jb_closed = False, jb_capacity = capacity\<rparr>"

text \<open>The \<^verbatim>\<open>BTreeMap\<close>: an association list in key order.\<close>

definition put_slot :: "jobs \<Rightarrow> u64 \<Rightarrow> slot \<Rightarrow> jobs" where
  "put_slot J jid slot =
     J\<lparr>jb_slots := map (\<lambda>(i, old). (i, if i = jid then slot else old)) (jb_slots J)\<rparr>"

definition insert_slot :: "jobs \<Rightarrow> u64 \<Rightarrow> slot \<Rightarrow> jobs" where
  "insert_slot J jid slot =
     J\<lparr>jb_slots := insort_key fst (jid, slot) (filter (\<lambda>(i, _). i \<noteq> jid) (jb_slots J))\<rparr>"

definition remove_slot :: "jobs \<Rightarrow> u64 \<Rightarrow> jobs" where
  "remove_slot J jid = J\<lparr>jb_slots := filter (\<lambda>(i, _). i \<noteq> jid) (jb_slots J)\<rparr>"

definition slot_at :: "jobs \<Rightarrow> u64 \<Rightarrow> slot option" where
  "slot_at J jid = map_of (jb_slots J) jid"

fun result_releasable :: "result_value option \<Rightarrow> bool" where
  "result_releasable (Some (ResultAdmission (AdmissionRefused _ _))) = True"
| "result_releasable (Some (ResultAdmission (AdmissionCutoff _))) = True"
| "result_releasable (Some (ResultWork (OutcomeSettlement (AttemptCommitted _ _)))) = True"
| "result_releasable (Some (ResultWork (OutcomeDispatch (AttemptClosed _ _)))) = True"
| "result_releasable _ = False"

fun finish_phase :: "job_phase \<Rightarrow> result_value option \<Rightarrow> job_phase" where
  "finish_phase phase (Some (ResultAdmission (AdmissionPrepared _))) = JobPrepared"
| "finish_phase phase (Some (ResultAdmission (AdmissionRefused _ _))) = JobResolved"
| "finish_phase phase (Some (ResultAdmission (AdmissionCutoff _))) = JobResolved"
| "finish_phase phase (Some (ResultWork (OutcomeDispatch (AttemptAuthorized _)))) = JobAuthorized"
| "finish_phase phase (Some (ResultWork (OutcomeDispatch (AttemptClosed _ _)))) = JobResolved"
| "finish_phase phase (Some (ResultWork (OutcomeSettlement (AttemptCommitted _ _)))) = JobResolved"
| "finish_phase phase _ = (if phase = JobTerminal then JobTerminal else JobUncertain)"

fun prepared_snapshot :: "job_input option \<Rightarrow> result_value option \<Rightarrow> job_input option" where
  "prepared_snapshot snapshot (Some (ResultAdmission (AdmissionPrepared pending))) =
     Some (InputWork (WorkClose \<lparr>pd_request_id = pd_request_id pending, pd_intent = pd_intent pending\<rparr>))"
| "prepared_snapshot snapshot _ = snapshot"

definition finish_slot :: "slot \<Rightarrow> result_value option \<Rightarrow> slot" where
  "finish_slot slot outcome =
     (let snapshot = (if so_held slot then prepared_snapshot (so_snapshot slot) outcome
                      else so_snapshot slot) in
      slot\<lparr>so_running := False,
           so_phase := (if so_held slot then finish_phase (so_phase slot) outcome else so_phase slot),
           so_releasable := result_releasable outcome,
           so_snapshot := (if so_held slot then snapshot else None),
           so_outcome := (case outcome of
               Some r \<Rightarrow> Some r
             | None \<Rightarrow> map_option (\<lambda>s. input_interrupted (input_snapshot s)) snapshot)\<rparr>)"

definition finish :: "jobs \<Rightarrow> u64 \<Rightarrow> u64 \<Rightarrow> result_value option \<Rightarrow> jobs" where
  "finish J jid epoch outcome =
     (let J = (if (case outcome of None \<Rightarrow> True | Some r \<Rightarrow> result_interrupted r)
               then J\<lparr>jb_closed := True\<rparr> else J) in
      case slot_at J jid of
        Some slot \<Rightarrow>
          if so_epoch slot = epoch \<and> so_running slot then put_slot J jid (finish_slot slot outcome)
          else J\<lparr>jb_closed := True\<rparr>
      | None \<Rightarrow> J\<lparr>jb_closed := True\<rparr>)"

definition take_result :: "jobs \<Rightarrow> u64 \<Rightarrow> u64 \<Rightarrow> job_kind \<Rightarrow> result_value option \<times> jobs" where
  "take_result J jid epoch kind =
     (case slot_at J jid of
        None \<Rightarrow> (None, J)
      | Some slot \<Rightarrow>
          if so_epoch slot \<noteq> epoch \<or> so_consumed slot then (None, J)
          else
            (case so_outcome slot of
               None \<Rightarrow> (None, J)
             | Some r \<Rightarrow>
                 if result_kind r \<noteq> kind then (None, J)
                 else if so_held slot
                 then (Some r, put_slot J jid (slot\<lparr>so_consumed := True, so_outcome := None\<rparr>))
                 else (Some r, remove_slot J jid)))"

definition ready_slot :: "job_kind \<Rightarrow> u64 \<times> slot \<Rightarrow> bool" where
  "ready_slot kind = (\<lambda>(_, slot). \<not> so_held slot \<and>
     (case so_outcome slot of None \<Rightarrow> False | Some r \<Rightarrow> result_kind r = kind))"

definition take_ready :: "jobs \<Rightarrow> job_kind \<Rightarrow> result_value option \<times> jobs" where
  "take_ready J kind =
     (case find (ready_slot kind) (jb_slots J) of
        None \<Rightarrow> (None, J)
      | Some (jid, slot) \<Rightarrow> (so_outcome slot, remove_slot J jid))"

definition retained :: "jobs \<Rightarrow> nat" where
  "retained J = length (jb_slots J)"

section \<open>Obligations\<close>

definition empty_slot :: slot where
  "empty_slot = \<lparr>so_snapshot = None, so_outcome = None, so_held = True, so_running = False,
     so_epoch = 0, so_releasable = False, so_consumed = False, so_phase = JobEmpty\<rparr>"

definition obligation :: "lifecycle \<Rightarrow> jobs \<Rightarrow> (refusal + u64) \<times> jobs \<times> lifecycle" where
  "obligation life J =
     (if jb_closed J \<or> \<not> is_running life then (Inl RefusalClosed, J, life)
      else if length (jb_slots J) \<ge> jb_capacity J then (Inl RefusalFull, J, life)
      else
        (case checked_add (jb_next J) 1 of
           None \<Rightarrow> (Inl RefusalClosed, J, life)
         | Some next \<Rightarrow>
             (case try_operation life of
                None \<Rightarrow> (Inl RefusalClosed, J, life)
              | Some life \<Rightarrow>
                  (Inr (jb_next J), insert_slot (J\<lparr>jb_next := next\<rparr>) (jb_next J) empty_slot, life))))"

text \<open>The closure \<^verbatim>\<open>binding_matches\<close> of a submission.\<close>

fun binding_matches :: "job_input option \<Rightarrow> string \<Rightarrow> execution_intent \<Rightarrow> bool" where
  "binding_matches (Some (InputWork (WorkAuthorize p))) request intent =
     (pd_request_id p = request \<and> pd_intent p = intent)"
| "binding_matches (Some (InputWork (WorkClose p))) request intent =
     (pd_request_id p = request \<and> pd_intent p = intent)"
| "binding_matches (Some (InputWork (WorkSettle p))) request intent =
     (ps_request_id p = request \<and>
      (case ps_tracked p of None \<Rightarrow> False | Some t \<Rightarrow> tk_intent t = intent))"
| "binding_matches _ request intent = False"

definition frozen_usage_matches :: "slot \<Rightarrow> pending_settlement \<Rightarrow> bool" where
  "frozen_usage_matches slot p =
     (case so_snapshot slot of
        Some (InputWork (WorkSettle previous)) \<Rightarrow> terminal_usage previous = terminal_usage p
      | _ \<Rightarrow> so_phase slot = JobAuthorized)"

fun next_phase :: "slot \<Rightarrow> job_input \<Rightarrow> job_phase option" where
  "next_phase slot (InputAdmission _) =
     (if so_phase slot = JobEmpty then Some JobAdmitting else None)"
| "next_phase slot (InputWork (WorkAuthorize p)) =
     (if so_phase slot = JobPrepared \<and>
         binding_matches (so_snapshot slot) (pd_request_id p) (pd_intent p)
      then Some JobAuthorizing else None)"
| "next_phase slot (InputWork (WorkClose p)) =
     (if so_phase slot = JobPrepared \<and>
         binding_matches (so_snapshot slot) (pd_request_id p) (pd_intent p)
      then Some JobClosing else None)"
| "next_phase slot (InputWork (WorkSettle p)) =
     (if so_phase slot = JobAuthorized \<or> so_phase slot = JobTerminal then
        (case ps_tracked p of
           None \<Rightarrow> None
         | Some t \<Rightarrow>
             if binding_matches (so_snapshot slot) (ps_request_id p) (tk_intent t) \<and>
                frozen_usage_matches slot p
             then Some JobTerminal else None)
      else None)"

fun authorization :: "job_input \<Rightarrow> bool" where
  "authorization (InputAdmission _) = True"
| "authorization (InputWork (WorkAuthorize _)) = True"
| "authorization _ = False"

definition submit_to_obligation ::
  "instant \<Rightarrow> bool \<Rightarrow> lifecycle \<Rightarrow> jobs \<Rightarrow> u64 \<Rightarrow> job_input \<Rightarrow> (job_input \<times> refusal + u64) \<times> jobs" where
  "submit_to_obligation now runtime life J jid input =
     (case slot_at J jid of
        None \<Rightarrow> (Inl (input, RefusalClosed), J)
      | Some slot \<Rightarrow>
          if so_running slot \<or> so_outcome slot \<noteq> None then (Inl (input, RefusalFull), J)
          else
            (case next_phase slot input of
               None \<Rightarrow> (Inl (input, RefusalClosed), J)
             | Some phase \<Rightarrow>
                 let slot = (if phase = JobTerminal
                             then slot\<lparr>so_phase := phase, so_snapshot := Some (input_snapshot input),
                                       so_releasable := False\<rparr>
                             else slot);
                     captured = put_slot J jid slot in
                 if (authorization input \<and> (jb_closed J \<or> \<not> is_running life)) \<or>
                    remaining now life = Some 0
                 then (Inl (input, RefusalClosed), captured)
                 else if \<not> runtime then (Inl (input, RefusalNoRuntime), captured)
                 else
                   (case checked_add (so_epoch slot) 1 of
                      None \<Rightarrow> (Inl (input, RefusalClosed), captured)
                    | Some epoch \<Rightarrow>
                        (Inr epoch,
                         put_slot J jid
                           (slot\<lparr>so_phase := phase, so_snapshot := Some (input_snapshot input),
                                 so_releasable := False, so_epoch := epoch, so_consumed := False,
                                 so_running := True\<rparr>)))))"

definition drop_obligation :: "jobs \<Rightarrow> u64 \<Rightarrow> jobs" where
  "drop_obligation J jid =
     (case slot_at J jid of
        None \<Rightarrow> J
      | Some slot \<Rightarrow>
          let slot = slot\<lparr>so_held := False\<rparr> in
          if \<not> so_running slot \<and> so_outcome slot = None then
            (if so_releasable slot \<or> so_snapshot slot = None then remove_slot J jid
             else put_slot J jid
                    (slot\<lparr>so_outcome := map_option input_interrupted (so_snapshot slot),
                          so_snapshot := None\<rparr>))
          else put_slot J jid slot)"

section \<open>Direct submissions\<close>

definition submit_to_jobs ::
  "bool \<Rightarrow> lifecycle \<Rightarrow> jobs \<Rightarrow> job_input \<Rightarrow> (job_input \<times> refusal + u64) \<times> jobs \<times> lifecycle" where
  "submit_to_jobs runtime life J input =
     (if \<not> runtime then (Inl (input, RefusalNoRuntime), J, life)
      else if jb_closed J \<or> \<not> is_running life then (Inl (input, RefusalClosed), J, life)
      else if length (jb_slots J) \<ge> jb_capacity J then (Inl (input, RefusalFull), J, life)
      else
        (case checked_add (jb_next J) 1 of
           None \<Rightarrow> (Inl (input, RefusalClosed), J\<lparr>jb_closed := True\<rparr>, life)
         | Some next \<Rightarrow>
             (case try_operation life of
                None \<Rightarrow> (Inl (input, RefusalClosed), J, life)
              | Some life \<Rightarrow>
                  (Inr (jb_next J),
                   insert_slot (J\<lparr>jb_next := next\<rparr>) (jb_next J)
                     (empty_slot\<lparr>so_snapshot := Some (input_snapshot input), so_held := False,
                                 so_running := True\<rparr>),
                   life))))"

section \<open>Reconciliation of abandoned settlements\<close>

text \<open>The settlement a retained slot can be reconciled with.\<close>

definition retry_work :: "slot \<Rightarrow> work option" where
  "retry_work slot =
     (case so_snapshot slot of
        Some (InputWork (WorkSettle p)) \<Rightarrow> Some (WorkSettle (settlement_snapshot p))
      | _ \<Rightarrow>
          (case so_outcome slot of
             Some (ResultWork (OutcomeSettlement (AttemptUnresolved pending _))) \<Rightarrow>
               Some (WorkSettle (settlement_snapshot pending))
           | Some (ResultWork (OutcomeInterrupted (WorkSettle p))) \<Rightarrow>
               Some (WorkSettle (settlement_snapshot p))
           | _ \<Rightarrow> None))"

definition retry_candidate :: "jobs \<Rightarrow> u64 option \<Rightarrow> (u64 \<times> slot) option" where
  "retry_candidate J after =
     find (\<lambda>(jid, slot). (case after of None \<Rightarrow> True | Some a \<Rightarrow> a < jid) \<and>
                        \<not> so_held slot \<and> \<not> so_running slot) (jb_slots J)"

text \<open>The first critical section: the job to run, the cursor and the registry.\<close>

definition retry_begin ::
  "jobs \<Rightarrow> u64 option \<Rightarrow> (u64 \<times> u64 \<times> work) option \<times> u64 option \<times> jobs" where
  "retry_begin J after =
     (case retry_candidate J after of
        None \<Rightarrow> (None, None, J)
      | Some (jid, slot) \<Rightarrow>
          if so_releasable slot then (None, Some jid, remove_slot J jid)
          else
            (case retry_work slot of
               None \<Rightarrow> (None, Some jid, J)
             | Some work \<Rightarrow>
                 (case checked_add (so_epoch slot) 1 of
                    None \<Rightarrow> (None, Some jid, J)
                  | Some epoch \<Rightarrow>
                      (Some (jid, epoch, work), Some jid,
                       put_slot J jid
                         (slot\<lparr>so_epoch := epoch, so_running := True,
                               so_snapshot := Some (InputWork (work_snapshot work)),
                               so_outcome := None\<rparr>)))))"

text \<open>The last critical section.\<close>

definition retry_end :: "jobs \<Rightarrow> u64 \<Rightarrow> jobs" where
  "retry_end J jid =
     (case slot_at J jid of
        Some slot \<Rightarrow>
          if \<not> so_held slot \<and> \<not> so_running slot \<and> so_releasable slot then remove_slot J jid else J
      | None \<Rightarrow> J)"

text \<open>
  \<^verbatim>\<open>retry_terminal\<close> when no other thread comes between its critical sections;
  \<open>access\<close> says whether the proxy state that owns the ledger is still alive.
\<close>

definition retry_terminal ::
  "calendar \<Rightarrow> usage_codec \<Rightarrow> world \<Rightarrow> try_lock \<Rightarrow> bool \<Rightarrow> jobs \<Rightarrow> proxy_ledger \<Rightarrow> u64 option \<Rightarrow>
     u64 option \<times> jobs \<times> proxy_ledger" where
  "retry_terminal K C w lock access J P after =
     (case retry_begin J after of
        (None, after, J) \<Rightarrow> (after, J, P)
      | (Some (jid, epoch, work), after, J) \<Rightarrow>
          (case (if access then (case work_run K C w lock P work of (r, P) \<Rightarrow> (Some (ResultWork r), P))
                 else (None, P)) of
             (outcome, P) \<Rightarrow> (after, retry_end (finish J jid epoch outcome) jid, P)))"

end
