(* ===== verification/Job_Runs.thy ===== *)
theory Job_Runs
  imports Jobs
begin

text \<open>
  The registry of accounting work under concurrency: every critical section of every thread is one
  step of a transition system, and the properties hold after every sequence of steps. The system
  records what it does: the inputs accepted per job, the results handed out and the jobs resolved.
\<close>

section \<open>The transition system\<close>

record job_worker =
  wk_id :: u64
  wk_epoch :: u64
  wk_input :: job_input
  wk_guarded :: bool

record job_system =
  sy_jobs :: jobs
  sy_life :: lifecycle
  sy_other :: nat
  sy_ledger :: proxy_ledger
  sy_workers :: "job_worker list"
  sy_owners :: "u64 list"
  sy_guards :: "u64 list"
  sy_log :: "(u64 \<times> job_input) list"
  sy_delivered :: "(u64 \<times> result_value) list"
  sy_handed :: "u64 list"
  sy_resolved :: "u64 list"

definition job_system_new :: "nat \<Rightarrow> lifecycle \<Rightarrow> nat \<Rightarrow> proxy_ledger \<Rightarrow> job_system" where
  "job_system_new capacity life other P =
     \<lparr>sy_jobs = jobs_new capacity, sy_life = life, sy_other = other, sy_ledger = P, sy_workers = [],
      sy_owners = [], sy_guards = [], sy_log = [], sy_delivered = [], sy_handed = [], sy_resolved = []\<rparr>"

text \<open>The operation guard of a job is shared by its obligation and its worker.\<close>

definition release_guard :: "job_system \<Rightarrow> u64 \<Rightarrow> job_system" where
  "release_guard s i =
     (if i \<in> set (sy_guards s) \<and> i \<notin> set (sy_owners s) \<and>
         (\<forall>wk \<in> set (sy_workers s). wk_guarded wk \<longrightarrow> wk_id wk \<noteq> i)
      then s\<lparr>sy_guards := remove1 i (sy_guards s), sy_life := drop_operation (sy_life s)\<rparr> else s)"

text \<open>A worker publishes its result, or its interruption, and drops its guard.\<close>

definition publish :: "job_system \<Rightarrow> job_worker \<Rightarrow> result_value option \<Rightarrow> proxy_ledger \<Rightarrow> job_system" where
  "publish s wk outcome P =
     release_guard
       (s\<lparr>sy_jobs := finish (sy_jobs s) (wk_id wk) (wk_epoch wk) outcome, sy_ledger := P,
          sy_workers := remove1 wk (sy_workers s),
          sy_resolved := (if result_releasable outcome then wk_id wk # sy_resolved s
                          else sy_resolved s)\<rparr>) (wk_id wk)"

inductive job_step :: "calendar \<Rightarrow> usage_codec \<Rightarrow> job_system \<Rightarrow> job_system \<Rightarrow> bool"
  for K :: calendar and C :: usage_codec where
  oblige: "obligation (sy_life s) (sy_jobs s) = (Inr i, J, l) \<Longrightarrow>
    job_step K C s (s\<lparr>sy_jobs := J, sy_life := l, sy_owners := i # sy_owners s,
                      sy_guards := i # sy_guards s\<rparr>)"
| accept: "i \<in> set (sy_owners s) \<Longrightarrow>
    submit_to_obligation now runtime (sy_life s) (sy_jobs s) i input = (Inr e, J) \<Longrightarrow>
    job_step K C s (s\<lparr>sy_jobs := J, sy_log := sy_log s @ [(i, input)],
                      sy_workers := \<lparr>wk_id = i, wk_epoch = e, wk_input = input, wk_guarded = True\<rparr> #
                                    sy_workers s\<rparr>)"
| refuse: "i \<in> set (sy_owners s) \<Longrightarrow>
    submit_to_obligation now runtime (sy_life s) (sy_jobs s) i input = (Inl r, J) \<Longrightarrow>
    job_step K C s (s\<lparr>sy_jobs := J\<rparr>)"
| direct: "submit_to_jobs runtime (sy_life s) (sy_jobs s) input = (Inr i, J, l) \<Longrightarrow>
    job_step K C s (s\<lparr>sy_jobs := J, sy_life := l, sy_log := sy_log s @ [(i, input)],
                      sy_guards := i # sy_guards s,
                      sy_workers := \<lparr>wk_id = i, wk_epoch = 0, wk_input = input, wk_guarded = True\<rparr> #
                                    sy_workers s\<rparr>)"
| direct_refused: "submit_to_jobs runtime (sy_life s) (sy_jobs s) input = (Inl r, J, l) \<Longrightarrow>
    job_step K C s (s\<lparr>sy_jobs := J, sy_life := l\<rparr>)"
| complete: "wk \<in> set (sy_workers s) \<Longrightarrow>
    run_input K C w lock (sy_life s) (sy_ledger s) (wk_input wk) = (r, P) \<Longrightarrow>
    job_step K C s (publish s wk (Some r) P)"
| interrupt: "wk \<in> set (sy_workers s) \<Longrightarrow> job_step K C s (publish s wk None P)"
| take: "take_result (sy_jobs s) i e kind = (Some r, J) \<Longrightarrow>
    job_step K C s (s\<lparr>sy_jobs := J, sy_delivered := sy_delivered s @ [(i, r)],
      sy_handed := (if slot_at J i = None then i # sy_handed s else sy_handed s)\<rparr>)"
| ready: "find (ready_slot kind) (jb_slots (sy_jobs s)) = Some (i, slot) \<Longrightarrow>
    take_ready (sy_jobs s) kind = (Some r, J) \<Longrightarrow>
    job_step K C s (s\<lparr>sy_jobs := J, sy_delivered := sy_delivered s @ [(i, r)],
                      sy_handed := i # sy_handed s\<rparr>)"
| disown: "i \<in> set (sy_owners s) \<Longrightarrow>
    job_step K C s
      (release_guard (s\<lparr>sy_jobs := drop_obligation (sy_jobs s) i,
                        sy_owners := remove1 i (sy_owners s)\<rparr>) i)"
| reconcile: "retry_begin (sy_jobs s) after = (Some (i, e, work), after', J) \<Longrightarrow>
    job_step K C s (s\<lparr>sy_jobs := J, sy_log := sy_log s @ [(i, InputWork work)],
      sy_workers := \<lparr>wk_id = i, wk_epoch = e, wk_input = InputWork work, wk_guarded = False\<rparr> #
                    sy_workers s\<rparr>)"
| reconcile_none: "retry_begin (sy_jobs s) after = (None, after', J) \<Longrightarrow>
    job_step K C s (s\<lparr>sy_jobs := J\<rparr>)"
| reconciled: "job_step K C s (s\<lparr>sy_jobs := retry_end (sy_jobs s) i\<rparr>)"
| lifecycle: "lifecycle_step (sy_life s, sy_other s) c (l, n) \<Longrightarrow>
    job_step K C s (s\<lparr>sy_life := l, sy_other := n\<rparr>)"
| ledger: "job_step K C s (s\<lparr>sy_ledger := P\<rparr>)"

inductive job_run :: "calendar \<Rightarrow> usage_codec \<Rightarrow> job_system \<Rightarrow> job_system \<Rightarrow> bool"
  for K :: calendar and C :: usage_codec where
  stay: "job_run K C s s"
| more: "job_run K C s t \<Longrightarrow> job_step K C t u \<Longrightarrow> job_run K C s u"

section \<open>What a job is allowed to be\<close>

definition settles_same :: "pending_settlement \<Rightarrow> pending_settlement \<Rightarrow> bool" where
  "settles_same p q \<longleftrightarrow>
     ps_request_id p = ps_request_id q \<and>
     map_option tk_intent (ps_tracked p) = map_option tk_intent (ps_tracked q) \<and>
     terminal_usage p = terminal_usage q \<and> (ps_tracked p = None \<longrightarrow> p = q)"

definition retries :: "pending_settlement \<Rightarrow> job_input \<Rightarrow> bool" where
  "retries p i = (case i of InputWork (WorkSettle q) \<Rightarrow> settles_same p q | _ \<Rightarrow> False)"

definition executes :: "pending_dispatch \<Rightarrow> pending_settlement \<Rightarrow> bool" where
  "executes p q \<longleftrightarrow>
     pd_request_id p = ps_request_id q \<and> map_option tk_intent (ps_tracked q) = Some (pd_intent p)"

fun follows :: "job_input \<Rightarrow> job_input list \<Rightarrow> bool" where
  "follows (InputWork (WorkSettle p)) rest = list_all (retries p) rest"
| "follows (InputWork _) rest = (rest = [])"
| "follows (InputAdmission a) rest =
     (case rest of
        [] \<Rightarrow> True
      | InputWork (WorkClose p) # rest \<Rightarrow> rest = []
      | InputWork (WorkAuthorize p) # rest \<Rightarrow>
          (case rest of
             [] \<Rightarrow> True
           | InputWork (WorkSettle q) # rest \<Rightarrow> executes p q \<and> list_all (retries q) rest
           | _ \<Rightarrow> False)
      | _ \<Rightarrow> False)"

text \<open>
  The inputs of one job: a work submitted directly, which only a settlement repeats; or one
  admission, then either one closure, or one authorisation and settlements of that execution with
  one frozen usage.
\<close>

definition job_log :: "job_input list \<Rightarrow> bool" where
  "job_log xs = (case xs of [] \<Rightarrow> True | i # rest \<Rightarrow> follows i rest)"

lemma settles_same_refl [simp]: "settles_same p p"
  by (simp add: settles_same_def)

lemma settles_same_trans: "settles_same p q \<Longrightarrow> settles_same q r \<Longrightarrow> settles_same p r"
  by (auto simp: settles_same_def)

lemma executes_same: "executes p q \<Longrightarrow> settles_same q r \<Longrightarrow> executes p r"
  unfolding executes_def settles_same_def by metis

lemma retries_settle [simp]: "retries p (InputWork (WorkSettle q)) = settles_same p q"
  by (simp add: retries_def)

lemma snapshot_id [simp]:
  "settlement_snapshot p = p" "work_snapshot x = x" "input_snapshot i = i"
proof -
  show p: "settlement_snapshot p = p" for p
    by (cases p; cases "ps_tracked p") (auto simp: settlement_snapshot_def)
  show x: "work_snapshot x = x" for x
    by (cases x) (simp_all add: p)
  show "input_snapshot i = i"
    by (cases i) (simp_all add: x)
qed

text \<open>A log that a settlement may extend may be extended by its retries.\<close>

lemma follows_settle:
  assumes "follows i (xs @ [InputWork (WorkSettle q)])" and "settles_same q q'"
  shows "follows i (xs @ [InputWork (WorkSettle q')])"
    and "follows i (xs @ [InputWork (WorkSettle q), InputWork (WorkSettle q')])"
proof -
  have same: "settles_same p q \<Longrightarrow> settles_same p q'" for p
    using assms(2) settles_same_trans by blast
  have "follows i (xs @ [InputWork (WorkSettle q')]) \<and>
        follows i (xs @ [InputWork (WorkSettle q), InputWork (WorkSettle q')])"
  proof (cases i)
    case (InputWork x)
    with assms(1) same show ?thesis by (cases x) auto
  next
    case (InputAdmission a)
    with assms(1) obtain p rest where xs: "xs = InputWork (WorkAuthorize p) # rest"
      by (cases xs) (auto split: job_input.split_asm work.split_asm list.split_asm)
    show ?thesis
      using assms same executes_same [of p q q']
      by (cases rest) (auto simp: InputAdmission xs split: job_input.splits work.splits)
  qed
  then show "follows i (xs @ [InputWork (WorkSettle q')])"
    and "follows i (xs @ [InputWork (WorkSettle q), InputWork (WorkSettle q')])" by simp_all
qed

lemma job_log_settle:
  assumes "job_log (xs @ [InputWork (WorkSettle q)])" and "settles_same q q'"
  shows "job_log (xs @ [InputWork (WorkSettle q')])"
    and "job_log (xs @ [InputWork (WorkSettle q), InputWork (WorkSettle q')])"
  using assms follows_settle [of _ _ q q'] by (cases xs; auto simp: job_log_def)+

section \<open>The registry as a map\<close>

lemma map_of_filter_neq: "map_of (filter (\<lambda>(i, _). i \<noteq> k) xs) j = (if j = k then None else map_of xs j)"
  by (induction xs) auto

lemma map_of_update: "map_of (map (\<lambda>(i, y). (i, if i = k then v else y)) xs) j =
    (if j = k \<and> map_of xs k \<noteq> None then Some v else map_of xs j)"
  by (induction xs) auto

lemma map_of_insort: "k \<notin> fst ` set xs \<Longrightarrow>
    map_of (insort_key fst (k, v) xs) j = (if j = k then Some v else map_of xs j)"
  by (induction xs) auto

lemma slot_at_put [simp]: "slot_at (put_slot J i s) j =
    (if j = i \<and> slot_at J i \<noteq> None then Some s else slot_at J j)"
  by (simp add: slot_at_def put_slot_def map_of_update)

lemma slot_at_remove [simp]: "slot_at (remove_slot J i) j = (if j = i then None else slot_at J j)"
  by (simp add: slot_at_def remove_slot_def map_of_filter_neq)

lemma slot_at_insert [simp]: "slot_at (insert_slot J i s) j = (if j = i then Some s else slot_at J j)"
proof -
  have "i \<notin> fst ` set (filter (\<lambda>(k, _). k \<noteq> i) (jb_slots J))" by auto
  from map_of_insort [OF this] show ?thesis
    by (simp add: slot_at_def insert_slot_def map_of_filter_neq)
qed

lemma slot_at_fields [simp]: "slot_at (J\<lparr>jb_next := n\<rparr>) i = slot_at J i"
  "slot_at (J\<lparr>jb_closed := b\<rparr>) i = slot_at J i" "slot_at (jobs_new c) i = None"
  by (simp_all add: slot_at_def jobs_new_def)

definition registry_ok :: "jobs \<Rightarrow> bool" where
  "registry_ok J \<longleftrightarrow> distinct (map fst (jb_slots J)) \<and> length (jb_slots J) \<le> jb_capacity J"

lemma fst_update: "map fst (map (\<lambda>(i, y). (i, if i = k then v else y)) xs) = map fst xs"
  by (induction xs) auto

lemma registry_put [simp]: "registry_ok (put_slot J i s) = registry_ok J"
  by (simp add: registry_ok_def put_slot_def fst_update del: map_map)

lemma registry_remove: "registry_ok J \<Longrightarrow> registry_ok (remove_slot J i)"
  by (auto simp: registry_ok_def remove_slot_def
      intro: distinct_fst_filter le_trans [OF length_filter_le])

lemma distinct_insort_fst: "k \<notin> fst ` set xs \<Longrightarrow> distinct (map fst xs) \<Longrightarrow>
    distinct (map fst (insort_key fst (k, v) xs))"
  by (induction xs) (auto simp: set_insort_key)

lemma registry_insert:
  "registry_ok J \<Longrightarrow> length (jb_slots J) < jb_capacity J \<Longrightarrow> registry_ok (insert_slot J i s)"
  by (auto simp: registry_ok_def insert_slot_def Suc_le_eq
      intro!: distinct_insort_fst distinct_fst_filter intro: le_less_trans [OF length_filter_le])

lemma registry_fields [simp]: "registry_ok (J\<lparr>jb_next := n\<rparr>) = registry_ok J"
  "registry_ok (J\<lparr>jb_closed := b\<rparr>) = registry_ok J" "registry_ok (jobs_new c)"
  by (simp_all add: registry_ok_def jobs_new_def)

lemma slot_fields [simp]:
  "jb_next (put_slot J i s) = jb_next J" "jb_capacity (put_slot J i s) = jb_capacity J"
  "jb_next (remove_slot J i) = jb_next J" "jb_capacity (remove_slot J i) = jb_capacity J"
  "jb_next (insert_slot J i s) = jb_next J" "jb_capacity (insert_slot J i s) = jb_capacity J"
  by (simp_all add: put_slot_def remove_slot_def insert_slot_def)

lemma slot_found: "registry_ok J \<Longrightarrow> find P (jb_slots J) = Some (i, s) \<Longrightarrow> slot_at J i = Some s \<and> P (i, s)"
  by (auto simp: registry_ok_def slot_at_def find_Some_iff)

section \<open>One slot\<close>

definition retained_settlement :: "slot \<Rightarrow> pending_settlement \<Rightarrow> bool" where
  "retained_settlement slot p \<longleftrightarrow>
     so_snapshot slot = Some (InputWork (WorkSettle p)) \<or>
     (\<exists>f. so_outcome slot = Some (ResultWork (OutcomeSettlement (AttemptUnresolved p f)))) \<or>
     so_outcome slot = Some (ResultWork (OutcomeInterrupted (WorkSettle p)))"

definition held_ok :: "slot \<Rightarrow> job_input list \<Rightarrow> bool" where
  "held_ok slot xs =
     (case so_phase slot of
        JobEmpty \<Rightarrow> xs = [] \<and> so_snapshot slot = None \<and> so_outcome slot = None \<and> \<not> so_running slot
      | JobAdmitting \<Rightarrow> so_running slot \<and>
          (\<exists>a. xs = [InputAdmission a] \<and> so_snapshot slot = Some (InputAdmission a))
      | JobPrepared \<Rightarrow> \<not> so_running slot \<and>
          (\<exists>a p. xs = [InputAdmission a] \<and> so_snapshot slot = Some (InputWork (WorkClose p)))
      | JobAuthorizing \<Rightarrow> so_running slot \<and>
          (\<exists>a p. xs = [InputAdmission a, InputWork (WorkAuthorize p)] \<and>
             so_snapshot slot = Some (InputWork (WorkAuthorize p)))
      | JobAuthorized \<Rightarrow> \<not> so_running slot \<and>
          (\<exists>a p. xs = [InputAdmission a, InputWork (WorkAuthorize p)] \<and>
             so_snapshot slot = Some (InputWork (WorkAuthorize p)))
      | JobClosing \<Rightarrow> so_running slot \<and>
          (\<exists>p. so_snapshot slot = Some (InputWork (WorkClose p)))
      | JobTerminal \<Rightarrow> \<exists>q t. so_snapshot slot = Some (InputWork (WorkSettle q)) \<and> ps_tracked q = Some t
      | JobResolved \<Rightarrow> \<not> so_running slot \<and> so_snapshot slot \<noteq> None
      | JobUncertain \<Rightarrow> \<not> so_running slot \<and> so_snapshot slot \<noteq> None)"

definition slot_ok :: "slot \<Rightarrow> job_input list \<Rightarrow> bool" where
  "slot_ok slot xs \<longleftrightarrow>
     job_log xs \<and> (so_running slot \<longrightarrow> so_outcome slot = None \<and> so_snapshot slot \<noteq> None) \<and>
     (\<forall>p. retained_settlement slot p \<longrightarrow> job_log (xs @ [InputWork (WorkSettle p)])) \<and>
     (so_held slot \<longrightarrow> held_ok slot xs)"

text \<open>What running an input can answer.\<close>

fun answers :: "job_input \<Rightarrow> result_value \<Rightarrow> bool" where
  "answers (InputAdmission a) r = (\<exists>x. r = ResultAdmission x)"
| "answers (InputWork (WorkAuthorize p)) r = (\<exists>x. r = ResultWork (OutcomeDispatch x))"
| "answers (InputWork (WorkClose p)) r =
     (\<exists>x. r = ResultWork (OutcomeDispatch x) \<and> (\<forall>y. x \<noteq> AttemptAuthorized y))"
| "answers (InputWork (WorkSettle p)) r =
     ((\<exists>i x. r = ResultWork (OutcomeSettlement (AttemptCommitted i x))) \<or>
      (\<exists>q f. r = ResultWork (OutcomeSettlement (AttemptUnresolved q f)) \<and> settles_same p q))"

lemma commit_operation_same: "commit_operation K C w p S = (r, q, S') \<Longrightarrow> settles_same p q"
  by (auto simp: commit_operation_def settles_same_def terminal_usage_def
      split: option.split_asm prod.split_asm sum.split_asm)

lemma try_commit_answers:
  "answers (InputWork (WorkSettle p)) (ResultWork (OutcomeSettlement (fst (try_commit K C w lock P p))))"
  by (auto simp: try_commit_def with_durable_ledger_def dest: commit_operation_same
      split: prod.split sum.split try_lock.split proxy_ledger.split)

lemma try_close_answers: "fst (try_close K C w lock P p) \<noteq> AttemptAuthorized x"
  by (auto simp: try_close_def split: prod.split sum.split closure_outcome.split)

lemma run_input_answers:
  assumes "run_input K C w lock life P i = (r, P')"
  shows "answers i r"
  using assms
proof (induction K C w lock life P i rule: run_input.induct)
  case (1 K C w lock life P x)
  show ?case
  proof (cases x)
    case (WorkClose p)
    with 1 try_close_answers [of K C w lock P p] show ?thesis
      by (cases "try_close K C w lock P p") auto
  next
    case (WorkSettle p)
    with 1 try_commit_answers [of p K C w lock P] show ?thesis
      by (cases "try_commit K C w lock P p") auto
  qed (use 1 in \<open>auto split: prod.split_asm\<close>)
qed (auto split: prod.split_asm)

lemma retained_cases:
  assumes "slot_ok slot xs"
  shows "so_snapshot slot = Some (InputWork (WorkSettle p)) \<Longrightarrow> job_log (xs @ [InputWork (WorkSettle p)])"
    and "so_outcome slot = Some (ResultWork (OutcomeSettlement (AttemptUnresolved p f))) \<Longrightarrow>
      job_log (xs @ [InputWork (WorkSettle p)])"
    and "so_outcome slot = Some (ResultWork (OutcomeInterrupted (WorkSettle p))) \<Longrightarrow>
      job_log (xs @ [InputWork (WorkSettle p)])"
  using assms by (auto simp: slot_ok_def retained_settlement_def)

lemma prepared_snapshot_settle:
  "prepared_snapshot s r = Some (InputWork (WorkSettle p)) \<Longrightarrow> s = Some (InputWork (WorkSettle p))"
  by (cases "(s, r)" rule: prepared_snapshot.cases) auto

lemma finish_retained:
  assumes "slot_ok slot xs" and "so_snapshot slot = Some i" and "answers i r"
    and "retained_settlement (finish_slot slot (Some r)) p"
  shows "job_log (xs @ [InputWork (WorkSettle p)])"
proof -
  consider "so_snapshot slot = Some (InputWork (WorkSettle p))"
    | f where "r = ResultWork (OutcomeSettlement (AttemptUnresolved p f))"
    | "r = ResultWork (OutcomeInterrupted (WorkSettle p))"
    using assms(4)
    by (auto simp: retained_settlement_def finish_slot_def Let_def split: if_split_asm
        dest: prepared_snapshot_settle)
  then show ?thesis
  proof cases
    case 1
    then show ?thesis by (rule retained_cases(1) [OF assms(1)])
  next
    case 2
    with assms(3) obtain q where "i = InputWork (WorkSettle q)" and "settles_same q p"
      by (cases "(i, r)" rule: answers.cases) auto
    with assms(2) show ?thesis using job_log_settle(1) retained_cases(1) [OF assms(1)] by blast
  next
    case 3
    with assms(3) show ?thesis by (cases "(i, r)" rule: answers.cases) auto
  qed
qed

lemma finish_held:
  assumes "held_ok slot xs" and "so_running slot" and "so_snapshot slot = Some i" and "answers i r"
    and "so_held slot"
  shows "held_ok (finish_slot slot (Some r)) xs"
proof (cases "so_phase slot")
  case JobAdmitting
  with assms obtain x where "r = ResultAdmission x" by (auto simp: held_ok_def)
  with JobAdmitting assms show ?thesis by (cases x) (auto simp: held_ok_def finish_slot_def)
next
  case JobAuthorizing
  with assms obtain x where "r = ResultWork (OutcomeDispatch x)" by (auto simp: held_ok_def)
  with JobAuthorizing assms show ?thesis by (cases x) (auto simp: held_ok_def finish_slot_def)
next
  case JobClosing
  with assms obtain x where "r = ResultWork (OutcomeDispatch x)" by (auto simp: held_ok_def)
  with JobClosing assms show ?thesis by (cases x) (auto simp: held_ok_def finish_slot_def)
next
  case JobTerminal
  with assms show ?thesis
    by (auto simp: held_ok_def finish_slot_def)
qed (use assms in \<open>auto simp: held_ok_def\<close>)

lemma finish_slot_ok:
  assumes "slot_ok slot xs" and "so_running slot" and "so_snapshot slot = Some i" and "answers i r"
  shows "slot_ok (finish_slot slot (Some r)) xs"
  unfolding slot_ok_def
proof (intro conjI impI allI)
  show "job_log xs" using assms(1) by (simp add: slot_ok_def)
  show "job_log (xs @ [InputWork (WorkSettle p)])"
    if "retained_settlement (finish_slot slot (Some r)) p" for p
    using finish_retained [OF assms(1,3,4) that] .
  show "held_ok (finish_slot slot (Some r)) xs" if "so_held (finish_slot slot (Some r))"
    using that assms finish_held by (auto simp: slot_ok_def finish_slot_def Let_def)
qed (simp_all add: finish_slot_def Let_def)

lemma interrupt_slot_ok:
  assumes "slot_ok slot xs" and "so_running slot" and "so_snapshot slot = Some i"
  shows "slot_ok (finish_slot slot None) xs"
proof -
  have "job_log (xs @ [InputWork (WorkSettle p)])" if "retained_settlement (finish_slot slot None) p" for p
  proof -
    have "i = InputWork (WorkSettle p)"
      using that assms(3)
      by (cases i) (auto simp: retained_settlement_def finish_slot_def Let_def split: if_split_asm)
    with assms show ?thesis using retained_cases(1) by blast
  qed
  moreover have "held_ok (finish_slot slot None) xs" if "so_held slot"
    using assms that
    by (cases "so_phase slot") (auto simp: held_ok_def finish_slot_def slot_ok_def)
  ultimately show ?thesis
    using assms by (auto simp: slot_ok_def finish_slot_def Let_def)
qed

lemma next_phase_settle:
  assumes "slot_ok slot xs" and "so_held slot" and "next_phase slot (InputWork (WorkSettle q)) = Some phase"
  shows "phase = JobTerminal" and "job_log (xs @ [InputWork (WorkSettle q)])"
    and "\<exists>t. ps_tracked q = Some t"
proof -
  have held: "held_ok slot xs" and "job_log xs" using assms(1,2) by (simp_all add: slot_ok_def)
  from assms(3) obtain t where t: "ps_tracked q = Some t"
    "binding_matches (so_snapshot slot) (ps_request_id q) (tk_intent t)" "frozen_usage_matches slot q"
    and phase: "so_phase slot = JobAuthorized \<or> so_phase slot = JobTerminal" "phase = JobTerminal"
    by (auto split: if_split_asm option.split_asm)
  then show "phase = JobTerminal" and "\<exists>t. ps_tracked q = Some t" by simp_all
  show "job_log (xs @ [InputWork (WorkSettle q)])"
  proof (cases "so_phase slot = JobAuthorized")
    case True
    with held t show ?thesis by (auto simp: held_ok_def job_log_def executes_def)
  next
    case False
    with phase held obtain q0 t0 where q0: "so_snapshot slot = Some (InputWork (WorkSettle q0))"
      "ps_tracked q0 = Some t0" by (auto simp: held_ok_def)
    with t have "settles_same q0 q"
      by (auto simp: settles_same_def frozen_usage_matches_def)
    with q0 show ?thesis using job_log_settle(1) retained_cases(1) [OF assms(1)] by blast
  qed
qed

lemma next_phase_accepts:
  assumes "slot_ok slot xs" and "so_held slot" and "\<not> so_running slot" and "so_outcome slot = None"
    and "next_phase slot i = Some phase"
  shows "slot_ok (slot\<lparr>so_phase := phase, so_snapshot := Some i, so_releasable := False,
      so_epoch := e, so_consumed := c, so_running := True\<rparr>) (xs @ [i])"
proof -
  have held: "held_ok slot xs" using assms(1,2) by (simp add: slot_ok_def)
  show ?thesis
  proof (cases "\<exists>q. i = InputWork (WorkSettle q)")
    case True
    then obtain q where i: "i = InputWork (WorkSettle q)" ..
    note q = next_phase_settle [OF assms(1,2) assms(5) [unfolded i]]
    have "job_log (xs @ [i, i])" using job_log_settle(2) [OF q(2)] by (simp add: i)
    with q assms(4) show ?thesis
      by (auto simp: i slot_ok_def held_ok_def retained_settlement_def)
  next
    case False
    then show ?thesis
      using held assms(4,5)
      by (cases "(slot, i)" rule: next_phase.cases)
        (auto simp: slot_ok_def held_ok_def retained_settlement_def job_log_def split: if_split_asm)
  qed
qed

lemma next_phase_captures:
  assumes "slot_ok slot xs" and "so_held slot" and "\<not> so_running slot" and "so_outcome slot = None"
    and "next_phase slot i = Some JobTerminal"
  shows "slot_ok (slot\<lparr>so_phase := JobTerminal, so_snapshot := Some i, so_releasable := False\<rparr>) xs"
proof -
  from assms(5) obtain q where i: "i = InputWork (WorkSettle q)"
    by (cases "(slot, i)" rule: next_phase.cases) (auto split: if_split_asm)
  note q = next_phase_settle [OF assms(1,2) assms(5) [unfolded i]]
  have "job_log xs" using assms(1) by (simp add: slot_ok_def)
  with q assms show ?thesis by (auto simp: i slot_ok_def held_ok_def retained_settlement_def)
qed

lemma retry_slot_ok:
  assumes "slot_ok slot xs" and "\<not> so_held slot" and "retry_work slot = Some x"
  shows "slot_ok (slot\<lparr>so_epoch := e, so_running := True, so_snapshot := Some (InputWork x),
      so_outcome := None\<rparr>) (xs @ [InputWork x])"
proof -
  from assms(3) obtain p where x: "x = WorkSettle p" and "retained_settlement slot p"
    by (auto simp: retry_work_def retained_settlement_def
        split: option.split_asm job_input.split_asm work.split_asm result_value.split_asm
          outcome.split_asm attempt.split_asm)
  with assms(1) have p: "job_log (xs @ [InputWork (WorkSettle p)])" by (simp add: slot_ok_def)
  from this job_log_settle(2) [OF p settles_same_refl] assms(2) show ?thesis
    by (auto simp: x slot_ok_def retained_settlement_def)
qed

lemma drop_slot_ok:
  assumes "slot_ok slot xs"
  shows "slot_ok (slot\<lparr>so_held := False\<rparr>) xs"
    and "\<not> so_running slot \<Longrightarrow>
      slot_ok (slot\<lparr>so_held := False, so_outcome := map_option input_interrupted (so_snapshot slot),
        so_snapshot := None\<rparr>) xs"
proof -
  show "slot_ok (slot\<lparr>so_held := False\<rparr>) xs"
    using assms by (auto simp: slot_ok_def retained_settlement_def)
  have "job_log (xs @ [InputWork (WorkSettle p)])"
    if "retained_settlement (slot\<lparr>so_held := False,
      so_outcome := map_option input_interrupted (so_snapshot slot), so_snapshot := None\<rparr>) p" for p
  proof (cases "so_snapshot slot")
    case (Some i)
    with that have "i = InputWork (WorkSettle p)"
      by (cases i) (auto simp: retained_settlement_def)
    with Some show ?thesis using retained_cases(1) [OF assms] by simp
  qed (use that in \<open>simp add: retained_settlement_def\<close>)
  then show "\<not> so_running slot \<Longrightarrow>
      slot_ok (slot\<lparr>so_held := False, so_outcome := map_option input_interrupted (so_snapshot slot),
        so_snapshot := None\<rparr>) xs"
    using assms by (simp add: slot_ok_def)
qed

lemma take_slot_ok:
  assumes "slot_ok slot xs" and "so_outcome slot \<noteq> None"
  shows "slot_ok (slot\<lparr>so_consumed := True, so_outcome := None\<rparr>) xs"
  using assms
  by (auto simp: slot_ok_def retained_settlement_def held_ok_def split: job_phase.split_asm)

section \<open>The invariant\<close>

definition inputs_of :: "job_system \<Rightarrow> u64 \<Rightarrow> job_input list" where
  "inputs_of s i = map snd (filter (\<lambda>(j, _). j = i) (sy_log s))"

fun is_permit :: "result_value \<Rightarrow> bool" where
  "is_permit (ResultWork (OutcomeDispatch (AttemptAuthorized _))) = True"
| "is_permit _ = False"

definition permits_of :: "job_system \<Rightarrow> u64 \<Rightarrow> nat" where
  "permits_of s i = length (filter (\<lambda>(j, r). j = i \<and> is_permit r) (sy_delivered s))"

fun is_authorize :: "job_input \<Rightarrow> bool" where
  "is_authorize (InputWork (WorkAuthorize _)) = True"
| "is_authorize _ = False"

definition authorizations :: "job_input list \<Rightarrow> nat" where
  "authorizations xs = length (filter is_authorize xs)"

text \<open>Permits a slot holds or may still produce.\<close>

definition permit_load :: "slot \<Rightarrow> nat" where
  "permit_load slot =
     (case so_outcome slot of Some r \<Rightarrow> if is_permit r then 1 else 0 | None \<Rightarrow> 0) +
     (case so_snapshot slot of Some i \<Rightarrow> if so_running slot \<and> is_authorize i then 1 else 0 | None \<Rightarrow> 0)"

definition worker_of :: "job_worker list \<Rightarrow> u64 \<Rightarrow> job_worker list" where
  "worker_of ws i = filter (\<lambda>wk. wk_id wk = i) ws"

definition entry_ok :: "job_system \<Rightarrow> u64 \<Rightarrow> bool" where
  "entry_ok s i =
     (case slot_at (sy_jobs s) i of
        None \<Rightarrow>
          i \<notin> set (sy_owners s) \<and> worker_of (sy_workers s) i = [] \<and> job_log (inputs_of s i) \<and>
          permits_of s i \<le> authorizations (inputs_of s i) \<and>
          (inputs_of s i = [] \<or> i < jb_next (sy_jobs s) \<and> (i \<in> set (sy_handed s) \<or> i \<in> set (sy_resolved s)))
      | Some slot \<Rightarrow>
          i < jb_next (sy_jobs s) \<and> slot_ok slot (inputs_of s i) \<and>
          (so_held slot \<longleftrightarrow> i \<in> set (sy_owners s)) \<and>
          (\<forall>wk \<in> set (worker_of (sy_workers s) i).
             wk_epoch wk = so_epoch slot \<and> so_snapshot slot = Some (wk_input wk)) \<and>
          length (worker_of (sy_workers s) i) = (if so_running slot then 1 else 0) \<and>
          permits_of s i + permit_load slot \<le> authorizations (inputs_of s i) \<and>
          (so_releasable slot \<longrightarrow> i \<in> set (sy_resolved s)))"

definition guards_ok :: "job_system \<Rightarrow> bool" where
  "guards_ok s \<longleftrightarrow>
     lifecycle_inv (sy_life s, sy_other s + length (sy_guards s)) \<and> distinct (sy_guards s) \<and>
     distinct (sy_owners s) \<and>
     set (sy_guards s) = set (sy_owners s) \<union> set (map wk_id (filter wk_guarded (sy_workers s)))"

definition job_inv :: "job_system \<Rightarrow> bool" where
  "job_inv s \<longleftrightarrow> registry_ok (sy_jobs s) \<and> guards_ok s \<and> (\<forall>i. entry_ok s i)"

text \<open>A step touches one job.\<close>

lemma entry_frame:
  assumes "entry_ok s j" and "slot_at (sy_jobs t) j = slot_at (sy_jobs s) j"
    and "inputs_of t j = inputs_of s j" and "permits_of t j = permits_of s j"
    and "j \<in> set (sy_owners t) \<longleftrightarrow> j \<in> set (sy_owners s)"
    and "worker_of (sy_workers t) j = worker_of (sy_workers s) j"
    and "jb_next (sy_jobs s) \<le> jb_next (sy_jobs t)"
    and "j \<in> set (sy_handed s) \<Longrightarrow> j \<in> set (sy_handed t)"
    and "j \<in> set (sy_resolved s) \<Longrightarrow> j \<in> set (sy_resolved t)"
  shows "entry_ok t j"
proof -
  have "j < jb_next (sy_jobs s) \<longrightarrow> j < jb_next (sy_jobs t)" using assms(7) by auto
  with assms(1,8,9) show ?thesis
    by (cases "slot_at (sy_jobs s) j") (simp_all add: entry_ok_def assms(2-6), blast+)
qed

lemma inputs_of_append [simp]:
  "sy_log t = sy_log s @ [(i, x)] \<Longrightarrow> inputs_of t j = inputs_of s j @ (if j = i then [x] else [])"
  by (simp add: inputs_of_def)

lemma worker_of_Cons [simp]:
  "worker_of (wk # ws) j = (if wk_id wk = j then wk # worker_of ws j else worker_of ws j)"
  by (simp add: worker_of_def)

lemma worker_of_remove1: "worker_of (remove1 wk ws) j = (if wk_id wk = j then remove1 wk (worker_of ws j) else worker_of ws j)"
  by (simp add: worker_of_def filter_remove1)

lemma release_guard_fields [simp]:
  "sy_jobs (release_guard s i) = sy_jobs s" "sy_owners (release_guard s i) = sy_owners s"
  "sy_workers (release_guard s i) = sy_workers s" "sy_log (release_guard s i) = sy_log s"
  "sy_delivered (release_guard s i) = sy_delivered s" "sy_handed (release_guard s i) = sy_handed s"
  "sy_resolved (release_guard s i) = sy_resolved s" "sy_other (release_guard s i) = sy_other s"
  by (simp_all add: release_guard_def)

lemma lifecycle_drop: "lifecycle_inv (l, Suc n) \<Longrightarrow> lifecycle_inv (drop_operation l, n)"
  using lifecycle_step_inv [OF lifecycle_step.release] .

lemma lifecycle_admit: "lifecycle_inv (l, n) \<Longrightarrow> try_operation l = Some l' \<Longrightarrow> lifecycle_inv (l', Suc n)"
  using lifecycle_step_inv [OF lifecycle_step.admit] .

lemma lifecycle_step_more:
  assumes "lifecycle_step (l, n) c (l', n')"
  shows "lifecycle_step (l, n + m) c (l', n' + m)"
  using assms by (cases rule: lifecycle_step.cases) (auto intro: lifecycle_step.intros)

lemma release_guard_ok:
  assumes "lifecycle_inv (sy_life s, sy_other s + length (sy_guards s))" and "distinct (sy_guards s)"
    and "distinct (sy_owners s)"
    and "set (sy_guards s) - {i} =
      set (sy_owners s) \<union> set (map wk_id (filter wk_guarded (sy_workers s))) - {i}"
    and "i \<in> set (sy_guards s)"
  shows "guards_ok (release_guard s i)"
proof -
  let ?live = "set (sy_owners s) \<union> set (map wk_id (filter wk_guarded (sy_workers s)))"
  show ?thesis
  proof (cases "i \<in> ?live")
    case True
    then have "release_guard s i = s" by (auto simp: release_guard_def)
    moreover have "set (sy_guards s) = ?live" using insert_Diff [OF assms(5)] insert_Diff [OF True] assms(4) by simp
    ultimately show ?thesis using assms(1-3) by (simp add: guards_ok_def)
  next
    case False
    then have "release_guard s i =
        s\<lparr>sy_guards := remove1 i (sy_guards s), sy_life := drop_operation (sy_life s)\<rparr>"
      using assms(5) by (auto simp: release_guard_def)
    moreover obtain n where n: "length (sy_guards s) = Suc n"
      using assms(5) by (cases "sy_guards s") auto
    moreover have "set (remove1 i (sy_guards s)) = ?live"
      using False assms(2,4) by auto
    ultimately show ?thesis
      using assms lifecycle_drop [of "sy_life s" "sy_other s + n"]
      by (simp add: guards_ok_def length_remove1)
  qed
qed

section \<open>The steps keep the invariant\<close>

lemma job_inv_entry: "job_inv s \<Longrightarrow> entry_ok s i"
  by (simp add: job_inv_def)

lemma fresh_entry:
  assumes "job_inv s"
  shows "slot_at (sy_jobs s) (jb_next (sy_jobs s)) = None" and "inputs_of s (jb_next (sy_jobs s)) = []"
    and "permits_of s (jb_next (sy_jobs s)) = 0"
    and "jb_next (sy_jobs s) \<notin> set (sy_owners s)" and "worker_of (sy_workers s) (jb_next (sy_jobs s)) = []"
    and "jb_next (sy_jobs s) \<notin> set (sy_guards s)"
proof -
  let ?n = "jb_next (sy_jobs s)"
  have e: "entry_ok s ?n" using assms by (simp add: job_inv_def)
  then show none: "slot_at (sy_jobs s) ?n = None" by (auto simp: entry_ok_def split: option.split_asm)
  show "inputs_of s ?n = []" and "permits_of s ?n = 0" and o: "?n \<notin> set (sy_owners s)"
    and w: "worker_of (sy_workers s) ?n = []"
    using e none by (auto simp: entry_ok_def authorizations_def)
  have "?n \<notin> wk_id ` set (sy_workers s)" using w by (auto simp: worker_of_def filter_empty_conv)
  with o assms show "?n \<notin> set (sy_guards s)" by (auto simp: job_inv_def guards_ok_def)
qed

lemma checked_add_one:
  "checked_add (n :: u64) 1 = Some m \<Longrightarrow> n < m"
  by (auto simp: word_less_nat_alt dest: checked_add_SomeD)

lemma job_inv_oblige:
  assumes "job_inv s" and "obligation (sy_life s) (sy_jobs s) = (Inr i, J, l)"
  shows "job_inv (s\<lparr>sy_jobs := J, sy_life := l, sy_owners := i # sy_owners s, sy_guards := i # sy_guards s\<rparr>)"
    (is "job_inv ?t")
proof -
  from assms(2) obtain n where n: "checked_add (jb_next (sy_jobs s)) 1 = Some n"
    "try_operation (sy_life s) = Some l" "i = jb_next (sy_jobs s)"
    "J = insert_slot ((sy_jobs s)\<lparr>jb_next := n\<rparr>) i empty_slot"
    "length (jb_slots (sy_jobs s)) < jb_capacity (sy_jobs s)"
    by (auto simp: obligation_def split: if_split_asm option.split_asm)
  note fresh = fresh_entry [OF assms(1)] and lt = checked_add_one [OF n(1)]
  have "entry_ok ?t j" for j
  proof (cases "j = i")
    case True
    then show ?thesis
      using fresh lt n(3,4)
      by (simp add: entry_ok_def inputs_of_def permits_of_def slot_ok_def held_ok_def empty_slot_def
          permit_load_def job_log_def retained_settlement_def)
  next
    case False
    show ?thesis
      by (rule entry_frame [OF job_inv_entry [OF assms(1)]])
        (use False lt n(4) in \<open>simp_all add: inputs_of_def permits_of_def less_imp_le\<close>)
  qed
  moreover have "guards_ok ?t"
    using assms(1) fresh n lifecycle_admit [OF _ n(2)] by (auto simp: job_inv_def guards_ok_def)
  ultimately show ?thesis
    using assms(1) n registry_insert [of "(sy_jobs s)\<lparr>jb_next := n\<rparr>" i empty_slot] by (simp add: job_inv_def)
qed

lemma job_inv_touch:
  assumes "job_inv s" and "registry_ok (sy_jobs t)" and "guards_ok t" and "entry_ok t i"
    and "\<And>j. j \<noteq> i \<Longrightarrow> slot_at (sy_jobs t) j = slot_at (sy_jobs s) j"
    and "\<And>j. j \<noteq> i \<Longrightarrow> inputs_of t j = inputs_of s j" and "\<And>j. j \<noteq> i \<Longrightarrow> permits_of t j = permits_of s j"
    and "\<And>j. j \<noteq> i \<Longrightarrow> j \<in> set (sy_owners t) \<longleftrightarrow> j \<in> set (sy_owners s)"
    and "\<And>j. j \<noteq> i \<Longrightarrow> worker_of (sy_workers t) j = worker_of (sy_workers s) j"
    and "jb_next (sy_jobs s) \<le> jb_next (sy_jobs t)"
    and "set (sy_handed s) \<subseteq> set (sy_handed t)" and "set (sy_resolved s) \<subseteq> set (sy_resolved t)"
  shows "job_inv t"
proof -
  have "entry_ok t j" for j
  proof (cases "j = i")
    case False
    show ?thesis
      by (rule entry_frame [OF job_inv_entry [OF assms(1)]]) (use assms(5-12) False in auto)
  qed (use assms(4) in simp)
  with assms(2,3) show ?thesis by (simp add: job_inv_def)
qed

lemma job_inv_slot:
  assumes "job_inv s" and "slot_at (sy_jobs s) i = Some slot"
  shows "registry_ok (sy_jobs s)" and "guards_ok s" and "i < jb_next (sy_jobs s)"
    and "slot_ok slot (inputs_of s i)" and "so_held slot \<longleftrightarrow> i \<in> set (sy_owners s)"
    and "length (worker_of (sy_workers s) i) = (if so_running slot then 1 else 0)"
    and "permits_of s i + permit_load slot \<le> authorizations (inputs_of s i)"
    and "so_releasable slot \<longrightarrow> i \<in> set (sy_resolved s)"
  using assms job_inv_entry [OF assms(1), of i] by (simp_all add: entry_ok_def job_inv_def)

lemma guards_ok_worker:
  assumes "guards_ok s" and "wk_id wk \<in> set (sy_guards s)"
    and "t = s\<lparr>sy_jobs := J, sy_log := xs, sy_workers := wk # sy_workers s\<rparr>"
  shows "guards_ok t"
  using assms by (auto simp: guards_ok_def)

lemma put_slot_same:
  assumes "registry_ok J" and "slot_at J i = Some slot"
  shows "put_slot J i slot = J"
proof -
  have "map (\<lambda>(j, old). (j, if j = i then slot else old)) (jb_slots J) = jb_slots J"
    using assms by (intro map_idI) (auto simp: registry_ok_def slot_at_def dest: eq_key_imp_eq_value)
  then show ?thesis by (simp add: put_slot_def)
qed

lemma submit_cases:
  assumes "registry_ok J" and "submit_to_obligation now runtime life J i input = (r, J')"
  obtains (same) x where "r = Inl x" and "J' = J"
  | (captured) x slot where "r = Inl x" and "slot_at J i = Some slot" and "\<not> so_running slot"
      and "so_outcome slot = None" and "next_phase slot input = Some JobTerminal"
      and "J' = put_slot J i
        (slot\<lparr>so_phase := JobTerminal, so_snapshot := Some input, so_releasable := False\<rparr>)"
  | (accepted) slot phase e where "r = Inr e" and "slot_at J i = Some slot" and "\<not> so_running slot"
      and "so_outcome slot = None" and "next_phase slot input = Some phase"
      and "J' = put_slot J i
        (slot\<lparr>so_phase := phase, so_snapshot := Some input, so_releasable := False, so_epoch := e,
              so_consumed := False, so_running := True\<rparr>)"
proof (cases "slot_at J i")
  case None
  with assms(2) that(1) show ?thesis by (auto simp: submit_to_obligation_def)
next
  case (Some slot)
  have put_same: "put_slot J i slot = J"
    by (rule put_slot_same [OF assms(1) Some])
  show ?thesis
  proof (cases "so_running slot \<or> so_outcome slot \<noteq> None \<or> next_phase slot input = None")
    case True
    with assms(2) Some that(1) show ?thesis by (auto simp: submit_to_obligation_def split: if_split_asm)
  next
    case False
    then obtain phase where phase: "next_phase slot input = Some phase" "\<not> so_running slot"
      "so_outcome slot = None" by auto
    show ?thesis
    proof (cases "phase = JobTerminal")
      case True
      with assms(2) Some phase show ?thesis
        using that(2) [OF _ Some] that(3) [OF _ Some]
        by (auto simp: submit_to_obligation_def Let_def split: if_split_asm option.split_asm)
    next
      case False
      with assms(2) Some phase put_same show ?thesis
        using that(1) that(3) [OF _ Some]
        by (auto simp: submit_to_obligation_def Let_def split: if_split_asm option.split_asm)
    qed
  qed
qed

lemma authorizations_snoc:
  "authorizations (xs @ [i]) = authorizations xs + (if is_authorize i then 1 else 0)"
  by (simp add: authorizations_def)

lemma job_inv_accept:
  assumes "job_inv s" and "i \<in> set (sy_owners s)"
    and "submit_to_obligation now runtime (sy_life s) (sy_jobs s) i input = (Inr e, J)"
  shows "job_inv (s\<lparr>sy_jobs := J, sy_log := sy_log s @ [(i, input)],
           sy_workers := \<lparr>wk_id = i, wk_epoch = e, wk_input = input, wk_guarded = True\<rparr> # sy_workers s\<rparr>)"
    (is "job_inv ?t")
proof -
  have reg: "registry_ok (sy_jobs s)" using assms(1) by (simp add: job_inv_def)
  from reg assms(3) obtain slot phase where sl: "slot_at (sy_jobs s) i = Some slot"
    "\<not> so_running slot" "so_outcome slot = None" "next_phase slot input = Some phase"
    and J: "J = put_slot (sy_jobs s) i
        (slot\<lparr>so_phase := phase, so_snapshot := Some input, so_releasable := False, so_epoch := e,
              so_consumed := False, so_running := True\<rparr>)"
    by (cases rule: submit_cases) simp_all
  note slot = job_inv_slot [OF assms(1) sl(1)]
  have in_t: "inputs_of ?t j = inputs_of s j @ (if j = i then [input] else [])" for j
    by (simp add: inputs_of_def)
  have "entry_ok ?t i"
    using slot sl J assms(2) next_phase_accepts [OF slot(4) _ sl(2-4), where e = e and c = False]
    by (simp add: entry_ok_def in_t permits_of_def permit_load_def authorizations_snoc)
  moreover have "i \<in> set (sy_guards s)" using assms(2) slot(2) by (auto simp: guards_ok_def)
  then have "guards_ok ?t" by (intro guards_ok_worker [OF slot(2) _ refl]) simp
  ultimately show ?thesis
    by (intro job_inv_touch [OF assms(1), of ?t i])
      (use reg in \<open>simp_all add: J in_t permits_of_def\<close>)
qed

lemma job_inv_jobs:
  assumes "job_inv s" and "registry_ok J" and "entry_ok (s\<lparr>sy_jobs := J\<rparr>) i"
    and "\<And>j. j \<noteq> i \<Longrightarrow> slot_at J j = slot_at (sy_jobs s) j" and "jb_next J = jb_next (sy_jobs s)"
  shows "job_inv (s\<lparr>sy_jobs := J\<rparr>)"
proof -
  have "guards_ok (s\<lparr>sy_jobs := J\<rparr>)" using assms(1) by (simp add: job_inv_def guards_ok_def)
  with assms show ?thesis
    by (intro job_inv_touch [OF assms(1), of "s\<lparr>sy_jobs := J\<rparr>" i])
      (simp_all add: inputs_of_def permits_of_def)
qed

lemma job_inv_refuse:
  assumes "job_inv s" and "i \<in> set (sy_owners s)"
    and "submit_to_obligation now runtime (sy_life s) (sy_jobs s) i input = (Inl r, J)"
  shows "job_inv (s\<lparr>sy_jobs := J\<rparr>)"
proof -
  have reg: "registry_ok (sy_jobs s)" using assms(1) by (simp add: job_inv_def)
  from reg assms(3) show ?thesis
  proof (cases rule: submit_cases)
    case (same x)
    with assms(1) show ?thesis by simp
  next
    case (captured x slot)
    note slot = job_inv_slot [OF assms(1) captured(2)]
    have "entry_ok (s\<lparr>sy_jobs := J\<rparr>) i"
      using slot captured job_inv_entry [OF assms(1), of i] assms(2)
        next_phase_captures [OF slot(4) _ captured(3-5)]
      by (simp add: entry_ok_def inputs_of_def permits_of_def permit_load_def worker_of_def)
    with captured reg show ?thesis
      by (intro job_inv_jobs [OF assms(1), of _ i]) simp_all
  qed simp
qed

lemma job_inv_direct:
  assumes "job_inv s" and "submit_to_jobs runtime (sy_life s) (sy_jobs s) input = (Inr i, J, l)"
  shows "job_inv (s\<lparr>sy_jobs := J, sy_life := l, sy_log := sy_log s @ [(i, input)],
           sy_guards := i # sy_guards s,
           sy_workers := \<lparr>wk_id = i, wk_epoch = 0, wk_input = input, wk_guarded = True\<rparr> # sy_workers s\<rparr>)"
    (is "job_inv ?t")
proof -
  from assms(2) obtain n where n: "checked_add (jb_next (sy_jobs s)) 1 = Some n"
    "try_operation (sy_life s) = Some l" "i = jb_next (sy_jobs s)"
    "J = insert_slot ((sy_jobs s)\<lparr>jb_next := n\<rparr>) i
       (empty_slot\<lparr>so_snapshot := Some input, so_held := False, so_running := True\<rparr>)"
    "length (jb_slots (sy_jobs s)) < jb_capacity (sy_jobs s)"
    by (auto simp: submit_to_jobs_def split: if_split_asm option.split_asm)
  note fresh = fresh_entry [OF assms(1)] and lt = checked_add_one [OF n(1)]
  have in_t: "inputs_of ?t j = inputs_of s j @ (if j = i then [input] else [])" for j
    by (simp add: inputs_of_def)
  have "follows input []" by (cases "(input, [] :: job_input list)" rule: follows.cases) auto
  then have "slot_ok (empty_slot\<lparr>so_snapshot := Some input, so_held := False, so_running := True\<rparr>) [input]"
    by (auto simp: slot_ok_def job_log_def empty_slot_def retained_settlement_def)
  moreover have "permits_of ?t i = 0" using fresh(3) n(3) by (simp add: permits_of_def)
  ultimately have "entry_ok ?t i"
    using fresh lt n(3,4)
    by (simp add: entry_ok_def in_t empty_slot_def permit_load_def authorizations_def)
  moreover have "guards_ok ?t"
    using assms(1) fresh n lifecycle_admit [OF _ n(2)] by (auto simp: job_inv_def guards_ok_def)
  moreover have "registry_ok J"
    using assms(1) n registry_insert [of "(sy_jobs s)\<lparr>jb_next := n\<rparr>"] by (simp add: job_inv_def)
  ultimately show ?thesis
    by (intro job_inv_touch [OF assms(1), of ?t i])
      (use lt n(4) in \<open>simp_all add: in_t permits_of_def less_imp_le\<close>)
qed

lemma job_inv_direct_refused:
  assumes "job_inv s" and "submit_to_jobs runtime (sy_life s) (sy_jobs s) input = (Inl r, J, l)"
  shows "job_inv (s\<lparr>sy_jobs := J, sy_life := l\<rparr>)"
proof -
  have l: "s\<lparr>sy_jobs := J, sy_life := l\<rparr> = s\<lparr>sy_jobs := J\<rparr>"
    and "J = sy_jobs s \<or> J = (sy_jobs s)\<lparr>jb_closed := True\<rparr>"
    using assms(2) by (auto simp: submit_to_jobs_def split: if_split_asm option.split_asm)
  then have J: "slot_at J j = slot_at (sy_jobs s) j" "registry_ok J = registry_ok (sy_jobs s)"
    "jb_next J = jb_next (sy_jobs s)" for j by auto
  have "entry_ok (s\<lparr>sy_jobs := J\<rparr>) 0"
    by (rule entry_frame [OF job_inv_entry [OF assms(1)]]) (simp_all add: J inputs_of_def permits_of_def)
  with assms(1) show ?thesis
    unfolding l by (intro job_inv_jobs [OF assms(1), of J 0]) (simp_all add: J job_inv_def)
qed

lemma finish_running:
  assumes "slot_at J i = Some slot" and "so_running slot" and "so_epoch slot = e"
  shows "slot_at (finish J i e outcome) j = (if j = i then Some (finish_slot slot outcome) else slot_at J j)"
    and "registry_ok (finish J i e outcome) = registry_ok J"
    and "jb_next (finish J i e outcome) = jb_next J"
  using assms by (simp_all add: finish_def Let_def)

lemma finish_load:
  assumes "slot_ok slot xs" and "so_running slot" and "so_snapshot slot = Some i"
    and "case outcome of Some r \<Rightarrow> answers i r | None \<Rightarrow> True"
  shows "permit_load (finish_slot slot outcome) \<le> permit_load slot"
proof (cases outcome)
  case None
  then show ?thesis using assms
    by (cases i) (auto simp: permit_load_def finish_slot_def Let_def split: option.split)
next
  case (Some r)
  with assms have "is_permit r \<Longrightarrow> is_authorize i"
    by (cases "(i, r)" rule: answers.cases) (auto elim: is_permit.elims)
  then show ?thesis using assms Some
    by (auto simp: permit_load_def finish_slot_def Let_def split: option.split)
qed

lemma guards_ok_released:
  assumes "guards_ok s" and "wk \<in> set (sy_workers s)"
    and "t = s\<lparr>sy_jobs := J, sy_ledger := P, sy_workers := remove1 wk (sy_workers s), sy_resolved := R\<rparr>"
    and "filter (\<lambda>w. wk_id w = wk_id wk) (sy_workers s) = [wk]"
  shows "guards_ok (release_guard t (wk_id wk))"
proof -
  have rest: "w \<in> set (remove1 wk (sy_workers s)) \<longleftrightarrow> w \<in> set (sy_workers s)" if "wk_id w \<noteq> wk_id wk" for w
    using that by (metis in_set_remove1)
  have "filter (\<lambda>w. wk_id w = wk_id wk) (remove1 wk (sy_workers s)) = []"
    using assms(4) by (simp add: filter_remove1)
  then have gone: "w \<in> set (remove1 wk (sy_workers s)) \<Longrightarrow> wk_id w \<noteq> wk_id wk" for w
    by (simp add: filter_empty_conv)
  have others: "set (remove1 wk (sy_workers s)) = {w \<in> set (sy_workers s). wk_id w \<noteq> wk_id wk}"
  proof (rule set_eqI)
    show "w \<in> set (remove1 wk (sy_workers s)) \<longleftrightarrow> w \<in> {w \<in> set (sy_workers s). wk_id w \<noteq> wk_id wk}" for w
      using rest [of w] gone [of w] by (cases "wk_id w = wk_id wk") auto
  qed
  have live: "set (map wk_id (filter wk_guarded (sy_workers s))) - {wk_id wk} =
      set (map wk_id (filter wk_guarded (remove1 wk (sy_workers s))))"
    by (auto simp: others)
  show ?thesis
  proof (cases "wk_id wk \<in> set (sy_guards s)")
    case True
    then show ?thesis
      using assms(1,3) live by (intro release_guard_ok) (auto simp: guards_ok_def)
  next
    case False
    with assms(1) have "set (sy_guards s) =
        set (sy_owners s) \<union> set (map wk_id (filter wk_guarded (remove1 wk (sy_workers s))))"
      unfolding live [symmetric] by (auto simp: guards_ok_def)
    moreover have "release_guard t (wk_id wk) = t" using False assms(3) by (simp add: release_guard_def)
    ultimately show ?thesis using assms(1,3) by (simp add: guards_ok_def)
  qed
qed

lemma job_inv_publish:
  assumes "job_inv s" and "wk \<in> set (sy_workers s)"
    and "case outcome of Some r \<Rightarrow> answers (wk_input wk) r | None \<Rightarrow> True"
  shows "job_inv (publish s wk outcome P)"
proof -
  let ?i = "wk_id wk" and ?t = "publish s wk outcome P"
  have in_w: "wk \<in> set (worker_of (sy_workers s) ?i)" using assms(2) by (simp add: worker_of_def)
  then obtain slot where slot: "slot_at (sy_jobs s) ?i = Some slot"
    using job_inv_entry [OF assms(1), of ?i] by (auto simp: entry_ok_def split: option.split_asm)
  note inv = job_inv_slot [OF assms(1) slot]
  have one: "worker_of (sy_workers s) ?i = [wk]" and run: "so_running slot"
    using inv(6) in_w by (auto simp: length_Suc_conv split: if_split_asm)
  have ep: "so_epoch slot = wk_epoch wk" and sn: "so_snapshot slot = Some (wk_input wk)"
    using job_inv_entry [OF assms(1), of ?i] slot one by (auto simp: entry_ok_def)
  note fin = finish_running [OF slot run ep]
  have J: "sy_jobs ?t = finish (sy_jobs s) ?i (wk_epoch wk) outcome"
    and W: "sy_workers ?t = remove1 wk (sy_workers s)" and O: "sy_owners ?t = sy_owners s"
    and I: "inputs_of ?t = inputs_of s" and Q: "permits_of ?t = permits_of s"
    and H: "sy_handed ?t = sy_handed s" "set (sy_resolved s) \<subseteq> set (sy_resolved ?t)"
    by (auto simp: publish_def inputs_of_def permits_of_def fun_eq_iff)
  have ok: "slot_ok (finish_slot slot outcome) (inputs_of s ?i)"
    using assms(3) finish_slot_ok [OF inv(4) run sn] interrupt_slot_ok [OF inv(4) run sn]
    by (cases outcome) auto
  have "permit_load (finish_slot slot outcome) \<le> permit_load slot"
    by (rule finish_load [OF inv(4) run sn assms(3)])
  then have "entry_ok ?t ?i"
    using inv ok
    by (simp add: entry_ok_def J W O I Q fin worker_of_remove1 one)
      (auto simp: publish_def finish_slot_def Let_def)
  moreover have "guards_ok ?t"
    unfolding publish_def by (rule guards_ok_released [OF inv(2) assms(2) refl one [unfolded worker_of_def]])
  ultimately show ?thesis
    by (intro job_inv_touch [OF assms(1), of ?t ?i])
      (use inv(1) in \<open>simp_all add: J W O I Q H fin worker_of_remove1\<close>)
qed

lemma permits_deliver:
  "permits_of (s\<lparr>sy_jobs := J, sy_delivered := sy_delivered s @ [(i, r)], sy_handed := H\<rparr>) j =
     permits_of s j + (if j = i \<and> is_permit r then 1 else 0)"
  by (simp add: permits_of_def)

lemma removed_entry:
  assumes "job_inv s" and "slot_at (sy_jobs s) i = Some slot" and "\<not> so_held slot" and "\<not> so_running slot"
  shows "i \<notin> set (sy_owners s)" and "worker_of (sy_workers s) i = []" and "job_log (inputs_of s i)"
  using job_inv_slot [OF assms(1,2)] assms(3,4) by (simp_all add: slot_ok_def)

lemma job_inv_transfer:
  assumes "job_inv s" and "slot_at (sy_jobs s) i = Some slot" and "so_outcome slot = Some r"
    and "\<not> so_held slot"
  shows "job_inv (s\<lparr>sy_jobs := remove_slot (sy_jobs s) i, sy_delivered := sy_delivered s @ [(i, r)],
           sy_handed := i # sy_handed s\<rparr>)" (is "job_inv ?t")
proof -
  note inv = job_inv_slot [OF assms(1,2)]
  have "\<not> so_running slot" using inv(4) assms(3) by (auto simp: slot_ok_def)
  note gone = removed_entry [OF assms(1,2,4) this]
  have load: "permit_load slot \<ge> (if is_permit r then 1 else 0)"
    using assms(3) by (simp add: permit_load_def)
  have "entry_ok ?t i"
    using gone inv(3,7) load by (simp add: entry_ok_def inputs_of_def permits_deliver)
  moreover have "guards_ok ?t" using inv(2) by (simp add: guards_ok_def)
  ultimately show ?thesis
    by (intro job_inv_touch [OF assms(1), of ?t i])
      (use registry_remove [OF inv(1)] in \<open>auto simp: inputs_of_def permits_deliver\<close>)
qed

lemma job_inv_take:
  assumes "job_inv s" and "take_result (sy_jobs s) i e kind = (Some r, J)"
  shows "job_inv (s\<lparr>sy_jobs := J, sy_delivered := sy_delivered s @ [(i, r)],
           sy_handed := (if slot_at J i = None then i # sy_handed s else sy_handed s)\<rparr>)"
    (is "job_inv ?t")
proof -
  from assms(2) obtain slot where slot: "slot_at (sy_jobs s) i = Some slot" "so_outcome slot = Some r"
    and J: "J = (if so_held slot
      then put_slot (sy_jobs s) i (slot\<lparr>so_consumed := True, so_outcome := None\<rparr>)
      else remove_slot (sy_jobs s) i)"
    by (auto simp: take_result_def split: option.split_asm if_split_asm)
  note inv = job_inv_slot [OF assms(1) slot(1)]
  show ?thesis
  proof (cases "so_held slot")
    case False
    with J job_inv_transfer [OF assms(1) slot False] show ?thesis by simp
  next
    case True
    have "\<not> so_running slot" using inv(4) slot(2) by (auto simp: slot_ok_def)
    then have "permit_load slot = (if is_permit r then 1 else 0)"
      using slot(2) by (simp add: permit_load_def split: option.split)
    then have "entry_ok ?t i"
      using True J inv slot take_slot_ok [OF inv(4)] \<open>\<not> so_running slot\<close>
      by (cases "is_permit r")
        (simp_all add: entry_ok_def permits_of_def inputs_of_def permit_load_def split: option.split)
    moreover have "guards_ok ?t" using inv(2) by (simp add: guards_ok_def)
    ultimately show ?thesis
      by (intro job_inv_touch [OF assms(1), of ?t i])
        (use True J inv(1) slot(1) in \<open>auto simp: inputs_of_def permits_of_def\<close>)
  qed
qed

lemma job_inv_ready:
  assumes "job_inv s" and "find (ready_slot kind) (jb_slots (sy_jobs s)) = Some (i, slot)"
    and "take_ready (sy_jobs s) kind = (Some r, J)"
  shows "job_inv (s\<lparr>sy_jobs := J, sy_delivered := sy_delivered s @ [(i, r)], sy_handed := i # sy_handed s\<rparr>)"
proof -
  have "registry_ok (sy_jobs s)" using assms(1) by (simp add: job_inv_def)
  from slot_found [OF this assms(2)] have "slot_at (sy_jobs s) i = Some slot" "\<not> so_held slot"
    by (auto simp: ready_slot_def)
  with assms show ?thesis using job_inv_transfer [of s i slot r] by (simp add: take_ready_def)
qed

lemma job_inv_removed:
  assumes "job_inv s" and "slot_at (sy_jobs s) i = Some slot" and "\<not> so_held slot"
    and "\<not> so_running slot" and "so_releasable slot"
  shows "job_inv (s\<lparr>sy_jobs := remove_slot (sy_jobs s) i\<rparr>)"
proof -
  note inv = job_inv_slot [OF assms(1,2)] and gone = removed_entry [OF assms(1-4)]
  have "entry_ok (s\<lparr>sy_jobs := remove_slot (sy_jobs s) i\<rparr>) i"
    using gone inv(3,7,8) assms(5) by (simp add: entry_ok_def inputs_of_def permits_of_def)
  then show ?thesis
    by (intro job_inv_jobs [OF assms(1), of _ i]) (use registry_remove [OF inv(1)] in simp_all)
qed

lemma job_inv_reconciled:
  assumes "job_inv s"
  shows "job_inv (s\<lparr>sy_jobs := retry_end (sy_jobs s) i\<rparr>)"
proof (cases "retry_end (sy_jobs s) i = sy_jobs s")
  case True
  then show ?thesis using assms by simp
next
  case False
  then show ?thesis
    using job_inv_removed [OF assms] by (auto simp: retry_end_def split: option.split if_split_asm)
qed

lemma retry_begin_cases:
  assumes "registry_ok J" and "retry_begin J after = (x, after', J')"
  obtains (none) "x = None" and "J' = J"
  | (removed) i slot where "x = None" and "slot_at J i = Some slot" and "\<not> so_held slot"
      and "\<not> so_running slot" and "so_releasable slot" and "J' = remove_slot J i"
  | (started) i slot e work where "x = Some (i, e, work)" and "slot_at J i = Some slot"
      and "\<not> so_held slot" and "\<not> so_running slot" and "retry_work slot = Some work"
      and "checked_add (so_epoch slot) 1 = Some e"
      and "J' = put_slot J i (slot\<lparr>so_epoch := e, so_running := True,
                 so_snapshot := Some (InputWork work), so_outcome := None\<rparr>)"
proof (cases "retry_candidate J after")
  case None
  with assms(2) that(1) show ?thesis by (simp add: retry_begin_def)
next
  case (Some y)
  obtain i slot where y: "y = (i, slot)" by (cases y)
  have slot: "slot_at J i = Some slot" "\<not> so_held slot" "\<not> so_running slot"
    using slot_found [OF assms(1)] Some y by (auto simp: retry_candidate_def)
  show ?thesis
    using assms(2) Some y that(1) that(2) [OF _ slot] that(3) [OF _ slot]
    by (auto simp: retry_begin_def split: if_split_asm option.split_asm)
qed

lemma job_inv_reconcile_none:
  assumes "job_inv s" and "retry_begin (sy_jobs s) after = (None, after', J)"
  shows "job_inv (s\<lparr>sy_jobs := J\<rparr>)"
proof -
  have "registry_ok (sy_jobs s)" using assms(1) by (simp add: job_inv_def)
  from this assms(2) show ?thesis
    by (cases rule: retry_begin_cases) (use assms(1) job_inv_removed [OF assms(1)] in simp_all)
qed

lemma retry_work_settle: "retry_work slot = Some x \<Longrightarrow> \<exists>p. x = WorkSettle p"
  by (auto simp: retry_work_def split: option.split_asm job_input.split_asm work.split_asm
      result_value.split_asm outcome.split_asm attempt.split_asm)

lemma job_inv_reconcile:
  assumes "job_inv s" and "retry_begin (sy_jobs s) after = (Some (i, e, work), after', J)"
  shows "job_inv (s\<lparr>sy_jobs := J, sy_log := sy_log s @ [(i, InputWork work)],
      sy_workers := \<lparr>wk_id = i, wk_epoch = e, wk_input = InputWork work, wk_guarded = False\<rparr> #
                    sy_workers s\<rparr>)" (is "job_inv ?t")
proof -
  have reg: "registry_ok (sy_jobs s)" using assms(1) by (simp add: job_inv_def)
  from reg assms(2) obtain slot where sl: "slot_at (sy_jobs s) i = Some slot" "\<not> so_held slot"
    "\<not> so_running slot" "retry_work slot = Some work"
    and J: "J = put_slot (sy_jobs s) i (slot\<lparr>so_epoch := e, so_running := True,
                 so_snapshot := Some (InputWork work), so_outcome := None\<rparr>)"
    by (cases rule: retry_begin_cases) simp_all
  note inv = job_inv_slot [OF assms(1) sl(1)]
  obtain p where work: "work = WorkSettle p" using retry_work_settle [OF sl(4)] by blast
  have in_t: "inputs_of ?t j = inputs_of s j @ (if j = i then [InputWork work] else [])" for j
    by (simp add: inputs_of_def)
  have "entry_ok ?t i"
    using inv sl(2,3) retry_slot_ok [OF inv(4) sl(2,4), of e] sl(1)
    by (simp add: entry_ok_def J in_t permits_of_def permit_load_def authorizations_snoc work)
  moreover have "guards_ok ?t" using inv(2) by (simp add: guards_ok_def)
  ultimately show ?thesis
    by (intro job_inv_touch [OF assms(1), of ?t i]) (use reg in \<open>simp_all add: J in_t permits_of_def\<close>)
qed

lemma held_snapshot_None: "held_ok slot xs \<Longrightarrow> so_snapshot slot = None \<Longrightarrow> xs = []"
  by (cases "so_phase slot") (auto simp: held_ok_def)

lemma drop_obligation_cases:
  assumes "slot_at J i = Some slot"
  obtains (gone) "\<not> so_running slot" and "so_outcome slot = None"
      and "so_releasable slot \<or> so_snapshot slot = None" and "drop_obligation J i = remove_slot J i"
  | (kept) slot' where "drop_obligation J i = put_slot J i slot'" and "\<not> so_held slot'"
      and "so_running slot' = so_running slot" and "so_epoch slot' = so_epoch slot"
      and "so_running slot \<Longrightarrow> so_snapshot slot' = so_snapshot slot"
      and "so_releasable slot' = so_releasable slot" and "permit_load slot' \<le> permit_load slot"
      and "\<And>xs. slot_ok slot xs \<Longrightarrow> slot_ok slot' xs"
proof (cases "\<not> so_running slot \<and> so_outcome slot = None")
  case True
  show ?thesis
  proof (cases "so_releasable slot \<or> so_snapshot slot = None")
    case gone: True
    with True that(1) assms show ?thesis by (simp add: drop_obligation_def)
  next
    case False
    let ?slot = "slot\<lparr>so_held := False, so_outcome := map_option input_interrupted (so_snapshot slot),
        so_snapshot := None\<rparr>"
    obtain x where x: "so_snapshot slot = Some x" using False by auto
    have "\<not> is_permit (input_interrupted x)" by (cases x) auto
    then have "permit_load ?slot \<le> permit_load slot" by (simp add: permit_load_def x)
    with True False assms show ?thesis
      by (intro that(2) [of ?slot]) (auto simp: drop_obligation_def intro: drop_slot_ok(2))
  qed
next
  case False
  have "permit_load (slot\<lparr>so_held := False\<rparr>) = permit_load slot"
    by (simp add: permit_load_def split: option.split)
  with False assms show ?thesis
    by (intro that(2) [of "slot\<lparr>so_held := False\<rparr>"])
      (auto simp: drop_obligation_def intro: drop_slot_ok(1))
qed

lemma job_inv_disown:
  assumes "job_inv s" and "i \<in> set (sy_owners s)"
  shows "job_inv (release_guard (s\<lparr>sy_jobs := drop_obligation (sy_jobs s) i,
           sy_owners := remove1 i (sy_owners s)\<rparr>) i)" (is "job_inv ?t")
proof -
  obtain slot where slot: "slot_at (sy_jobs s) i = Some slot"
    using assms job_inv_entry [OF assms(1), of i] by (auto simp: entry_ok_def split: option.split_asm)
  note inv = job_inv_slot [OF assms(1) slot]
  have held: "so_held slot" "held_ok slot (inputs_of s i)" using inv(4,5) assms(2) by (auto simp: slot_ok_def)
  have own: "set (remove1 i (sy_owners s)) = set (sy_owners s) - {i}"
    using inv(2) by (simp add: guards_ok_def)
  have T: "inputs_of (release_guard (s\<lparr>sy_jobs := J, sy_owners := os\<rparr>) i) = inputs_of s"
    "permits_of (release_guard (s\<lparr>sy_jobs := J, sy_owners := os\<rparr>) i) = permits_of s" for J os
    by (simp_all add: inputs_of_def permits_of_def fun_eq_iff)
  have "guards_ok ?t"
    using assms(2) inv(2) by (intro release_guard_ok) (auto simp: guards_ok_def)
  moreover have "entry_ok ?t i"
  proof (cases rule: drop_obligation_cases [OF slot])
    case gone: 1
    then have "inputs_of s i = [] \<or> i \<in> set (sy_resolved s)"
      using inv(8) held_snapshot_None [OF held(2)] by auto
    with gone inv(3,4,6,7) show ?thesis
      by (auto simp: entry_ok_def T own slot_ok_def)
  next
    case kept: (2 slot')
    with inv slot job_inv_entry [OF assms(1), of i] kept(8) [OF inv(4)] show ?thesis
      by (simp add: entry_ok_def T own) (auto simp: worker_of_def filter_empty_conv)
  qed
  moreover have "registry_ok (drop_obligation (sy_jobs s) i)"
    and "jb_next (drop_obligation (sy_jobs s) i) = jb_next (sy_jobs s)"
    and "\<And>j. j \<noteq> i \<Longrightarrow> slot_at (drop_obligation (sy_jobs s) i) j = slot_at (sy_jobs s) j"
    by (cases rule: drop_obligation_cases [OF slot]; use inv(1) registry_remove [OF inv(1)] in simp)+
  ultimately show ?thesis
    by (intro job_inv_touch [OF assms(1), of ?t i]) (simp_all add: T own)
qed

lemma job_inv_lifecycle:
  assumes "job_inv s" and "lifecycle_step (sy_life s, sy_other s) c (l, n)"
  shows "job_inv (s\<lparr>sy_life := l, sy_other := n\<rparr>)"
proof -
  let ?t = "s\<lparr>sy_life := l, sy_other := n\<rparr>"
  have "entry_ok ?t j" for j
    by (rule entry_frame [OF job_inv_entry [OF assms(1)]]) (simp_all add: inputs_of_def permits_of_def)
  moreover have "guards_ok ?t"
    using assms(1) lifecycle_step_inv [OF lifecycle_step_more [OF assms(2), of "length (sy_guards s)"]]
    by (simp add: job_inv_def guards_ok_def)
  ultimately show ?thesis using assms(1) by (simp add: job_inv_def)
qed

lemma job_inv_ledger:
  assumes "job_inv s"
  shows "job_inv (s\<lparr>sy_ledger := P\<rparr>)"
proof -
  have "entry_ok (s\<lparr>sy_ledger := P\<rparr>) j" for j
    by (rule entry_frame [OF job_inv_entry [OF assms]]) (simp_all add: inputs_of_def permits_of_def)
  with assms show ?thesis by (simp add: job_inv_def guards_ok_def)
qed

lemma job_inv_step:
  assumes "job_step K C s t" and "job_inv s"
  shows "job_inv t"
  using assms
proof (induction rule: job_step.induct)
  case (complete wk s w lock r P)
  then show ?case using run_input_answers by (intro job_inv_publish) (simp, simp, auto)
next
  case (interrupt wk s P)
  then show ?case by (intro job_inv_publish) simp_all
qed (simp_all add: job_inv_oblige job_inv_accept job_inv_refuse job_inv_direct job_inv_direct_refused
    job_inv_take job_inv_ready job_inv_disown job_inv_reconcile job_inv_reconcile_none
    job_inv_reconciled job_inv_lifecycle job_inv_ledger)

lemma job_inv_new:
  assumes "lifecycle_inv (life, other)"
  shows "job_inv (job_system_new capacity life other P)"
  using assms
  by (simp add: job_inv_def job_system_new_def guards_ok_def entry_ok_def worker_of_def inputs_of_def
      job_log_def permits_of_def authorizations_def)

lemma job_inv_run:
  assumes "job_run K C s t" and "job_inv s"
  shows "job_inv t"
  using assms by (induction rule: job_run.induct) (simp_all add: job_inv_step)

section \<open>Properties\<close>

lemma job_log_authorizations: "job_log xs \<Longrightarrow> authorizations xs \<le> 1"
proof (cases xs)
  case (Cons i rest)
  assume "job_log xs"
  then have f: "follows i rest" by (simp add: Cons job_log_def)
  have none: "filter is_authorize ys = []" if "list_all (retries p) ys" for p ys
    using that by (induction ys) (auto simp: retries_def split: job_input.split_asm work.split_asm)
  show ?thesis
  proof (cases i)
    case (InputWork x)
    with f none show ?thesis by (cases x) (auto simp: Cons authorizations_def)
  next
    case (InputAdmission a)
    with f consider "rest = []" | p where "rest = [InputWork (WorkClose p)]"
      | p ys where "rest = InputWork (WorkAuthorize p) # ys"
      by (auto split: list.split_asm job_input.split_asm work.split_asm)
    then show ?thesis
    proof cases
      case (3 p ys)
      with f InputAdmission none have "filter is_authorize ys = []"
        by (cases ys) (auto split: job_input.split_asm work.split_asm)
      with 3 show ?thesis by (simp add: Cons InputAdmission authorizations_def)
    qed (simp_all add: Cons InputAdmission authorizations_def)
  qed
qed (simp add: authorizations_def)

text \<open>A settlement submitted directly, interrupted, and taken up again by reconciliation.\<close>

definition ex_pending :: pending_settlement where
  "ex_pending = settlement_new ''req'' None ex_usage"

definition ex_retried :: job_system where
  "ex_retried =
     (let input = InputWork (WorkSettle ex_pending);
          slot = empty_slot\<lparr>so_snapshot := Some input, so_held := False, so_running := True, so_epoch := 1\<rparr> in
      \<lparr>sy_jobs = \<lparr>jb_slots = [(0, slot)], jb_next = 1, jb_closed = True, jb_capacity = 1\<rparr>,
       sy_life = lifecycle_new, sy_other = 0, sy_ledger = pl_in_memory,
       sy_workers = [\<lparr>wk_id = 0, wk_epoch = 1, wk_input = input, wk_guarded = False\<rparr>],
       sy_owners = [], sy_guards = [], sy_log = [(0, input), (0, input)], sy_delivered = [],
       sy_handed = [], sy_resolved = []\<rparr>)"

lemma ex_retried_run: "job_run K C (job_system_new 1 lifecycle_new 0 pl_in_memory) ex_retried"
proof -
  let ?s0 = "job_system_new 1 lifecycle_new 0 pl_in_memory"
  let ?in = "InputWork (WorkSettle ex_pending)"
  let ?slot = "empty_slot\<lparr>so_snapshot := Some ?in, so_held := False, so_running := True\<rparr>"
  let ?wk = "\<lparr>wk_id = 0, wk_epoch = 0, wk_input = ?in, wk_guarded = True\<rparr>"
  let ?J = "\<lparr>jb_slots = [(0, ?slot)], jb_next = 1, jb_closed = False, jb_capacity = 1\<rparr>"
  let ?s1 = "?s0\<lparr>sy_jobs := ?J, sy_life := lifecycle_new\<lparr>lc_active := 1\<rparr>,
      sy_log := sy_log ?s0 @ [(0, ?in)], sy_guards := 0 # sy_guards ?s0,
      sy_workers := ?wk # sy_workers ?s0\<rparr>"
  have "submit_to_jobs True (sy_life ?s0) (sy_jobs ?s0) ?in = (Inr 0, ?J, lifecycle_new\<lparr>lc_active := 1\<rparr>)"
    by (simp add: submit_to_jobs_def job_system_new_def jobs_new_def is_running_def lifecycle_new_def
        try_operation_def checked_add_def insert_slot_def)
  then have one: "job_run K C ?s0 ?s1"
    using job_run.more [OF job_run.stay job_step.direct] by blast
  let ?s2 = "publish ?s1 ?wk None pl_in_memory"
  have two: "job_run K C ?s0 ?s2"
    by (rule job_run.more [OF one job_step.interrupt]) simp
  have s2: "?s2 = ex_retried\<lparr>sy_log := [(0, ?in)], sy_workers := [],
      sy_jobs := \<lparr>jb_slots = [(0, ?slot\<lparr>so_running := False, so_snapshot := None,
          so_outcome := Some (input_interrupted ?in)\<rparr>)], jb_next = 1, jb_closed = True, jb_capacity = 1\<rparr>\<rparr>"
    by (simp add: publish_def release_guard_def finish_def slot_at_def put_slot_def finish_slot_def
        job_system_new_def ex_retried_def empty_slot_def drop_operation_def lifecycle_new_def Let_def)
  have "retry_begin (sy_jobs ?s2) None = (Some (0, 1, WorkSettle ex_pending), Some 0, sy_jobs ex_retried)"
    unfolding s2
    by (simp add: retry_begin_def retry_candidate_def retry_work_def checked_add_def put_slot_def
        ex_retried_def empty_slot_def Let_def)
  from job_run.more [OF two job_step.reconcile [OF this]] show ?thesis
    unfolding s2 by (simp add: ex_retried_def Let_def)
qed

lemma ex_retried_inputs:
  "inputs_of ex_retried 0 = [InputWork (WorkSettle ex_pending), InputWork (WorkSettle ex_pending)]"
  by (simp add: inputs_of_def ex_retried_def Let_def)

text \<open>
  C3: The protocol of an accounting job. Whatever the threads do and however their steps interleave,
  with any behaviour of the ledger and with workers interrupted anywhere, the inputs the registry
  accepts for one job are one directly submitted work, which only a settlement repeats with the same
  request, execution and usage; or one admission, followed either by one closure, or by one
  authorisation and then settlements of exactly that execution with one frozen usage. At most one
  dispatch authorisation is handed out per job, and a result is published to a slot that is waiting
  for it.
\<close>

theorem job_protocol:
  assumes "job_run K C (job_system_new capacity life other P) s" and "lifecycle_inv (life, other)"
  shows "job_log (inputs_of s i) \<and> permits_of s i \<le> 1 \<and>
    (\<forall>wk \<in> set (sy_workers s). \<exists>slot. slot_at (sy_jobs s) (wk_id wk) = Some slot \<and>
       so_running slot \<and> so_epoch slot = wk_epoch wk)"
proof -
  have inv: "job_inv s" using job_inv_run [OF assms(1) job_inv_new [OF assms(2)]] .
  have xs: "job_log (inputs_of s i) \<and> permits_of s i \<le> authorizations (inputs_of s i)"
    using job_inv_entry [OF inv, of i] by (auto simp: entry_ok_def slot_ok_def split: option.split_asm)
  have "\<exists>slot. slot_at (sy_jobs s) (wk_id wk) = Some slot \<and> so_running slot \<and> so_epoch slot = wk_epoch wk"
    if "wk \<in> set (sy_workers s)" for wk
  proof -
    have "wk \<in> set (worker_of (sy_workers s) (wk_id wk))" using that by (simp add: worker_of_def)
    then show ?thesis
      using job_inv_entry [OF inv, of "wk_id wk"]
      by (auto simp: entry_ok_def split: option.split_asm if_split_asm)
  qed
  with xs job_log_authorizations [of "inputs_of s i"] show ?thesis by auto
qed

theorem job_protocol_witness:
  "job_log [InputWork (WorkSettle ex_pending), InputWork (WorkSettle ex_pending)] \<and>
   permits_of ex_retried 0 \<le> 1"
  using job_protocol [OF ex_retried_run [of ex_calendar ex_codec] lifecycle_inv_new, of 0]
  by (simp add: ex_retried_inputs)

text \<open>
  C22: Accounting evidence is retained and bounded. In every reachable state the registry is within its
  capacity, and a job that was given anything to do is still in the registry, or its last result was
  handed over, or it was resolved (settled, closed, or refused before anything was reserved). When the
  shared lifecycle is idle, no obligation is open and every submitted worker has published.
\<close>

theorem job_evidence_retained:
  assumes "job_run K C (job_system_new capacity life other P) s" and "lifecycle_inv (life, other)"
  shows "retained (sy_jobs s) \<le> jb_capacity (sy_jobs s) \<and>
    (inputs_of s i \<noteq> [] \<longrightarrow>
       slot_at (sy_jobs s) i \<noteq> None \<or> i \<in> set (sy_handed s) \<or> i \<in> set (sy_resolved s)) \<and>
    (idle (sy_life s) \<longrightarrow>
       sy_owners s = [] \<and> (\<forall>wk \<in> set (sy_workers s). \<not> wk_guarded wk))"
proof -
  have inv: "job_inv s" using job_inv_run [OF assms(1) job_inv_new [OF assms(2)]] .
  have "slot_at (sy_jobs s) i \<noteq> None \<or> i \<in> set (sy_handed s) \<or> i \<in> set (sy_resolved s)"
    if "inputs_of s i \<noteq> []"
    using job_inv_entry [OF inv, of i] that by (auto simp: entry_ok_def split: option.split_asm)
  moreover have "sy_owners s = [] \<and> (\<forall>wk \<in> set (sy_workers s). \<not> wk_guarded wk)" if "idle (sy_life s)"
  proof -
    have "sy_guards s = []"
      using inv that by (auto simp: job_inv_def guards_ok_def lifecycle_inv_def idle_def active_operations_def)
    with inv show ?thesis by (auto simp: job_inv_def guards_ok_def filter_empty_conv)
  qed
  ultimately show ?thesis using inv by (simp add: job_inv_def registry_ok_def retained_def)
qed

theorem job_evidence_retained_witness:
  "retained (sy_jobs ex_retried) \<le> 1 \<and> slot_at (sy_jobs ex_retried) 0 \<noteq> None"
proof -
  have "inputs_of ex_retried 0 \<noteq> []" by (simp add: ex_retried_inputs)
  with job_evidence_retained [OF ex_retried_run [of ex_calendar ex_codec] lifecycle_inv_new, of 0]
  show ?thesis by (simp add: ex_retried_def Let_def)
qed

end
