(* ===== verification/Sweep.thy ===== *)
theory Sweep
  imports Jobs
begin

text \<open>
  \<^verbatim>\<open>crates/sandhi-proxy/src/settlement/buffered.rs\<close>: the configuration of tracked
  accounting and the recovery sweep, which walks the inventory of tracked executions page by page
  and settles those that are ready. A call runs at most eight rounds; the cursor it leaves behind
  lets the next call continue. What other threads do between the rounds is in the environment of a
  round: the lifecycle, the two locks, the clock and the world of the calls.
\<close>

section \<open>Configuration\<close>

record buffered_config =
  bc_capacity :: nat
  bc_accounting_wait :: duration
  bc_transport_timeout :: duration

definition config_new :: "nat \<Rightarrow> duration \<Rightarrow> duration \<Rightarrow> string + buffered_config" where
  "config_new capacity accounting_wait transport_timeout =
     (if capacity = 0 \<or> capacity > 1024 \<or> accounting_wait = 0 \<or>
         accounting_wait > 30 * 1000000000 \<or> transport_timeout = 0 \<or>
         transport_timeout > 600 * 1000000000
      then Inl ''invalid buffered accounting bounds''
      else Inr \<lparr>bc_capacity = capacity, bc_accounting_wait = accounting_wait,
                bc_transport_timeout = transport_timeout\<rparr>)"

record recovery =
  rv_scopes :: "scope_cursor option"
  rv_current :: "string option"
  rv_page :: "recovery_cursor option"
  rv_retained_after :: "u64 option"
  rv_complete :: bool
  rv_unresolved :: nat

definition recovery_default :: recovery where
  "recovery_default =
     \<lparr>rv_scopes = None, rv_current = None, rv_page = None, rv_retained_after = None,
      rv_complete = False, rv_unresolved = 0\<rparr>"

record buffered =
  bu_config :: buffered_config
  bu_jobs :: jobs
  bu_recovery :: recovery

text \<open>\<^verbatim>\<open>enable\<close>: the owner is set once.\<close>

definition enable ::
  "try_lock \<Rightarrow> proxy_ledger \<Rightarrow> buffered option \<Rightarrow> buffered_config \<Rightarrow> (string + unit) \<times> buffered option" where
  "enable lock P owner config =
     (case config_new (bc_capacity config) (bc_accounting_wait config) (bc_transport_timeout config) of
        Inl e \<Rightarrow> (Inl e, owner)
      | Inr config \<Rightarrow>
          (case with_durable_ledger lock P () (\<lambda>_ S. (validate_tracked_durable S, (), S)) of
             (Inl _, _) \<Rightarrow>
               (Inl ''tracked accounting requires an available single file-backed ledger'', owner)
           | (Inr _, _) \<Rightarrow>
               (case owner of
                  Some _ \<Rightarrow> (Inl ''tracked accounting already enabled'', owner)
                | None \<Rightarrow>
                    (Inr (), Some \<lparr>bu_config = config, bu_jobs = jobs_new (bc_capacity config),
                                   bu_recovery = recovery_default\<rparr>))))"

section \<open>A round\<close>

text \<open>The loop over the entries of a page; \<open>k\<close> counts the random draws made.\<close>

fun settle_entries ::
  "calendar \<Rightarrow> usage_codec \<Rightarrow> world \<Rightarrow> nat \<Rightarrow> string \<Rightarrow> recovery \<Rightarrow> sharded_ledger \<Rightarrow> recovery_entry list \<Rightarrow>
     (evidence_error + nat) \<times> recovery \<times> sharded_ledger" where
  "settle_entries K C w k scope c S [] = (Inr 0, c, S)"
| "settle_entries K C w k scope c S (e # es) =
     (case re_state e of
        ReadyToSettle \<Rightarrow>
          (case sh_settle_terminal_durable K C (wo_engine w) (wo_entropy w k) (wo_utc w) S scope
                  (re_execution_id e) of
             (Inl err, S) \<Rightarrow> (Inl err, c, S)
           | (Inr _, S) \<Rightarrow>
               (case settle_entries K C w (Suc k) scope c S es of
                  (r, c, S) \<Rightarrow> (map_sum (\<lambda>e. e) Suc r, c, S)))
      | Settled _ \<Rightarrow> settle_entries K C w k scope c S es
      | ClosedBeforeDispatch _ \<Rightarrow> settle_entries K C w k scope c S es
      | _ \<Rightarrow> settle_entries K C w k scope (c\<lparr>rv_unresolved := rv_unresolved c + 1\<rparr>) S es)"

definition next_scope ::
  "world \<Rightarrow> sharded_ledger \<Rightarrow> recovery \<Rightarrow> evidence_error + recovery" where
  "next_scope w S c =
     (if rv_current c = None then
        map_sum (\<lambda>e. e)
          (\<lambda>inventory. c\<lparr>rv_scopes := sp_next inventory,
                         rv_current := (case sp_scopes inventory of [] \<Rightarrow> None | s # _ \<Rightarrow> Some s)\<rparr>)
          (sh_recovery_scopes_durable (wo_engine w) S (rv_scopes c) 1)
      else Inr c)"

text \<open>The closure run on the ledger.\<close>

definition recovery_round ::
  "calendar \<Rightarrow> usage_codec \<Rightarrow> world \<Rightarrow> recovery \<Rightarrow> sharded_ledger \<Rightarrow>
     (evidence_error + nat) \<times> recovery \<times> sharded_ledger" where
  "recovery_round K C w c S =
     (case next_scope w S c of
        Inl e \<Rightarrow> (Inl e, c, S)
      | Inr c \<Rightarrow>
          (case rv_current c of
             None \<Rightarrow> (Inr 0, c, S)
           | Some scope \<Rightarrow>
               (case sh_recovery_page_durable K C (wo_engine w) S scope (rv_page c) 32 of
                  Inl e \<Rightarrow> (Inl e, c, S)
                | Inr page \<Rightarrow>
                    (case settle_entries K C w 0 scope c S (rp_entries page) of
                       (Inl e, c, S) \<Rightarrow> (Inl e, c, S)
                     | (Inr n, c, S) \<Rightarrow>
                         (Inr n,
                          c\<lparr>rv_page := rp_next page,
                            rv_current := (if rp_next page = None then None else rv_current c)\<rparr>, S)))))"

section \<open>A call\<close>

record round_env =
  en_elapsed :: duration
  en_now :: instant
  en_life :: lifecycle
  en_access :: bool
  en_retry_lock :: try_lock
  en_retry_world :: world
  en_lock :: try_lock
  en_world :: world

definition sweep_stops :: "bool \<Rightarrow> round_env \<Rightarrow> bool" where
  "sweep_stops shutdown env \<longleftrightarrow>
     en_elapsed env \<ge> 1000000000 \<or> (\<not> shutdown \<and> \<not> is_running (en_life env)) \<or>
     remaining (en_now env) (en_life env) = Some 0"

definition sweep_done :: "recovery \<Rightarrow> bool" where
  "sweep_done c \<longleftrightarrow> rv_current c = None \<and> rv_scopes c = None"

fun recover_loop ::
  "calendar \<Rightarrow> usage_codec \<Rightarrow> bool \<Rightarrow> round_env list \<Rightarrow> nat \<Rightarrow> recovery \<Rightarrow> jobs \<Rightarrow> proxy_ledger \<Rightarrow>
     (string + nat) \<times> recovery \<times> jobs \<times> proxy_ledger" where
  "recover_loop K C shutdown [] settled c J P = (Inr settled, c, J, P)"
| "recover_loop K C shutdown (env # envs) settled c J P =
     (if sweep_stops shutdown env then (Inr settled, c, J, P)
      else
        (case retry_terminal K C (en_retry_world env) (en_retry_lock env) (en_access env) J P
                (rv_retained_after c) of
           (after, J, P) \<Rightarrow>
             (case with_durable_ledger (en_lock env) P (c\<lparr>rv_retained_after := after\<rparr>)
                     (recovery_round K C (en_world env)) of
                (Inl _, c, P) \<Rightarrow> (Inl ''accounting recovery unresolved'', c, J, P)
              | (Inr n, c, P) \<Rightarrow>
                  if sweep_done c then (Inr (settled + n), c\<lparr>rv_complete := True\<rparr>, J, P)
                  else recover_loop K C shutdown envs (settled + n) c J P)))"

text \<open>The blocking part of \<^verbatim>\<open>recover_inner\<close>, for the eight environments of its rounds.\<close>

definition recover_blocking ::
  "calendar \<Rightarrow> usage_codec \<Rightarrow> bool \<Rightarrow> (nat \<Rightarrow> round_env) \<Rightarrow> recovery \<Rightarrow> jobs \<Rightarrow> proxy_ledger \<Rightarrow>
     (string + nat) \<times> recovery \<times> jobs \<times> proxy_ledger" where
  "recover_blocking K C shutdown env c J P =
     (let c = (if shutdown then recovery_default else c);
          c = (if sweep_done c then c\<lparr>rv_unresolved := 0\<rparr> else c) in
      recover_loop K C shutdown (map env [0..<8]) 0 (c\<lparr>rv_complete := False\<rparr>) J P)"

definition recover_inner ::
  "calendar \<Rightarrow> usage_codec \<Rightarrow> bool \<Rightarrow> lifecycle \<Rightarrow> bool \<Rightarrow> (nat \<Rightarrow> round_env) \<Rightarrow> buffered option \<Rightarrow>
     proxy_ledger \<Rightarrow> (string + nat) \<times> buffered option \<times> proxy_ledger" where
  "recover_inner K C shutdown life recovery_free env owner P =
     (case owner of
        None \<Rightarrow> (Inr 0, None, P)
      | Some b \<Rightarrow>
          if \<not> shutdown \<and> try_operation life = None then (Inl ''accounting closed'', Some b, P)
          else if \<not> recovery_free then (Inl ''recovery already running'', Some b, P)
          else
            (case recover_blocking K C shutdown env (bu_recovery b) (bu_jobs b) P of
               (r, c, J, P) \<Rightarrow> (r, Some (b\<lparr>bu_jobs := J, bu_recovery := c\<rparr>), P)))"

text \<open>
  \<^verbatim>\<open>finish_shutdown\<close>; \<open>in_time\<close> says whether the sweep returned before the shutdown
  deadline.
\<close>

definition finish_shutdown ::
  "calendar \<Rightarrow> usage_codec \<Rightarrow> lifecycle \<Rightarrow> bool \<Rightarrow> bool \<Rightarrow> bool \<Rightarrow> (nat \<Rightarrow> round_env) \<Rightarrow> buffered option \<Rightarrow>
     proxy_ledger \<Rightarrow> (string + bool) \<times> buffered option \<times> proxy_ledger" where
  "finish_shutdown K C life in_time recovery_free still_free env owner P =
     (if owner = None then (Inr True, None, P)
      else if is_running life \<or> active_operations life \<noteq> 0
      then (Inl ''accounting has not drained'', owner, P)
      else if lc_deadline life = None then (Inl ''shutdown not started'', owner, P)
      else
        (case recover_inner K C True life recovery_free env owner P of
           (r, owner, P) \<Rightarrow>
             if \<not> in_time then (Inl ''accounting shutdown deadline exceeded'', owner, P)
             else
               (case r of
                  Inl e \<Rightarrow> (Inl e, owner, P)
                | Inr _ \<Rightarrow>
                    if \<not> still_free then (Inl ''recovery still active'', owner, P)
                    else
                      (case owner of
                         None \<Rightarrow> (Inr True, owner, P)
                       | Some b \<Rightarrow>
                           (Inr (rv_complete (bu_recovery b) \<and> rv_unresolved (bu_recovery b) = 0 \<and>
                                 retained (bu_jobs b) = 0), owner, P)))))"

end
