(* ===== verification/Sweep_Runs.thy ===== *)
theory Sweep_Runs
  imports Sweep Permit
begin

text \<open>
  The recovery sweep of \<^verbatim>\<open>settlement/buffered.rs\<close> completes: repeated calls walk the whole
  inventory of tracked executions, settle every execution that is ready with its frozen charge and
  leave the others as they are.
\<close>

section \<open>Settling one execution\<close>

lemma recovery_state_cong:
  assumes "map_of (sl_reservations L') i = map_of (sl_reservations L) i"
    and "map_of (sl_fences L') x = map_of (sl_fences L) x"
    and "map_of (sl_observations L') x = map_of (sl_observations L) x"
    and "find_receipt L' i = find_receipt L i" and "0 \<le> i" "i < 2 ^ 63"
  shows "recovery_state_of K C E L' s x (word_of_int i) = recovery_state_of K C E L s x (word_of_int i)"
proof -
  have i: "i64_try_from (word_of_int i :: u64) = Inr i"
    using assms(5,6) by (simp add: i64_try_from_Inr uint_word_of_int_eq unat_word_of_int)
  have obs: "read_observation C E L' x j s = read_observation C E L x j s" for j
    by (simp add: read_observation_def assms(3))
  have receipt: "checked_terminal_receipt E L' s (word_of_int i) charge =
      checked_terminal_receipt E L s (word_of_int i) charge" for charge
    by (simp add: checked_terminal_receipt_def bounded_receipt_def i assms(1,4) cong: option.case_cong if_cong)
  have "checked_fence K C E L' s x (word_of_int i) = checked_fence K C E L s x (word_of_int i)"
    by (simp add: checked_fence_def i obs receipt assms(1,2,4) cong: option.case_cong if_cong)
  then show ?thesis by (simp add: recovery_state_of_def obs receipt cong: option.case_cong fence.case_cong)
qed

lemma ready_facts:
  assumes inv: "evidence_inv K C L" and b: "bound L x i r"
    and ready: "recovery_state_of K C all_done L (rr_scope r) x (word_of_int i) = Inr ReadyToSettle"
  obtains c where "dispatched L x" and "final_charge C (map_of (sl_observations L) x) = Some c"
    and "stored_receipt L i = None"
proof -
  have d: "dispatched L x"
    using recovery_state_undispatched [OF inv b] ready by (cases "dispatched L x") auto
  have "reported_state C L x i = ReadyToSettle"
    using recovery_state_dispatched [OF inv b d] ready by simp
  then have new: "stored_receipt L i = None"
    and "final_charge C (map_of (sl_observations L) x) \<noteq> None"
    by (auto simp: reported_state_def split: option.splits prod.splits if_splits)
  then show thesis using that d by blast
qed

text \<open>What settling one ready execution changes.\<close>

definition same_inventory :: "sqlite_ledger \<Rightarrow> sqlite_ledger \<Rightarrow> bool" where
  "same_inventory L L' \<longleftrightarrow>
     sl_path L' = sl_path L \<and> sl_intents L' = sl_intents L \<and> sl_fences L' = sl_fences L \<and>
     sl_observations L' = sl_observations L \<and> scope_of L' = scope_of L"

lemma settle_one:
  assumes inv: "evidence_inv K C L" "row_ids L" and b: "bound L x i r"
    and ready: "recovery_state_of K C all_done L (rr_scope r) x (word_of_int i) = Inr ReadyToSettle"
    and scope: "validate_scope (rr_scope r) = Inr ()"
    and draw: "opaque_id (wo_entropy w k) = Inr rid" "map_of (sl_outbox L) rid = None"
    and world: "codec_ok C" "world_ok K w" "wo_engine w = all_done"
  obtains out L2 rc c where
    "settle_terminal_durable K C all_done (wo_entropy w k) (wo_utc w) L (rr_scope r) x = (Inr out, L2)"
    and "evidence_inv K C L2" "row_ids L2" "same_inventory L L2"
    and "fst ` set (sl_outbox L2) = insert rid (fst ` set (sl_outbox L))"
    and "final_charge C (map_of (sl_observations L) x) = Some c" "sr_charged_tokens rc = word_of_int c"
    and "recovery_state_of K C all_done L2 (rr_scope r) x (word_of_int i) = Inr (Settled rc)"
    and "\<And>y j s. reservation_of L y = Some j \<Longrightarrow> j \<noteq> i \<Longrightarrow>
      recovery_state_of K C all_done L2 s y (word_of_int j) = recovery_state_of K C all_done L s y (word_of_int j)"
proof -
  obtain c where f: "dispatched L x" "final_charge C (map_of (sl_observations L) x) = Some c"
      "stored_receipt L i = None"
    by (rule ready_facts [OF inv(1) b ready])
  define ts where "ts = unix_timestamp (wo_utc w)"
  define L2 where "L2 = add_receipt (settle_row L i c ts) rid i (rr_scope r) c ts"
  let ?w = "w\<lparr>wo_entropy := \<lambda>_. wo_entropy w k\<rparr>"
  have w: "world_ok K ?w" "wo_engine ?w = all_done" "opaque_id (wo_entropy ?w 0) = Inr rid"
    using world draw by (auto simp: world_ok_def)
  note eff = settle_effect [OF inv b f scope w(3) draw(2) world(1) w(1,2)]
  have L2: "L2 = add_receipt (settle_row L i c (unix_timestamp (wo_utc ?w))) rid i (rr_scope r) c
      (unix_timestamp (wo_utc ?w))" by (simp add: L2_def ts_def)
  note eff = eff [folded L2]
  have "scope_of L2 j = scope_of L j" for j
    by (cases "map_of (sl_reservations L) j")
      (simp_all add: L2_def add_receipt_def scope_of_def map_of_settle_row)
  then have same: "same_inventory L L2"
    by (simp add: same_inventory_def L2_def add_receipt_def ext)
  let ?rc = "\<lparr>sr_receipt_id = rid, sr_reservation_id = word_of_int i, sr_scope = rr_scope r,
                sr_charged_tokens = word_of_int c, sr_settled_at = ts\<rparr>"
  have settled: "recovery_state_of K C all_done L2 (rr_scope r) x (word_of_int i) = Inr (Settled ?rc)"
    using recovery_state_dispatched [OF eff(1,3,4)] eff(5) by (simp add: reported_state_def ts_def)
  have other: "recovery_state_of K C all_done L2 s y (word_of_int j) =
      recovery_state_of K C all_done L s y (word_of_int j)"
    if "reservation_of L y = Some j" "j \<noteq> i" for y j s
  proof (rule recovery_state_cong)
    have "0 < j \<and> j \<le> sl_sequence L"
      using inv(1) that(1) by (auto simp: evidence_inv_def intent_ok_def)
    moreover have "sl_sequence L < 2 ^ 63" using inv(1) by (simp add: evidence_inv_def bounded_ids_def)
    ultimately show "0 \<le> j" and "j < 2 ^ 63" by auto
  qed (use that(2) in \<open>auto simp: L2_def add_receipt_def map_of_settle_row find_receipt_def find_snoc option.map_ident
        split: option.split\<close>)
  show thesis
    by (rule that [OF _ eff(1,2) same _ f(2) _ settled other])
      (use settle_ready [OF inv b f scope draw, of "wo_utc w"] in
        \<open>auto simp: L2_def ts_def add_receipt_def\<close>)
qed

section \<open>Settling a page\<close>

abbreviation state_of ::
  "calendar \<Rightarrow> usage_codec \<Rightarrow> sqlite_ledger \<Rightarrow> string \<times> int \<Rightarrow> evidence_error + recovery_state" where
  "state_of K C L p \<equiv>
     recovery_state_of K C all_done L (the (scope_of L (snd p))) (fst p) (word_of_int (snd p))"

definition intent_rows :: "sqlite_ledger \<Rightarrow> (string \<times> int) list" where
  "intent_rows L = map (\<lambda>(x, t). (x, in_reservation_id t)) (sl_intents L)"

text \<open>
  A ledger swept so far: from \<open>L0\<close>, the ready executions among \<open>V\<close> have been settled and nothing
  else about the inventory has changed.
\<close>

definition settled_since ::
  "calendar \<Rightarrow> usage_codec \<Rightarrow> sqlite_ledger \<Rightarrow> sqlite_ledger \<Rightarrow> string \<times> int \<Rightarrow> bool" where
  "settled_since K C L0 L p \<longleftrightarrow>
     (if state_of K C L0 p = Inr ReadyToSettle
      then \<exists>rc c. state_of K C L p = Inr (Settled rc) \<and>
             final_charge C (map_of (sl_observations L0) (fst p)) = Some c \<and>
             sr_charged_tokens rc = word_of_int c
      else state_of K C L p = state_of K C L0 p)"

definition swept ::
  "calendar \<Rightarrow> usage_codec \<Rightarrow> sqlite_ledger \<Rightarrow> (string \<times> int) set \<Rightarrow> sqlite_ledger \<Rightarrow> bool" where
  "swept K C L0 V L \<longleftrightarrow>
     evidence_inv K C L \<and> row_ids L \<and> same_inventory L0 L \<and>
     (\<forall>p \<in> set (intent_rows L0).
        if p \<in> V then settled_since K C L0 L p else state_of K C L p = state_of K C L0 p)"

lemma intent_rows_reservation:
  assumes "evidence_inv K C L"
  shows "(x, i) \<in> set (intent_rows L) \<longleftrightarrow> reservation_of L x = Some i"
proof -
  have "distinct (map fst (sl_intents L))" using assms by (simp add: evidence_inv_def)
  then show ?thesis by (force simp: intent_rows_def reservation_of_def)
qed

lemma scope_intents_rows: "scope_intents L s = filter (\<lambda>p. scope_of L (snd p) = Some s) (intent_rows L)"
  by (simp add: scope_intents_def intent_rows_def split_def)

lemma distinct_intent_rows:
  assumes "evidence_inv K C L"
  shows "distinct (map fst (intent_rows L))" and "distinct (map snd (intent_rows L))"
proof -
  show fst: "distinct (map fst (intent_rows L))"
    using assms by (simp add: evidence_inv_def intent_rows_def split_def comp_def)
  have "inj_on snd (set (intent_rows L))"
  proof (rule inj_onI)
    fix p q
    assume "p \<in> set (intent_rows L)" "q \<in> set (intent_rows L)" "snd p = snd q"
    then have "reservation_of L (fst p) = Some (snd p)" "reservation_of L (fst q) = Some (snd p)"
      using intent_rows_reservation [OF assms] by (metis prod.collapse)+
    then have "fst p = fst q" using assms by (auto simp: evidence_inv_def)
    with \<open>snd p = snd q\<close> show "p = q" by (simp add: prod_eq_iff)
  qed
  then show "distinct (map snd (intent_rows L))"
    using fst by (simp add: distinct_map)
qed

lemma swept_init: "evidence_inv K C L \<Longrightarrow> row_ids L \<Longrightarrow> swept K C L {} L"
  by (simp add: swept_def same_inventory_def)

lemma swept_visit:
  assumes "swept K C L0 V L" and "p \<in> set (intent_rows L0)" and "state_of K C L0 p \<noteq> Inr ReadyToSettle"
  shows "swept K C L0 (insert p V) L"
proof -
  have each: "if q \<in> V then settled_since K C L0 L q else state_of K C L q = state_of K C L0 q"
    if "q \<in> set (intent_rows L0)" for q
    using assms(1) that unfolding swept_def by blast
  have "settled_since K C L0 L p"
    using each [OF assms(2)] assms(3) by (simp add: settled_since_def split: if_split_asm)
  then have "if q \<in> insert p V then settled_since K C L0 L q else state_of K C L q = state_of K C L0 q"
    if "q \<in> set (intent_rows L0)" for q
    using each [OF that] by (cases "q = p") simp_all
  with assms(1) show ?thesis unfolding swept_def by blast
qed

lemma settled_since_cong:
  "state_of K C L' p = state_of K C L p \<Longrightarrow> settled_since K C L0 L' p = settled_since K C L0 L p"
  by (simp add: settled_since_def)

lemma swept_settle:
  assumes sw: "swept K C L0 V L" and p: "p \<in> set (intent_rows L0)" "p \<notin> V"
    and ready: "state_of K C L0 p = Inr ReadyToSettle"
    and scope: "scope_of L0 (snd p) = Some s" "validate_scope s = Inr ()"
    and draw: "opaque_id (wo_entropy w k) = Inr rid" "map_of (sl_outbox L) rid = None"
    and world: "codec_ok C" "world_ok K w" "wo_engine w = all_done"
  obtains out L2 where
    "settle_terminal_durable K C all_done (wo_entropy w k) (wo_utc w) L s (fst p) = (Inr out, L2)"
    and "swept K C L0 (insert p V) L2"
    and "fst ` set (sl_outbox L2) = insert rid (fst ` set (sl_outbox L))"
proof -
  obtain x i where xi: "p = (x, i)" by fastforce
  have inv: "evidence_inv K C L" "row_ids L" and same: "same_inventory L0 L"
    using sw by (simp_all add: swept_def)
  have rows: "intent_rows L = intent_rows L0" using same by (simp add: same_inventory_def intent_rows_def)
  have x: "reservation_of L x = Some i"
    using p(1) intent_rows_reservation [OF inv(1)] by (simp add: rows xi)
  have "scope_of L i = Some s" using scope(1) same by (simp add: same_inventory_def xi)
  then obtain r where r: "map_of (sl_reservations L) i = Some r" "rr_scope r = s"
    by (auto simp: scope_of_def)
  have b: "bound L x i r" using x r by (simp add: bound_def)
  have "state_of K C L p = Inr ReadyToSettle" using sw p ready by (simp add: swept_def)
  then have st: "recovery_state_of K C all_done L (rr_scope r) x (word_of_int i) = Inr ReadyToSettle"
    using \<open>scope_of L i = Some s\<close> r by (simp add: xi)
  have valid: "validate_scope (rr_scope r) = Inr ()" using scope(2) r by simp
  obtain out L2 rc c where s:
    "settle_terminal_durable K C all_done (wo_entropy w k) (wo_utc w) L (rr_scope r) x = (Inr out, L2)"
    "evidence_inv K C L2" "row_ids L2" "same_inventory L L2"
    "fst ` set (sl_outbox L2) = insert rid (fst ` set (sl_outbox L))"
    "final_charge C (map_of (sl_observations L) x) = Some c" "sr_charged_tokens rc = word_of_int c"
    "recovery_state_of K C all_done L2 (rr_scope r) x (word_of_int i) = Inr (Settled rc)"
    and other: "\<And>y j s. reservation_of L y = Some j \<Longrightarrow> j \<noteq> i \<Longrightarrow>
      recovery_state_of K C all_done L2 s y (word_of_int j) = recovery_state_of K C all_done L s y (word_of_int j)"
    by (rule settle_one [OF inv b st valid draw world]) blast
  have same2: "same_inventory L0 L2" using same s(4) by (simp add: same_inventory_def)
  have scopes: "scope_of L2 = scope_of L" using s(4) by (simp add: same_inventory_def)
  have this_one: "settled_since K C L0 L2 p"
    using s(6,7,8) ready r same \<open>scope_of L i = Some s\<close>
    by (auto simp: settled_since_def xi scopes same_inventory_def)
  have others: "state_of K C L2 q = state_of K C L q" if q: "q \<in> set (intent_rows L0)" "q \<noteq> p" for q
  proof -
    have "reservation_of L (fst q) = Some (snd q)"
      using q(1) intent_rows_reservation [OF inv(1)] by (metis prod.collapse rows)
    moreover have "snd q \<noteq> i"
    proof
      assume "snd q = i"
      with calculation x have "fst q = x" using inv(1) by (auto simp: evidence_inv_def)
      with \<open>snd q = i\<close> q(2) show False by (simp add: xi prod_eq_iff)
    qed
    ultimately show ?thesis using other by (simp add: scopes)
  qed
  have "if q \<in> insert p V then settled_since K C L0 L2 q else state_of K C L2 q = state_of K C L0 q"
    if q: "q \<in> set (intent_rows L0)" for q
  proof (cases "q = p")
    case False
    have "if q \<in> V then settled_since K C L0 L q else state_of K C L q = state_of K C L0 q"
      using sw q unfolding swept_def by blast
    with False others [OF q False] settled_since_cong [OF others [OF q False], of L0] show ?thesis
      by (cases "q \<in> V") simp_all
  qed (simp add: this_one)
  with same2 s(2,3) have "swept K C L0 (insert p V) L2" unfolding swept_def by blast
  then show thesis using that [of out L2] s(1,5) r by (simp add: xi)
qed

text \<open>The executions a sweep can only count.\<close>

definition unresolved :: "calendar \<Rightarrow> usage_codec \<Rightarrow> sqlite_ledger \<Rightarrow> string \<times> int \<Rightarrow> bool" where
  "unresolved K C L p \<longleftrightarrow>
     (case state_of K C L p of
        Inr ReadyToSettle \<Rightarrow> False
      | Inr (Settled _) \<Rightarrow> False
      | Inr (ClosedBeforeDispatch _) \<Rightarrow> False
      | _ \<Rightarrow> True)"

definition entry_of ::
  "calendar \<Rightarrow> usage_codec \<Rightarrow> sqlite_ledger \<Rightarrow> string \<times> int \<Rightarrow> recovery_entry \<Rightarrow> bool" where
  "entry_of K C L p e \<longleftrightarrow> re_execution_id e = fst p \<and> state_of K C L p = Inr (re_state e)"

lemma disjoint_subset: "A \<subseteq> B \<Longrightarrow> B \<inter> X = {} \<Longrightarrow> A \<inter> X = {}"
  by blast

lemma disjoint_insert: "A \<subseteq> B \<Longrightarrow> B \<inter> X = {} \<Longrightarrow> k \<notin> A \<Longrightarrow> A \<inter> insert k X = {}"
  by blast

lemma subset_grow: "Y \<subseteq> insert k X \<union> A \<Longrightarrow> A \<subseteq> B \<Longrightarrow> k \<in> B \<Longrightarrow> Y \<subseteq> X \<union> B"
  by blast

lemma settle_entries_done:
  assumes "list_all2 (entry_of K C L0) rows es"
    and "set rows \<subseteq> set (scope_intents L0 s)" and "distinct rows" and "set rows \<inter> V = {}"
    and "swept K C L0 V L" and "tracked_ledger S = Inr L" and "validate_scope s = Inr ()"
    and world: "codec_ok C" "world_ok K w" "wo_engine w = all_done"
    and "\<forall>j \<in> {k ..< k + length rows}. opaque_id (wo_entropy w j) = Inr (draw j)"
    and "inj_on draw {k ..< k + length rows}"
    and "draw ` {k ..< k + length rows} \<inter> fst ` set (sl_outbox L) = {}"
  shows "\<exists>n S' L'. settle_entries K C w k s c S es =
      (Inr n, c\<lparr>rv_unresolved := rv_unresolved c + length (filter (unresolved K C L0) rows)\<rparr>, S') \<and>
    tracked_ledger S' = Inr L' \<and> swept K C L0 (V \<union> set rows) L' \<and>
    fst ` set (sl_outbox L') \<subseteq> fst ` set (sl_outbox L) \<union> draw ` {k ..< k + length rows}"
  using assms(1-7,11-)
proof (induction rows es arbitrary: k V L S c rule: list_all2_induct)
  case Nil
  then show ?case by simp
next
  case (Cons p rows e es)
  let ?range = "{Suc k ..< Suc k + length rows}"
  have p: "p \<in> set (intent_rows L0)" "scope_of L0 (snd p) = Some s" "p \<notin> V"
    using Cons.prems(1,3) by (auto simp: scope_intents_rows)
  have st: "state_of K C L0 p = Inr (re_state e)" and id: "re_execution_id e = fst p"
    using Cons.hyps(1) by (simp_all add: entry_of_def)
  have sub: "?range \<subseteq> {k ..< k + length (p # rows)}" by auto
  have rest: "set rows \<subseteq> set (scope_intents L0 s)" "distinct rows" "set rows \<inter> insert p V = {}"
    using Cons.prems(1-3) by auto
  have draws: "\<forall>j \<in> ?range. opaque_id (wo_entropy w j) = Inr (draw j)" "inj_on draw ?range"
    using Cons.prems(7) inj_on_subset [OF Cons.prems(8) sub] sub by auto
  show ?case
  proof (cases "re_state e = ReadyToSettle")
    case True
    have k: "k \<in> {k ..< k + length (p # rows)}" by simp
    have "draw k \<notin> fst ` set (sl_outbox L)" using Cons.prems(9) k by blast
    then have new: "opaque_id (wo_entropy w k) = Inr (draw k)" "map_of (sl_outbox L) (draw k) = None"
      using Cons.prems(7) k by (auto simp: map_of_eq_None_iff)
    obtain out L2 where s:
      "settle_terminal_durable K C all_done (wo_entropy w k) (wo_utc w) L s (fst p) = (Inr out, L2)"
      "swept K C L0 (insert p V) L2"
      "fst ` set (sl_outbox L2) = insert (draw k) (fst ` set (sl_outbox L))"
      by (rule swept_settle [OF Cons.prems(4) p(1,3) st [unfolded True] p(2) Cons.prems(6) new world])
    have path: "sl_path L2 = sl_path L"
      using s(2) Cons.prems(4) by (simp add: swept_def same_inventory_def)
    have notin: "draw k \<notin> draw ` ?range"
      using Cons.prems(8) by (auto dest!: inj_onD)
    have fresh: "draw ` ?range \<inter> fst ` set (sl_outbox L2) = {}"
      unfolding s(3) by (rule disjoint_insert [OF image_mono [OF sub] Cons.prems(9) notin])
    obtain n S' L' where ih: "settle_entries K C w (Suc k) s c (put_shard S 0 L2) es =
        (Inr n, c\<lparr>rv_unresolved := rv_unresolved c + length (filter (unresolved K C L0) rows)\<rparr>, S')"
      "tracked_ledger S' = Inr L'" "swept K C L0 (insert p V \<union> set rows) L'"
      "fst ` set (sl_outbox L') \<subseteq> fst ` set (sl_outbox L2) \<union> draw ` ?range"
      using Cons.IH [OF rest s(2) tracked_put(1) [OF Cons.prems(5) path] Cons.prems(6) draws fresh] by blast
    have "settle_entries K C w k s c S (e # es) =
        (Inr (Suc n), c\<lparr>rv_unresolved := rv_unresolved c + length (filter (unresolved K C L0) (p # rows))\<rparr>, S')"
      using ih(1) s(1) True st
      by (simp add: sh_settle_terminal_durable_def on_tracked_eq [OF Cons.prems(5)] world(3) id unresolved_def)
    moreover have "fst ` set (sl_outbox L') \<subseteq> fst ` set (sl_outbox L) \<union> draw ` {k ..< k + length (p # rows)}"
      by (rule subset_grow [OF ih(4) [unfolded s(3)] image_mono [OF sub] imageI [OF k]])
    moreover have "swept K C L0 (V \<union> set (p # rows)) L'" using ih(3) by simp
    ultimately show ?thesis using ih(2) by blast
  next
    case False
    have sw: "swept K C L0 (insert p V) L" using swept_visit [OF Cons.prems(4) p(1)] st False by simp
    have "{k ..< k + length rows} \<subseteq> {k ..< k + length (p # rows)}" by auto
    note d = this
    have draws: "\<forall>j \<in> {k ..< k + length rows}. opaque_id (wo_entropy w j) = Inr (draw j)"
      "inj_on draw {k ..< k + length rows}" "draw ` {k ..< k + length rows} \<inter> fst ` set (sl_outbox L) = {}"
      using Cons.prems(7) inj_on_subset [OF Cons.prems(8) d] d
        disjoint_subset [OF image_mono [OF d] Cons.prems(9)] by auto
    let ?c = "if unresolved K C L0 p then c\<lparr>rv_unresolved := rv_unresolved c + 1\<rparr> else c"
    obtain n S' L' where ih: "settle_entries K C w k s ?c S es =
        (Inr n, ?c\<lparr>rv_unresolved := rv_unresolved ?c + length (filter (unresolved K C L0) rows)\<rparr>, S')"
      "tracked_ledger S' = Inr L'" "swept K C L0 (insert p V \<union> set rows) L'"
      "fst ` set (sl_outbox L') \<subseteq> fst ` set (sl_outbox L) \<union> draw ` {k ..< k + length rows}"
      using Cons.IH [OF rest sw Cons.prems(5,6) draws] by blast
    have skip: "settle_entries K C w k s c S (e # es) = settle_entries K C w k s ?c S es"
      using st False by (cases "re_state e") (simp_all add: unresolved_def)
    have "?c\<lparr>rv_unresolved := rv_unresolved ?c + length (filter (unresolved K C L0) rows)\<rparr> =
        c\<lparr>rv_unresolved := rv_unresolved c + length (filter (unresolved K C L0) (p # rows))\<rparr>"
      by simp
    with skip ih(1) have "settle_entries K C w k s c S (e # es) =
        (Inr n, c\<lparr>rv_unresolved := rv_unresolved c + length (filter (unresolved K C L0) (p # rows))\<rparr>, S')"
      by presburger
    moreover have "fst ` set (sl_outbox L') \<subseteq> fst ` set (sl_outbox L) \<union> draw ` {k ..< k + length (p # rows)}"
      by (rule subset_trans [OF ih(4) Un_mono [OF subset_refl image_mono [OF d]]])
    moreover have "swept K C L0 (V \<union> set (p # rows)) L'" using ih(3) by simp
    ultimately show ?thesis using ih(2) by blast
  qed
qed

section \<open>Pages\<close>

definition scope_rows :: "sqlite_ledger \<Rightarrow> string \<Rightarrow> (string \<times> int) list" where
  "scope_rows L s = sort_key snd (scope_intents L s)"

definition rows_after :: "sqlite_ledger \<Rightarrow> string \<Rightarrow> int \<Rightarrow> (string \<times> int) list" where
  "rows_after L s a = filter (\<lambda>p. a < snd p) (scope_rows L s)"

abbreviation scope_through :: "sqlite_ledger \<Rightarrow> string \<Rightarrow> int" where
  "scope_through L s \<equiv> max_id (map snd (scope_intents L s))"

definition page_after :: "recovery_cursor option \<Rightarrow> int" where
  "page_after cursor = (case cursor of None \<Rightarrow> 0 | Some pc \<Rightarrow> uint (rc_after_id pc))"

definition page_cursor_ok :: "sqlite_ledger \<Rightarrow> string \<Rightarrow> recovery_cursor option \<Rightarrow> bool" where
  "page_cursor_ok L s cursor \<longleftrightarrow>
     (case cursor of
        None \<Rightarrow> True
      | Some pc \<Rightarrow> rc_scope pc = s \<and> rc_through_id pc = word_of_int (scope_through L s) \<and>
                   0 < rc_after_id pc \<and> rc_after_id pc \<le> rc_through_id pc)"

lemma max_id_ge: "i \<in> set ids \<Longrightarrow> i \<le> max_id ids"
proof -
  have "a \<le> fold max ids a \<and> (i \<in> set ids \<longrightarrow> i \<le> fold max ids a)" for a
  proof (induction ids arbitrary: a)
    case (Cons b ids)
    from Cons.IH [of "max b a"] show ?case by auto
  qed simp
  then show "i \<in> set ids \<Longrightarrow> i \<le> max_id ids" by (simp add: max_id_def)
qed

lemma max_id_less: "\<forall>i \<in> set ids. i < b \<Longrightarrow> 0 < b \<Longrightarrow> max_id ids < b"
proof -
  have "a < b \<Longrightarrow> \<forall>i \<in> set ids. i < b \<Longrightarrow> fold max ids a < b" for a
    by (induction ids arbitrary: a) auto
  then show "\<forall>i \<in> set ids. i < b \<Longrightarrow> 0 < b \<Longrightarrow> max_id ids < b" by (simp add: max_id_def)
qed

lemma scope_through_range:
  assumes "evidence_inv K C L"
  shows "0 \<le> scope_through L s" and "scope_through L s < 2 ^ 63"
proof -
  show "0 \<le> scope_through L s" by (rule max_id_nonneg)
  have "i < 2 ^ 63" if "(x, i) \<in> set (scope_intents L s)" for x i
    by (rule scope_intents_row [OF assms that])
  then show "scope_through L s < 2 ^ 63" by (intro max_id_less) auto
qed

lemma page_rows_after:
  assumes inv: "evidence_inv K C L"
  shows "page_rows L s a (uint (word_of_int (scope_through L s) :: u64)) = rows_after L s a"
proof -
  have "uint (word_of_int (scope_through L s) :: u64) = scope_through L s"
    using scope_through_range [OF inv, of s] by (simp add: uint_word_of_int_eq)
  moreover have "snd p \<le> scope_through L s" if "p \<in> set (scope_intents L s)" for p
    using that by (simp add: max_id_ge)
  ultimately show ?thesis
    by (auto simp: page_rows_def rows_after_def scope_rows_def filter_sort split_def intro!: arg_cong [of _ _ "sort_key snd"] filter_cong)
qed

lemma scope_rows_sorted:
  assumes "evidence_inv K C L"
  shows "sorted_wrt (<) (map snd (scope_rows L s))" and "sorted_wrt (<) (map snd (rows_after L s a))"
proof -
  have "distinct (map snd (scope_intents L s))"
    unfolding scope_intents_rows using distinct_intent_rows(2) [OF assms] by (rule distinct_map_filter)
  then have "distinct (map snd (scope_rows L s))"
    by (metis mset_sort mset_map mset_eq_imp_distinct_iff scope_rows_def)
  then show "sorted_wrt (<) (map snd (scope_rows L s))"
    by (simp add: strict_sorted_iff scope_rows_def)
  then show "sorted_wrt (<) (map snd (rows_after L s a))"
    by (simp add: rows_after_def sorted_wrt_map sorted_wrt_filter)
qed

lemma filter_after_drop:
  fixes f :: "'a \<Rightarrow> int"
  assumes "sorted_wrt (<) (map f xs)" and "0 < n" and "n \<le> length xs"
  shows "filter (\<lambda>x. f (xs ! (n - 1)) < f x) xs = drop n xs"
proof -
  have lt: "f (xs ! i) < f (xs ! j)" if "i < j" "j < length xs" for i j
    using sorted_wrt_nth_less [OF assms(1), of i j] that by simp
  have "filter (\<lambda>x. f (xs ! (n - 1)) < f x) (take n xs) = []"
  proof -
    have "\<not> f (xs ! (n - 1)) < f x" if "x \<in> set (take n xs)" for x
    proof -
      obtain i where i: "i < n" "i < length xs" "x = xs ! i"
        using \<open>x \<in> set (take n xs)\<close> by (auto simp: in_set_conv_nth)
      show ?thesis
      proof (cases "i = n - 1")
        case False
        with i assms(3) have "f (xs ! i) < f (xs ! (n - 1))" by (intro lt) auto
        with i(3) show ?thesis by simp
      qed (simp add: i(3))
    qed
    then show ?thesis by (simp add: filter_empty_conv)
  qed
  moreover have "filter (\<lambda>x. f (xs ! (n - 1)) < f x) (drop n xs) = drop n xs"
  proof (rule filter_True, rule ballI)
    fix x
    assume "x \<in> set (drop n xs)"
    then obtain i where "i < length xs - n" "x = xs ! (n + i)"
      using assms(3) by (auto simp: in_set_conv_nth)
    then have "n + i < length xs" "x = xs ! (n + i)" by simp_all
    with lt [of "n - 1" "n + i"] assms(2) show "f (xs ! (n - 1)) < f x" by auto
  qed
  ultimately show ?thesis by (metis append_take_drop_id filter_append append_Nil)
qed

lemma rows_after_next:
  assumes inv: "evidence_inv K C L" and n: "0 < n" "n \<le> length (rows_after L s a)"
  shows "rows_after L s (snd (rows_after L s a ! (n - 1))) = drop n (rows_after L s a)"
proof -
  let ?b = "snd (rows_after L s a ! (n - 1))"
  have "rows_after L s a ! (n - 1) \<in> set (rows_after L s a)" using n by simp
  then have "a < ?b" by (simp add: rows_after_def)
  then have "rows_after L s ?b = filter (\<lambda>p. ?b < snd p) (rows_after L s a)"
    by (auto simp: rows_after_def intro!: filter_cong)
  with filter_after_drop [OF scope_rows_sorted(2) [OF inv] n] show ?thesis by simp
qed

lemma page_step:
  assumes inv: "evidence_inv K C L" and scope: "validate_scope s = Inr ()"
    and cursor: "page_cursor_ok L s cursor"
  defines "R \<equiv> rows_after L s (page_after cursor)"
  obtains es "next" where "recovery_page_durable K C all_done L s cursor 32 =
      Inr \<lparr>rp_entries = es, rp_next = next\<rparr>"
    and "list_all2 (entry_of K C L) (take 32 R) es"
    and "length R \<le> 32 \<Longrightarrow> next = None"
    and "length R > 32 \<Longrightarrow> next \<noteq> None \<and> page_cursor_ok L s next \<and> rows_after L s (page_after next) = drop 32 R"
proof -
  define through :: u64 where "through = word_of_int (scope_through L s)"
  define after :: u64 where "after = (case cursor of None \<Rightarrow> 0 | Some pc \<Rightarrow> rc_after_id pc)"
  have range: "0 \<le> scope_through L s" "scope_through L s < 2 ^ 63"
    by (rule scope_through_range [OF inv])+
  have through: "uint through = scope_through L s" "unat through < 2 ^ 63"
    using range by (simp_all add: through_def uint_word_of_int_eq unat_word_of_int)
  have check: "check_cursor s cursor = Inr ()"
    using cursor through(2) by (auto simp: check_cursor_def page_cursor_ok_def through_def split: option.split_asm)
  have bounds: "page_bounds all_done L s cursor = Inr (after, through)"
    using cursor range
    by (auto simp: page_bounds_def page_cursor_ok_def after_def through_def get_u64_def split: option.split_asm)
  have rows: "page_rows L s (uint after) (uint through) = R"
    using page_rows_after [OF inv, of s "uint after"]
    by (simp add: R_def through_def after_def page_after_def split: option.split)
  obtain es "next" where page: "recovery_page_durable K C all_done L s cursor 32 =
      Inr \<lparr>rp_entries = es, rp_next = next\<rparr>"
    and entries: "list_all2 (\<lambda>(x, i) e. re_execution_id e = x \<and> re_reservation_id e = word_of_int i \<and>
        recovery_state_of K C all_done L s x (word_of_int i) = Inr (re_state e)) (take 32 R) es"
    and "next": "next = (if length R > 32
      then Some \<lparr>rc_scope = s, rc_after_id = re_reservation_id (last es), rc_through_id = through\<rparr> else None)"
    using recovery_page_done [OF inv scope _ _ check bounds, of 32] unfolding rows by auto
  have sub: "set R \<subseteq> set (scope_intents L s)" by (auto simp: R_def rows_after_def scope_rows_def)
  have len: "length es = length (take 32 R)" by (rule list_all2_lengthD [OF entries, symmetric])
  have nth: "re_execution_id (es ! k) = fst (R ! k) \<and> re_reservation_id (es ! k) = word_of_int (snd (R ! k)) \<and>
      recovery_state_of K C all_done L s (fst (R ! k)) (word_of_int (snd (R ! k))) = Inr (re_state (es ! k))"
    if "k < length es" for k
    using list_all2_nthD2 [OF entries that] that len by (simp add: split_def)
  have row: "R ! k \<in> set (scope_intents L s)" if "k < length es" for k
    using sub that len by (auto dest: nth_mem)
  have "entry_of K C L (R ! k) (es ! k)" if "k < length es" for k
    using nth [OF that] row [OF that] by (simp add: entry_of_def scope_intents_rows)
  then have "list_all2 (entry_of K C L) (take 32 R) es"
    using len by (simp add: list_all2_conv_all_nth)
  moreover have "next = None" if "length R \<le> 32" using that by (simp add: "next")
  moreover have "next \<noteq> None \<and> page_cursor_ok L s next \<and> rows_after L s (page_after next) = drop 32 R"
    if more: "length R > 32"
  proof -
    have l: "length es = 32" using len more by simp
    then have last: "last es = es ! 31" by (simp add: last_conv_nth flip: length_0_conv)
    have mem: "(fst (R ! 31), snd (R ! 31)) \<in> set (scope_intents L s)" using row [of 31] l by simp
    have i: "0 < snd (R ! 31)" "snd (R ! 31) < 2 ^ 63"
      by (rule scope_intents_row [OF inv mem], simp)+
    have le: "snd (R ! 31) \<le> scope_through L s" using mem by (auto intro!: max_id_ge)
    have after: "uint (re_reservation_id (last es)) = snd (R ! 31)"
      using nth [of 31] l i by (simp add: last uint_word_of_int_eq)
    have "page_cursor_ok L s next"
      using more after i le through(1)
      by (simp add: "next" page_cursor_ok_def through_def word_less_def word_le_def)
    moreover have "rows_after L s (page_after next) = drop 32 R"
      using rows_after_next [OF inv, of 32 s "page_after cursor"] more after
      by (simp add: "next" page_after_def R_def)
    ultimately show ?thesis using more by (simp add: "next")
  qed
  ultimately show thesis using that page by blast
qed

section \<open>Scopes\<close>

definition scope_list :: "sqlite_ledger \<Rightarrow> string list" where
  "scope_list L = sorted_list_of_set (set (map (\<lambda>p. the (scope_of L (snd p))) (intent_rows L)))"

definition scopes_after :: "sqlite_ledger \<Rightarrow> string \<Rightarrow> string list" where
  "scopes_after L a = filter (\<lambda>s. a < s) (scope_list L)"

definition inventory_through :: "sqlite_ledger \<Rightarrow> u64" where
  "inventory_through L = word_of_int (max_id (map snd (intent_rows L)))"

definition scope_after :: "scope_cursor option \<Rightarrow> string" where
  "scope_after cursor = (case cursor of None \<Rightarrow> [] | Some sc \<Rightarrow> sc_after sc)"

definition valid_scopes :: "sqlite_ledger \<Rightarrow> bool" where
  "valid_scopes L \<longleftrightarrow> (\<forall>s \<in> set (scope_list L). validate_scope s = Inr ())"

lemma sort_map_Some: "sort (map Some xs) = map Some (sort (xs :: string list))"
proof (rule properties_for_sort)
  show "mset (map Some (sort xs)) = mset (map Some xs)" by simp
  show "sorted (map Some (sort xs))"
    by (simp add: sorted_map)
qed

lemma remdups_map_Some: "remdups (map Some xs) = map Some (remdups xs)"
  by (induction xs) auto

lemma intent_scope:
  assumes inv: "evidence_inv K C L" and p: "p \<in> set (intent_rows L)"
  obtains s where "scope_of L (snd p) = Some s" and "s \<in> set (scope_list L)" and "p \<in> set (scope_intents L s)"
    and "0 < snd p" and "snd p < 2 ^ 63"
proof -
  have "reservation_of L (fst p) = Some (snd p)"
    using p intent_rows_reservation [OF inv] by (metis prod.collapse)
  then have ok: "intent_ok K C L (fst p) (snd p)" using inv by (simp add: evidence_inv_def)
  then obtain s where s: "scope_of L (snd p) = Some s"
    by (auto simp: intent_ok_def scope_of_def)
  have "s \<in> (\<lambda>p. the (scope_of L (snd p))) ` set (intent_rows L)"
    using s p by (intro image_eqI [of _ _ p]) simp_all
  then have "s \<in> set (scope_list L)" by (simp add: scope_list_def)
  moreover have "p \<in> set (scope_intents L s)" using s p by (simp add: scope_intents_rows)
  moreover have "0 < snd p" "snd p < 2 ^ 63"
    using ok inv by (auto simp: intent_ok_def evidence_inv_def bounded_ids_def)
  ultimately show thesis using that s by blast
qed

lemma scopes_step:
  assumes inv: "evidence_inv K C L" and valid: "valid_scopes L"
    and cursor: "\<And>sc. cursor = Some sc \<Longrightarrow> sc_through_id sc = inventory_through L"
  shows "recovery_scopes_durable all_done L cursor 1 =
    Inr (case scopes_after L (scope_after cursor) of
           [] \<Rightarrow> \<lparr>sp_scopes = [], sp_next = None\<rparr>
         | s # _ \<Rightarrow> \<lparr>sp_scopes = [s],
                      sp_next = Some \<lparr>sc_after = s, sc_through_id = inventory_through L\<rparr>\<rparr>)"
proof -
  let ?rows = "intent_rows L" and ?a = "scope_after cursor" and ?T = "inventory_through L"
  let ?max = "max_id (map snd ?rows)"
  have range: "0 \<le> ?max" "?max < 2 ^ 63"
  proof -
    show "0 \<le> ?max" by (rule max_id_nonneg)
    have "snd p < 2 ^ 63" if "p \<in> set ?rows" for p by (rule intent_scope [OF inv that])
    then show "?max < 2 ^ 63" by (intro max_id_less) auto
  qed
  then have T: "uint ?T = ?max" "unat ?T < 2 ^ 63"
    by (simp_all add: inventory_through_def uint_word_of_int_eq unat_word_of_int)
  have ids: "max_id (map (\<lambda>(_, t). in_reservation_id t) (sl_intents L)) = ?max"
    by (simp add: intent_rows_def split_def comp_def)
  have scope: "scope_of L (snd p) = Some (the (scope_of L (snd p)))" if "p \<in> set ?rows" for p
    by (rule intent_scope [OF inv that]) simp
  let ?names = "map (\<lambda>p. the (scope_of L (snd p))) ?rows"
  have "filter (\<lambda>(_, t). in_reservation_id t \<le> uint ?T) (sl_intents L) = sl_intents L"
  proof (rule filter_True, rule ballI)
    fix q
    assume "q \<in> set (sl_intents L)"
    then have "in_reservation_id (snd q) \<in> set (map snd ?rows)"
      by (simp add: intent_rows_def split_def comp_def)
    then show "case q of (_, t) \<Rightarrow> in_reservation_id t \<le> uint ?T"
      using max_id_ge by (auto simp: T(1) split_def)
  qed
  moreover have "map (\<lambda>(_, t). scope_of L (in_reservation_id t)) (sl_intents L) = map Some ?names"
  proof -
    have "map (\<lambda>(_, t). scope_of L (in_reservation_id t)) (sl_intents L) = map (\<lambda>p. scope_of L (snd p)) ?rows"
      by (simp add: intent_rows_def split_def comp_def)
    also have "\<dots> = map Some ?names" using scope by simp
    finally show ?thesis .
  qed
  moreover have "sort (remdups (filter (\<lambda>s. is_none_or s (\<lambda>s. s > ?a)) (map Some ?names))) =
      map Some (scopes_after L ?a)"
  proof -
    have "filter (\<lambda>s. is_none_or s (\<lambda>s. s > ?a)) (map Some ?names) = map Some (filter (\<lambda>s. ?a < s) ?names)"
      by (simp add: filter_map comp_def is_none_or_def)
    moreover have "sort (remdups (filter (\<lambda>s. ?a < s) ?names)) = scopes_after L ?a"
      unfolding scopes_after_def scope_list_def sorted_list_of_set_sort_remdups
      by (simp add: filter_sort remdups_filter)
    ultimately show ?thesis by (simp only: remdups_map_Some sort_map_Some)
  qed
  ultimately have listed: "sort (remdups (filter (\<lambda>s. is_none_or s (\<lambda>s. s > ?a))
      (map (\<lambda>(_, t). scope_of L (in_reservation_id t))
        (filter (\<lambda>(_, t). in_reservation_id t \<le> uint ?T) (sl_intents L))))) = map Some (scopes_after L ?a)"
    by simp
  have through: "(case cursor of Some c \<Rightarrow> Inr (sc_through_id c)
      | None \<Rightarrow> bind_res (stored (statement all_done SelectThrough)) (\<lambda>_.
          stored (get_u64 (max_id (map (\<lambda>(_, t). in_reservation_id t) (sl_intents L)))))) = Inr ?T"
    using cursor range by (auto simp: ids get_u64_def inventory_through_def split: option.split)
  have valid': "validate_scope s = Inr ()" if "scopes_after L ?a = s # ss" for s ss
  proof -
    have "s \<in> set (scopes_after L ?a)" using that by simp
    with valid show ?thesis by (simp add: scopes_after_def valid_scopes_def)
  qed
  have after: "(case cursor of Some c \<Rightarrow> sc_after c | None \<Rightarrow> []) = ?a"
    by (simp add: scope_after_def)
  have i64: "i64_try_from ?T = Inr ?max" using T by (simp add: i64_try_from_Inr)
  show ?thesis
  proof (cases "scopes_after L ?a")
    case Nil
    then show ?thesis
      using listed by (simp add: recovery_scopes_durable_def through after i64)
  next
    case (Cons s ss)
    then show ?thesis
      using listed valid' [OF Cons]
      by (simp add: recovery_scopes_durable_def through after i64)
  qed
qed

section \<open>Rounds\<close>

text \<open>The executions a cursor has still to visit, in order.\<close>

definition pending :: "sqlite_ledger \<Rightarrow> recovery \<Rightarrow> (string \<times> int) list" where
  "pending L c =
     (case rv_current c of None \<Rightarrow> [] | Some s \<Rightarrow> rows_after L s (page_after (rv_page c))) @
     concat (map (scope_rows L) (scopes_after L (scope_after (rv_scopes c))))"

definition cursor_ok :: "sqlite_ledger \<Rightarrow> recovery \<Rightarrow> bool" where
  "cursor_ok L c \<longleftrightarrow>
     (\<forall>sc. rv_scopes c = Some sc \<longrightarrow> sc_through_id sc = inventory_through L) \<and>
     (case rv_current c of
        None \<Rightarrow> rv_page c = None
      | Some s \<Rightarrow> s \<in> set (scope_list L) \<and> rv_scopes c \<noteq> None \<and> page_cursor_ok L s (rv_page c) \<and>
                  rows_after L s (page_after (rv_page c)) \<noteq> [])"

lemma same_inventory_views:
  assumes "same_inventory L0 L"
  shows "intent_rows L = intent_rows L0" and "scope_intents L = scope_intents L0"
    and "scope_rows L = scope_rows L0" and "rows_after L = rows_after L0" and "scope_list L = scope_list L0"
    and "scopes_after L = scopes_after L0" and "inventory_through L = inventory_through L0"
    and "page_cursor_ok L = page_cursor_ok L0" and "valid_scopes L = valid_scopes L0"
proof -
  show rows: "intent_rows L = intent_rows L0" using assms by (simp add: same_inventory_def intent_rows_def)
  have scope: "scope_of L = scope_of L0" using assms by (simp add: same_inventory_def)
  show scopes: "scope_intents L = scope_intents L0" by (simp add: fun_eq_iff scope_intents_rows rows scope)
  show srows: "scope_rows L = scope_rows L0" by (simp add: fun_eq_iff scope_rows_def scopes)
  show "rows_after L = rows_after L0" by (simp add: fun_eq_iff rows_after_def srows)
  show list: "scope_list L = scope_list L0" by (simp add: scope_list_def rows scope)
  show "scopes_after L = scopes_after L0" by (simp add: fun_eq_iff scopes_after_def list)
  show "inventory_through L = inventory_through L0" by (simp add: inventory_through_def rows)
  show "page_cursor_ok L = page_cursor_ok L0" by (simp add: fun_eq_iff page_cursor_ok_def scopes cong: option.case_cong)
  show "valid_scopes L = valid_scopes L0" by (simp add: valid_scopes_def list)
qed

lemma rows_after_subset: "set (rows_after L s a) \<subseteq> set (scope_intents L s)"
  by (auto simp: rows_after_def scope_rows_def)

lemma round_page:
  assumes sw: "swept K C L0 V L" and S: "tracked_ledger S = Inr L" and valid: "valid_scopes L0"
    and c: "cursor_ok L0 c" "rv_current c = Some s"
    and fresh: "set (pending L0 c) \<inter> V = {}" "distinct (pending L0 c)"
    and world: "codec_ok C" "world_ok K w" "wo_engine w = all_done"
    and draws: "\<forall>j \<in> {0 ..< 32}. opaque_id (wo_entropy w j) = Inr (draw j)" "inj_on draw {0 ..< 32}"
      "draw ` {0 ..< 32} \<inter> fst ` set (sl_outbox L) = {}"
  obtains n visited c' S' L' where "recovery_round K C w c S = (Inr n, c', S')"
    and "tracked_ledger S' = Inr L'" and "visited \<noteq> []" and "pending L0 c = visited @ pending L0 c'"
    and "rv_scopes c' \<noteq> None" and "cursor_ok L0 c'" and "swept K C L0 (V \<union> set visited) L'"
    and "rv_unresolved c' = rv_unresolved c + length (filter (unresolved K C L0) visited)"
    and "rv_retained_after c' = rv_retained_after c \<and> rv_complete c' = rv_complete c"
    and "fst ` set (sl_outbox L') \<subseteq> fst ` set (sl_outbox L) \<union> draw ` {0 ..< 32}"
proof -
  have inv: "evidence_inv K C L" and same: "same_inventory L0 L" using sw by (simp_all add: swept_def)
  note views = same_inventory_views [OF same]
  let ?R = "rows_after L0 s (page_after (rv_page c))"
  define visited where "visited = take 32 ?R"
  have cs: "s \<in> set (scope_list L0)" "rv_scopes c \<noteq> None" "page_cursor_ok L0 s (rv_page c)" "?R \<noteq> []"
    and through: "\<And>sc. rv_scopes c = Some sc \<Longrightarrow> sc_through_id sc = inventory_through L0"
    using c by (auto simp: cursor_ok_def)
  have vs: "validate_scope s = Inr ()" using valid cs(1) by (simp add: valid_scopes_def)
  obtain es "next" where page: "recovery_page_durable K C all_done L s (rv_page c) 32 =
      Inr \<lparr>rp_entries = es, rp_next = next\<rparr>"
    and es: "list_all2 (entry_of K C L) visited es"
    and no: "length ?R \<le> 32 \<Longrightarrow> next = None"
    and more: "length ?R > 32 \<Longrightarrow> next \<noteq> None \<and> page_cursor_ok L0 s next \<and>
      rows_after L0 s (page_after next) = drop 32 ?R"
    by (rule page_step [OF inv vs, unfolded views, OF cs(3)]) (auto simp: visited_def)
  have pend: "pending L0 c = ?R @ concat (map (scope_rows L0) (scopes_after L0 (scope_after (rv_scopes c))))"
    by (simp add: pending_def c(2))
  have sub: "set visited \<subseteq> set ?R" by (auto simp: visited_def dest: in_set_takeD)
  have mem: "set visited \<subseteq> set (scope_intents L0 s)" using sub rows_after_subset by fast
  have disj: "set visited \<inter> V = {}" "distinct visited"
    using fresh sub by (auto simp: pend visited_def)
  have es': "list_all2 (entry_of K C L0) visited es"
    using es
  proof (rule list.rel_mono_strong)
    fix p e
    assume p: "p \<in> set visited" and entry: "entry_of K C L p e"
    have "p \<in> set (intent_rows L0)" using p mem by (auto simp: scope_intents_rows)
    moreover have "p \<notin> V" using disj(1) p by blast
    ultimately have "state_of K C L p = state_of K C L0 p" using sw by (simp add: swept_def)
    with entry show "entry_of K C L0 p e" by (simp add: entry_of_def)
  qed
  let ?range = "{0 ..< 0 + length visited}"
  have range: "?range \<subseteq> {0 ..< 32}" by (auto simp: visited_def)
  have d: "\<forall>j \<in> ?range. opaque_id (wo_entropy w j) = Inr (draw j)" "inj_on draw ?range"
      "draw ` ?range \<inter> fst ` set (sl_outbox L) = {}"
    using draws(1) range inj_on_subset [OF draws(2) range] disjoint_subset [OF image_mono [OF range] draws(3)]
    by auto
  obtain n S' L' where run: "settle_entries K C w 0 s c S es =
      (Inr n, c\<lparr>rv_unresolved := rv_unresolved c + length (filter (unresolved K C L0) visited)\<rparr>, S')"
    and S': "tracked_ledger S' = Inr L'" and sw': "swept K C L0 (V \<union> set visited) L'"
    and out: "fst ` set (sl_outbox L') \<subseteq> fst ` set (sl_outbox L) \<union> draw ` ?range"
    using settle_entries_done [OF es' mem disj(2,1) sw S vs world d] by blast
  define c' where "c' = c\<lparr>rv_unresolved := rv_unresolved c + length (filter (unresolved K C L0) visited),
    rv_page := next, rv_current := (if next = None then None else rv_current c)\<rparr>"
  have round: "recovery_round K C w c S = (Inr n, c', S')"
    using run by (simp add: recovery_round_def next_scope_def c(2) sh_recovery_page_durable_def S world(3) page c'_def)
  have ne: "visited \<noteq> []" using cs(4) by (simp add: visited_def)
  have rest: "pending L0 c = visited @ pending L0 c' \<and> cursor_ok L0 c'"
  proof (cases "length ?R > 32")
    case True
    then have "?R = visited @ drop 32 ?R" "drop 32 ?R \<noteq> []" by (simp_all add: visited_def)
    with more [OF True] cs c(2) through show ?thesis
      by (auto simp: pend pending_def c'_def cursor_ok_def)
  next
    case False
    then have "next = None" "visited = ?R" using no by (simp_all add: visited_def)
    with through c(2) show ?thesis by (simp add: pend pending_def c'_def cursor_ok_def)
  qed
  have scopes: "rv_scopes c' \<noteq> None" using cs(2) by (simp add: c'_def)
  have drawn: "fst ` set (sl_outbox L') \<subseteq> fst ` set (sl_outbox L) \<union> draw ` {0 ..< 32}"
    by (rule subset_trans [OF out Un_mono [OF subset_refl image_mono [OF range]]])
  have kept: "rv_unresolved c' = rv_unresolved c + length (filter (unresolved K C L0) visited)"
    "rv_retained_after c' = rv_retained_after c \<and> rv_complete c' = rv_complete c" by (simp_all add: c'_def)
  show thesis
    by (rule that [OF round S' ne conjunct1 [OF rest] scopes conjunct2 [OF rest] sw' kept drawn])
qed

section \<open>Sweeps\<close>

abbreviation agenda :: "sqlite_ledger \<Rightarrow> (string \<times> int) list" where
  "agenda L \<equiv> pending L recovery_default"

text \<open>
  Half way through a sweep of \<open>L0\<close>: the executions \<open>seen\<close> have been visited, those the cursor still
  has to visit are the rest of the agenda, and the receipts written are drawn from \<open>U\<close>.
\<close>

definition sweep_at ::
  "calendar \<Rightarrow> usage_codec \<Rightarrow> sqlite_ledger \<Rightarrow> string set \<Rightarrow> (string \<times> int) list \<Rightarrow> recovery \<Rightarrow>
     sharded_ledger \<Rightarrow> bool" where
  "sweep_at K C L0 U seen c S \<longleftrightarrow>
     (\<exists>L. tracked_ledger S = Inr L \<and> swept K C L0 (set seen) L \<and>
          fst ` set (sl_outbox L) \<subseteq> fst ` set (sl_outbox L0) \<union> U) \<and>
     cursor_ok L0 c \<and> agenda L0 = seen @ pending L0 c \<and> rv_retained_after c = None \<and> \<not> rv_complete c \<and>
     rv_unresolved c = length (filter (unresolved K C L0) seen)"

definition sweep_over :: "calendar \<Rightarrow> usage_codec \<Rightarrow> sqlite_ledger \<Rightarrow> recovery \<Rightarrow> sharded_ledger \<Rightarrow> bool" where
  "sweep_over K C L0 c S \<longleftrightarrow>
     (\<exists>L. tracked_ledger S = Inr L \<and> swept K C L0 (set (agenda L0)) L) \<and>
     rv_unresolved c = length (filter (unresolved K C L0) (agenda L0))"

lemma agenda_rows:
  assumes inv: "evidence_inv K C L" and valid: "valid_scopes L"
  shows "distinct (agenda L)" and "set (agenda L) = set (intent_rows L)"
proof -
  have "scopes_after L [] = scope_list L"
    unfolding scopes_after_def
  proof (rule filter_True, rule ballI)
    fix s
    assume "s \<in> set (scope_list L)"
    then have "s \<noteq> []" using valid by (auto simp: valid_scopes_def validate_scope_def)
    then show "[] < s" by (cases s) auto
  qed
  then have a: "agenda L = concat (map (scope_rows L) (scope_list L))"
    by (simp add: pending_def recovery_default_def scope_after_def)
  have rows: "set (scope_rows L s) = {p \<in> set (intent_rows L). scope_of L (snd p) = Some s}" for s
    by (auto simp: scope_rows_def scope_intents_rows)
  have each: "distinct (scope_rows L s)" for s
    using scope_rows_sorted(1) [OF inv, of s] by (simp add: strict_sorted_iff distinct_map)
  have "distinct (concat (map (scope_rows L) ss))" if "distinct ss" for ss
    using that by (induction ss) (auto simp: each rows)
  then show "distinct (agenda L)" by (simp add: a scope_list_def)
  have "p \<in> set (agenda L)" if "p \<in> set (intent_rows L)" for p
    by (rule intent_scope [OF inv that]) (use that in \<open>auto simp: a rows\<close>)
  then show "set (agenda L) = set (intent_rows L)" by (auto simp: a rows)
qed

lemma agenda_perm:
  assumes inv: "evidence_inv K C L" and valid: "valid_scopes L"
  shows "mset (agenda L) = mset (intent_rows L)" and "length (agenda L) = length (sl_intents L)"
proof -
  have "distinct (intent_rows L)" using distinct_intent_rows(1) [OF inv] by (simp add: distinct_map)
  then show perm: "mset (agenda L) = mset (intent_rows L)"
    using agenda_rows [OF inv valid] by (simp add: set_eq_iff_mset_eq_distinct)
  show "length (agenda L) = length (sl_intents L)"
    using mset_eq_length [OF perm] by (simp add: intent_rows_def)
qed

lemma scopes_after_first:
  assumes inv: "evidence_inv K C L" and first: "scopes_after L a = s # ss"
  shows "s \<in> set (scope_list L)" and "rows_after L s 0 \<noteq> []" and "rows_after L s 0 = scope_rows L s"
    and "scopes_after L s = ss"
proof -
  have mem: "s \<in> set (scopes_after L a)" using first by simp
  then show s: "s \<in> set (scope_list L)" by (simp add: scopes_after_def)
  show all: "rows_after L s 0 = scope_rows L s"
    unfolding rows_after_def
  proof (rule filter_True, rule ballI)
    fix p
    assume "p \<in> set (scope_rows L s)"
    then have "p \<in> set (intent_rows L)" by (auto simp: scope_rows_def scope_intents_rows)
    then show "0 < snd p" by (rule intent_scope [OF inv])
  qed
  obtain p where p: "p \<in> set (intent_rows L)" "s = the (scope_of L (snd p))"
    using s by (auto simp: scope_list_def)
  have "p \<in> set (scope_intents L s)"
    by (rule intent_scope [OF inv p(1)]) (simp add: p(2))
  then show "rows_after L s 0 \<noteq> []" unfolding all by (auto simp: scope_rows_def simp flip: set_empty)
  have "sorted_wrt (<) (scopes_after L a)"
    by (simp add: scopes_after_def scope_list_def sorted_wrt_filter)
  then have later: "\<forall>x \<in> set ss. s < x" by (simp add: first)
  have "a < s" using mem by (simp add: scopes_after_def)
  then have "scopes_after L s = filter (\<lambda>x. s < x) (scopes_after L a)"
    by (auto simp: scopes_after_def intro!: filter_cong)
  also have "\<dots> = ss" using later by (simp add: first)
  finally show "scopes_after L s = ss" .
qed

lemma round_done:
  assumes inv: "evidence_inv K C L0" and valid: "valid_scopes L0" and at: "sweep_at K C L0 U seen c S"
    and world: "codec_ok C" "world_ok K w" "wo_engine w = all_done"
    and draws: "\<forall>j \<in> {0 ..< 32}. opaque_id (wo_entropy w j) = Inr (draw j)" "inj_on draw {0 ..< 32}"
      "draw ` {0 ..< 32} \<inter> (fst ` set (sl_outbox L0) \<union> U) = {}"
  obtains (over) n c' S' where "recovery_round K C w c S = (Inr n, c', S')" and "sweep_done c'"
      and "sweep_over K C L0 c' S'"
    | (more) n c' S' visited where "recovery_round K C w c S = (Inr n, c', S')" and "\<not> sweep_done c'"
      and "visited \<noteq> []" and "sweep_at K C L0 (U \<union> draw ` {0 ..< 32}) (seen @ visited) c' S'"
proof -
  obtain L where S: "tracked_ledger S = Inr L" and sw: "swept K C L0 (set seen) L"
    and out: "fst ` set (sl_outbox L) \<subseteq> fst ` set (sl_outbox L0) \<union> U"
    and c: "cursor_ok L0 c" and ag: "agenda L0 = seen @ pending L0 c"
    and ret: "rv_retained_after c = None" "\<not> rv_complete c" and un: "rv_unresolved c = length (filter (unresolved K C L0) seen)"
    using at unfolding sweep_at_def by blast
  have invL: "evidence_inv K C L" and same: "same_inventory L0 L" using sw by (simp_all add: swept_def)
  note views = same_inventory_views [OF same]
  have fresh: "draw ` {0 ..< 32} \<inter> fst ` set (sl_outbox L) = {}" using draws(3) out by blast
  have dist: "set (pending L0 d) \<inter> set seen = {}" "distinct (pending L0 d)" if "pending L0 d = pending L0 c" for d
    using agenda_rows(1) [OF inv valid] that unfolding ag by auto
  have page: thesis
    if d: "cursor_ok L0 d" "rv_current d = Some s" "pending L0 d = pending L0 c" "rv_unresolved d = rv_unresolved c"
      "rv_retained_after d = None" "\<not> rv_complete d" "recovery_round K C w c S = recovery_round K C w d S" for d s
  proof -
    obtain n visited c' S' L' where r: "recovery_round K C w d S = (Inr n, c', S')"
      "tracked_ledger S' = Inr L'" "visited \<noteq> []" "pending L0 d = visited @ pending L0 c'"
      "rv_scopes c' \<noteq> None" "cursor_ok L0 c'" "swept K C L0 (set seen \<union> set visited) L'"
      "rv_unresolved c' = rv_unresolved d + length (filter (unresolved K C L0) visited)"
      "rv_retained_after c' = rv_retained_after d \<and> rv_complete c' = rv_complete d"
      "fst ` set (sl_outbox L') \<subseteq> fst ` set (sl_outbox L) \<union> draw ` {0 ..< 32}"
      by (rule round_page [OF sw S valid d(1,2) dist [OF d(3)] world draws(1,2) fresh])
    have "fst ` set (sl_outbox L') \<subseteq> fst ` set (sl_outbox L0) \<union> (U \<union> draw ` {0 ..< 32})"
      using r(10) out by blast
    with r d ag un have "sweep_at K C L0 (U \<union> draw ` {0 ..< 32}) (seen @ visited) c' S'"
      by (auto simp: sweep_at_def)
    moreover have "\<not> sweep_done c'" using r(5) by (simp add: sweep_done_def)
    ultimately show thesis using more [OF trans [OF d(7) r(1)] _ r(3)] by blast
  qed
  show thesis
  proof (cases "rv_current c")
    case (Some s)
    show thesis by (rule page [OF c Some refl refl ret(1,2) refl])
  next
    case None
    then have pg: "rv_page c = None" and th: "\<And>sc. rv_scopes c = Some sc \<Longrightarrow> sc_through_id sc = inventory_through L0"
      using c by (auto simp: cursor_ok_def)
    have scopes: "sh_recovery_scopes_durable all_done S (rv_scopes c) 1 =
        Inr (case scopes_after L0 (scope_after (rv_scopes c)) of
           [] \<Rightarrow> \<lparr>sp_scopes = [], sp_next = None\<rparr>
         | s # _ \<Rightarrow> \<lparr>sp_scopes = [s], sp_next = Some \<lparr>sc_after = s, sc_through_id = inventory_through L0\<rparr>\<rparr>)"
      using scopes_step [OF invL _ th [folded views(7)], unfolded views, OF valid]
      by (simp add: sh_recovery_scopes_durable_def S)
    show thesis
    proof (cases "scopes_after L0 (scope_after (rv_scopes c))")
      case Nil
      let ?c = "c\<lparr>rv_scopes := None, rv_current := None\<rparr>"
      have "recovery_round K C w c S = (Inr 0, ?c, S)"
        using scopes by (simp add: recovery_round_def next_scope_def None Nil world(3))
      moreover have "sweep_over K C L0 ?c S"
        using Nil None S sw un ag by (auto simp: sweep_over_def pending_def)
      ultimately show thesis by (intro over) (simp_all add: sweep_done_def)
    next
      case (Cons s ss)
      let ?d = "c\<lparr>rv_scopes := Some \<lparr>sc_after = s, sc_through_id = inventory_through L0\<rparr>, rv_current := Some s\<rparr>"
      show thesis
      proof (rule page [of ?d s])
        note first = scopes_after_first [OF inv Cons]
        show "cursor_ok L0 ?d" using first(1,2) by (simp add: cursor_ok_def pg page_cursor_ok_def page_after_def)
        show "pending L0 ?d = pending L0 c"
          using first(3,4) by (simp add: pending_def None pg page_after_def scope_after_def Cons [unfolded scope_after_def])
        show "recovery_round K C w c S = recovery_round K C w ?d S"
          using scopes by (simp add: recovery_round_def next_scope_def None Cons world(3))
      qed (simp_all add: ret)
    qed
  qed
qed

section \<open>Calls\<close>

text \<open>
  An environment in which nothing stops a round: the call has time, the proxy is running, the mutex is
  free, the engine completes its statements and the clock has a timestamp.
\<close>

definition working :: "calendar \<Rightarrow> round_env \<Rightarrow> bool" where
  "working K env \<longleftrightarrow> world_ok K (en_world env) \<and> wo_engine (en_world env) = all_done"

definition undisturbed :: "calendar \<Rightarrow> bool \<Rightarrow> round_env \<Rightarrow> bool" where
  "undisturbed K shutdown env \<longleftrightarrow>
     \<not> sweep_stops shutdown env \<and> en_lock env = Acquired \<and> working K env"

abbreviation receipt_draw :: "(nat \<Rightarrow> round_env) \<Rightarrow> nat \<times> nat \<Rightarrow> evidence_error + string" where
  "receipt_draw env p \<equiv> opaque_id (wo_entropy (en_world (env (fst p))) (snd p))"

text \<open>The receipt identifiers of the first \<open>N\<close> rounds: drawn, different and not in use.\<close>

definition fresh_draws :: "(nat \<Rightarrow> round_env) \<Rightarrow> nat \<Rightarrow> sqlite_ledger \<Rightarrow> bool" where
  "fresh_draws env N L \<longleftrightarrow>
     inj_on (receipt_draw env) ({0 ..< N} \<times> {0 ..< 32}) \<and>
     (\<forall>p \<in> {0 ..< N} \<times> {0 ..< 32}. \<exists>rid. receipt_draw env p = Inr rid \<and> rid \<notin> fst ` set (sl_outbox L))"

definition drawn :: "(nat \<Rightarrow> round_env) \<Rightarrow> nat \<Rightarrow> string set" where
  "drawn env n = {rid. \<exists>p \<in> {0 ..< n} \<times> {0 ..< 32}. receipt_draw env p = Inr rid}"

lemma fresh_round:
  assumes fresh: "fresh_draws env N L" and n: "n < N"
  obtains draw where "\<forall>j \<in> {0 ..< 32}. opaque_id (wo_entropy (en_world (env n)) j) = Inr (draw j)"
    and "inj_on draw {0 ..< 32}" and "draw ` {0 ..< 32} \<inter> (fst ` set (sl_outbox L) \<union> drawn env n) = {}"
    and "drawn env (Suc n) = drawn env n \<union> draw ` {0 ..< 32}"
proof -
  define draw where "draw j = projr (receipt_draw env (n, j))" for j
  have inj: "inj_on (receipt_draw env) ({0 ..< N} \<times> {0 ..< 32})" using fresh by (simp add: fresh_draws_def)
  have some: "receipt_draw env (n, j) = Inr (draw j) \<and> draw j \<notin> fst ` set (sl_outbox L)" if j: "j \<in> {0 ..< 32}" for j
  proof -
    have "(n, j) \<in> {0 ..< N} \<times> {0 ..< 32}" using n j by simp
    then obtain rid where "receipt_draw env (n, j) = Inr rid" "rid \<notin> fst ` set (sl_outbox L)"
      using fresh unfolding fresh_draws_def by blast
    then show ?thesis by (simp add: draw_def)
  qed
  have eq: "p = (n, j)" if "j \<in> {0 ..< 32}" "p \<in> {0 ..< N} \<times> {0 ..< 32}" "receipt_draw env p = Inr (draw j)" for p j
    using inj_onD [OF inj, of p "(n, j)"] some [OF that(1)] that n by simp
  have "inj_on draw {0 ..< 32}"
  proof (rule inj_onI)
    fix i j
    assume i: "i \<in> {0 ..< 32}" and j: "j \<in> {0 ..< 32}" and "draw i = draw j"
    with some [OF i] have "receipt_draw env (n, i) = Inr (draw j)" by simp
    from eq [OF j _ this] i n show "i = j" by simp
  qed
  moreover have "draw j \<notin> drawn env n" if j: "j \<in> {0 ..< 32}" for j
  proof
    assume "draw j \<in> drawn env n"
    then obtain p where p: "p \<in> {0 ..< n} \<times> {0 ..< 32}" "receipt_draw env p = Inr (draw j)"
      unfolding drawn_def by blast
    moreover have "p \<in> {0 ..< N} \<times> {0 ..< 32}" using p(1) n by auto
    ultimately have "p = (n, j)" using eq [OF j] by blast
    with p(1) show False by simp
  qed
  moreover have "drawn env (Suc n) = drawn env n \<union> draw ` {0 ..< 32}"
  proof -
    have "{0 ..< Suc n} \<times> {0 ..< 32} = {0 ..< n} \<times> {0 ..< 32} \<union> Pair n ` {0 ..< (32 :: nat)}" by auto
    then have "drawn env (Suc n) = drawn env n \<union> {rid. \<exists>j \<in> {0 ..< 32}. receipt_draw env (n, j) = Inr rid}"
      unfolding drawn_def by (simp only: bex_Un) auto
    moreover have "{rid. \<exists>j \<in> {0 ..< 32}. receipt_draw env (n, j) = Inr rid} = draw ` {0 ..< 32}"
    proof (intro set_eqI iffI)
      fix rid
      assume "rid \<in> {rid. \<exists>j \<in> {0 ..< 32}. receipt_draw env (n, j) = Inr rid}"
      then obtain j where j: "j \<in> {0 ..< 32}" "receipt_draw env (n, j) = Inr rid" by blast
      with some [OF j(1)] have "rid = draw j" by simp
      with j(1) show "rid \<in> draw ` {0 ..< 32}" by blast
    next
      fix rid
      assume "rid \<in> draw ` {0 ..< 32}"
      then obtain j where "j \<in> {0 ..< 32}" "rid = draw j" by blast
      with some show "rid \<in> {rid. \<exists>j \<in> {0 ..< 32}. receipt_draw env (n, j) = Inr rid}" by blast
    qed
    ultimately show ?thesis by simp
  qed
  moreover have "draw ` {0 ..< 32} \<inter> (fst ` set (sl_outbox L) \<union> drawn env n) = {}"
    using some calculation(2) by blast
  ultimately show thesis using that [of draw] some by (simp only: fst_conv snd_conv) blast
qed

lemma loop_done:
  assumes inv: "evidence_inv K C L0" and valid: "valid_scopes L0" and codec: "codec_ok C"
    and fresh: "fresh_draws env N L0" and env: "\<forall>n < N. undisturbed K shutdown (env n)"
    and idle: "retry_candidate J None = None"
    and at: "sweep_at K C L0 (drawn env n) seen c S" and n: "n + m \<le> N"
  shows "\<exists>k c' S'. recover_loop K C shutdown (map env [n ..< n + m]) settled c J (Durable S) =
      (Inr k, c', J, Durable S') \<and>
    (rv_complete c' \<and> sweep_over K C L0 c' S' \<or>
     (0 < m \<longrightarrow> \<not> sweep_done c') \<and>
     (\<exists>visited. m \<le> length visited \<and> sweep_at K C L0 (drawn env (n + m)) (seen @ visited) c' S'))"
  using at n
proof (induction m arbitrary: n seen c S settled)
  case 0
  then show ?case by (auto intro!: exI [of _ "[]"])
next
  case (Suc m)
  have N: "n < N" using Suc.prems(2) by simp
  have u: "\<not> sweep_stops shutdown (env n)" "en_lock (env n) = Acquired" "world_ok K (en_world (env n))"
    "wo_engine (en_world (env n)) = all_done"
    using env N by (auto simp: undisturbed_def working_def)
  have ret: "rv_retained_after c = None" using Suc.prems(1) by (simp add: sweep_at_def)
  have retry: "retry_terminal K C w l a J P (rv_retained_after c) = (None, J, P)" for w l a P
    using idle by (simp add: ret retry_terminal_def retry_begin_def)
  have c: "c\<lparr>rv_retained_after := None\<rparr> = c" using ret by (cases c) simp
  have envs: "map env [n ..< n + Suc m] = env n # map env [Suc n ..< Suc n + m]"
    by (simp add: upt_conv_Cons del: upt_Suc)
  obtain draw where d: "\<forall>j \<in> {0 ..< 32}. opaque_id (wo_entropy (en_world (env n)) j) = Inr (draw j)"
    "inj_on draw {0 ..< 32}" "draw ` {0 ..< 32} \<inter> (fst ` set (sl_outbox L0) \<union> drawn env n) = {}"
    and next_drawn: "drawn env (Suc n) = drawn env n \<union> draw ` {0 ..< 32}"
    by (rule fresh_round [OF fresh N])
  show ?case
  proof (cases rule: round_done [OF inv valid Suc.prems(1) codec u(3,4) d, case_names over more])
    case (over k c' S')
    let ?c = "c'\<lparr>rv_complete := True\<rparr>"
    have "recover_loop K C shutdown (map env [n ..< n + Suc m]) settled c J (Durable S) =
        (Inr (settled + k), ?c, J, Durable S')"
      unfolding envs using over u by (simp add: retry c with_durable_ledger_def del: upt_Suc)
    moreover have "sweep_over K C L0 ?c S'" using over(3) by (simp add: sweep_over_def)
    ultimately show ?thesis by auto
  next
    case (more k c' S' visited)
    have step: "recover_loop K C shutdown (map env [n ..< n + Suc m]) settled c J (Durable S) =
        recover_loop K C shutdown (map env [Suc n ..< Suc n + m]) (settled + k) c' J (Durable S')"
      unfolding envs using more u by (simp add: retry c with_durable_ledger_def del: upt_Suc)
    have at': "sweep_at K C L0 (drawn env (Suc n)) (seen @ visited) c' S'"
      unfolding next_drawn by (rule more(4))
    obtain k' c'' S'' where r: "recover_loop K C shutdown (map env [Suc n ..< Suc n + m]) (settled + k) c' J (Durable S') =
        (Inr k', c'', J, Durable S'')"
      and cases: "rv_complete c'' \<and> sweep_over K C L0 c'' S'' \<or>
       (0 < m \<longrightarrow> \<not> sweep_done c'') \<and>
       (\<exists>visited'. m \<le> length visited' \<and>
          sweep_at K C L0 (drawn env (Suc n + m)) ((seen @ visited) @ visited') c'' S'')"
      using Suc.IH [OF at', of "settled + k"] Suc.prems(2) by auto
    have "\<not> sweep_done c'' \<and> (\<exists>visited'. Suc m \<le> length visited' \<and>
        sweep_at K C L0 (drawn env (n + Suc m)) (seen @ visited') c'' S'')"
      if un: "\<not> (rv_complete c'' \<and> sweep_over K C L0 c'' S'')"
    proof -
      obtain visited' where v: "m \<le> length visited'"
        "sweep_at K C L0 (drawn env (Suc n + m)) ((seen @ visited) @ visited') c'' S''"
        using cases un by blast
      have "0 < length visited" using more(3) by simp
      then have "Suc m \<le> length (visited @ visited')" using v(1) unfolding length_append by linarith
      moreover have "sweep_at K C L0 (drawn env (n + Suc m)) (seen @ (visited @ visited')) c'' S''"
        using v(2) by simp
      moreover have "\<not> sweep_done c''"
      proof (cases "m = 0")
        case True
        then have "c'' = c'" using r by simp
        with more(2) show ?thesis by simp
      qed (use cases un in blast)
      ultimately show ?thesis by blast
    qed
    with step r show ?thesis by auto
  qed
qed

text \<open>Whatever else happens to its rounds, a call that reports completion has finished the sweep.\<close>

lemma loop_sound:
  assumes inv: "evidence_inv K C L0" and valid: "valid_scopes L0" and codec: "codec_ok C"
    and fresh: "fresh_draws env N L0" and env: "\<forall>n < N. working K (env n)"
    and idle: "retry_candidate J None = None"
    and at: "sweep_at K C L0 (drawn env n) seen c S" and n: "n + m \<le> N"
    and run: "recover_loop K C shutdown (map env [n ..< n + m]) settled c J (Durable S) = (Inr k, c', J', P')"
    and complete: "rv_complete c'"
  shows "J' = J" and "\<exists>S'. P' = Durable S' \<and> sweep_over K C L0 c' S'"
proof -
  have "J' = J \<and> (\<exists>S'. P' = Durable S' \<and> sweep_over K C L0 c' S')"
    using at n run
  proof (induction m arbitrary: n seen c S settled)
    case 0
    then have "\<not> rv_complete c'" by (simp add: sweep_at_def)
    with complete show ?case by simp
  next
    case (Suc m)
    have N: "n < N" using Suc.prems(2) by simp
    have u: "world_ok K (en_world (env n))" "wo_engine (en_world (env n)) = all_done"
      using env N by (auto simp: working_def)
    have ret: "rv_retained_after c = None" "\<not> rv_complete c" using Suc.prems(1) by (simp_all add: sweep_at_def)
    have retry: "retry_terminal K C w l a J P (rv_retained_after c) = (None, J, P)" for w l a P
      using idle by (simp add: ret retry_terminal_def retry_begin_def)
    have c: "c\<lparr>rv_retained_after := None\<rparr> = c" using ret by (cases c) simp
    have envs: "map env [n ..< n + Suc m] = env n # map env [Suc n ..< Suc n + m]"
      by (simp add: upt_conv_Cons del: upt_Suc)
    note run = Suc.prems(3) [unfolded envs]
    have live: "\<not> sweep_stops shutdown (env n)" using run complete ret(2) by (auto split: if_split_asm)
    have lock: "en_lock (env n) = Acquired"
      using run live by (cases "en_lock (env n)") (simp_all add: retry with_durable_ledger_def)
    obtain draw where d: "\<forall>j \<in> {0 ..< 32}. opaque_id (wo_entropy (en_world (env n)) j) = Inr (draw j)"
      "inj_on draw {0 ..< 32}" "draw ` {0 ..< 32} \<inter> (fst ` set (sl_outbox L0) \<union> drawn env n) = {}"
      and next_drawn: "drawn env (Suc n) = drawn env n \<union> draw ` {0 ..< 32}"
      by (rule fresh_round [OF fresh N])
    show ?case
    proof (cases rule: round_done [OF inv valid Suc.prems(1) codec u d, case_names over more])
      case (over k' c'' S')
      with run live lock have "c' = c''\<lparr>rv_complete := True\<rparr>" "J' = J" "P' = Durable S'"
        by (simp_all add: retry c with_durable_ledger_def)
      with over(3) show ?thesis by (simp add: sweep_over_def)
    next
      case (more k' c'' S' visited)
      have at': "sweep_at K C L0 (drawn env (Suc n)) (seen @ visited) c'' S'"
        unfolding next_drawn by (rule more(4))
      from run live lock more(1,2) have "recover_loop K C shutdown (map env [Suc n ..< Suc n + m]) (settled + k') c'' J
          (Durable S') = (Inr k, c', J', P')"
        by (simp add: retry c with_durable_ledger_def del: upt_Suc)
      from Suc.IH [OF at' _ this] Suc.prems(2) show ?thesis by simp
    qed
  qed
  then show "J' = J" and "\<exists>S'. P' = Durable S' \<and> sweep_over K C L0 c' S'" by blast+
qed

lemma sweep_start:
  assumes "evidence_inv K C L" "row_ids L" and "tracked_ledger S = Inr L"
  shows "sweep_at K C L (drawn env 0) [] recovery_default S"
  using assms(3) swept_init [OF assms(1,2)] by (simp add: sweep_at_def cursor_ok_def recovery_default_def)

lemma shutdown_starts_over:
  "recover_blocking K C True env c J P = recover_loop K C True (map env [0 ..< 0 + 8]) 0 recovery_default J P"
  by (simp add: recover_blocking_def Let_def recovery_default_def)

text \<open>Calls of \<^verbatim>\<open>recover\<close>, one after the other, until the sweep is complete.\<close>

primrec recover_calls ::
  "calendar \<Rightarrow> usage_codec \<Rightarrow> (nat \<Rightarrow> lifecycle) \<Rightarrow> (nat \<Rightarrow> round_env) \<Rightarrow> nat \<Rightarrow> buffered option \<Rightarrow> proxy_ledger \<Rightarrow>
     buffered option \<times> proxy_ledger" where
  "recover_calls K C life env 0 owner P = (owner, P)"
| "recover_calls K C life env (Suc m) owner P =
     (case recover_calls K C life env m owner P of
        (owner, P) \<Rightarrow>
          if is_some_and owner (\<lambda>b. rv_complete (bu_recovery b)) then (owner, P)
          else
            (case recover_inner K C False (life m) True (\<lambda>i. env (8 * m + i)) owner P of
               (_, owner, P) \<Rightarrow> (owner, P)))"

lemma calls_done:
  assumes inv: "evidence_inv K C L0" "row_ids L0" and valid: "valid_scopes L0" and codec: "codec_ok C"
    and fresh: "fresh_draws env (8 * N) L0" and env: "\<forall>n < 8 * N. undisturbed K False (env n)"
    and idle: "retry_candidate (bu_jobs b) None = None" and admits: "\<forall>m. try_operation (life m) \<noteq> None"
    and S: "tracked_ledger S = Inr L0" and start: "bu_recovery b = recovery_default" and m: "m \<le> N"
  shows "\<exists>c S'. recover_calls K C life env m (Some b) (Durable S) =
      (Some (b\<lparr>bu_recovery := c\<rparr>), Durable S') \<and>
    (rv_complete c \<and> sweep_over K C L0 c S' \<or>
     (m = 0 \<and> c = recovery_default \<or> 0 < m \<and> \<not> sweep_done c) \<and>
     (\<exists>seen. 8 * m \<le> length seen \<and> sweep_at K C L0 (drawn env (8 * m)) seen c S'))"
  using m
proof (induction m)
  case 0
  have "b\<lparr>bu_recovery := recovery_default\<rparr> = b" using start by (cases b) simp
  with sweep_start [OF inv S, of env] show ?case by (auto intro!: exI [of _ recovery_default] exI [of _ S] exI [of _ "[]"])
next
  case (Suc m)
  then obtain c S' where ih: "recover_calls K C life env m (Some b) (Durable S) =
      (Some (b\<lparr>bu_recovery := c\<rparr>), Durable S')"
    and c: "rv_complete c \<and> sweep_over K C L0 c S' \<or>
     (m = 0 \<and> c = recovery_default \<or> 0 < m \<and> \<not> sweep_done c) \<and>
     (\<exists>seen. 8 * m \<le> length seen \<and> sweep_at K C L0 (drawn env (8 * m)) seen c S')"
    by auto
  show ?case
  proof (cases "rv_complete c \<and> sweep_over K C L0 c S'")
    case True
    with ih show ?thesis by (auto simp: is_some_and_def)
  next
    case False
    then obtain seen where start': "m = 0 \<and> c = recovery_default \<or> 0 < m \<and> \<not> sweep_done c"
      and seen: "8 * m \<le> length seen" and at: "sweep_at K C L0 (drawn env (8 * m)) seen c S'"
      using c by blast
    have comp: "\<not> rv_complete c" using at by (simp add: sweep_at_def)
    have same: "(if sweep_done c then c\<lparr>rv_unresolved := 0\<rparr> else c)\<lparr>rv_complete := False\<rparr> = c"
      using start' comp by (cases c) (auto simp: recovery_default_def sweep_done_def)
    have len: "8 * m + 8 \<le> 8 * N" using Suc.prems by simp
    obtain k c' S'' where r: "recover_loop K C False (map env [8 * m ..< 8 * m + 8]) 0 c (bu_jobs b) (Durable S') =
        (Inr k, c', bu_jobs b, Durable S'')"
      and c': "rv_complete c' \<and> sweep_over K C L0 c' S'' \<or>
       (0 < (8 :: nat) \<longrightarrow> \<not> sweep_done c') \<and>
       (\<exists>visited. 8 \<le> length visited \<and> sweep_at K C L0 (drawn env (8 * m + 8)) (seen @ visited) c' S'')"
      using loop_done [OF inv(1) valid codec fresh env idle at len, of 0] by (elim exE conjE) (rule that)
    have envs: "map (\<lambda>i. env (8 * m + i)) [0 ..< 8] = map env [8 * m ..< 8 * m + 8]"
      by (rule nth_equalityI) simp_all
    have "recover_calls K C life env (Suc m) (Some b) (Durable S) = (Some (b\<lparr>bu_recovery := c'\<rparr>), Durable S'')"
    proof -
      have "recover_blocking K C False (\<lambda>i. env (8 * m + i)) c (bu_jobs b) (Durable S') =
          (Inr k, c', bu_jobs b, Durable S'')"
        unfolding recover_blocking_def Let_def envs if_False same by (rule r)
      moreover have "b\<lparr>bu_recovery := c, bu_jobs := bu_jobs b, bu_recovery := c'\<rparr> = b\<lparr>bu_recovery := c'\<rparr>"
        by (cases b) simp
      moreover have "try_operation (life m) \<noteq> None" using admits by blast
      ultimately show ?thesis
        using ih comp by (auto simp: recover_inner_def is_some_and_def)
    qed
    moreover have "\<not> sweep_done c' \<and>
        (\<exists>seen. 8 * Suc m \<le> length seen \<and> sweep_at K C L0 (drawn env (8 * Suc m)) seen c' S'')"
      if un: "\<not> (rv_complete c' \<and> sweep_over K C L0 c' S'')"
    proof -
      obtain visited where v: "8 \<le> length visited" "\<not> sweep_done c'"
        "sweep_at K C L0 (drawn env (8 * m + 8)) (seen @ visited) c' S''" using c' un by auto
      have "8 * Suc m \<le> length (seen @ visited)" using seen v(1) by simp
      moreover have "8 * m + 8 = 8 * Suc m" by simp
      ultimately show ?thesis using v(2,3) by metis
    qed
    ultimately show ?thesis by blast
  qed
qed

section \<open>Scopes of admitted executions\<close>

text \<open>An execution is admitted under a scope that was checked, and its row keeps that scope.\<close>

definition row_scopes :: "sqlite_ledger \<Rightarrow> (int \<times> string) set" where
  "row_scopes L = (\<lambda>(i, r). (i, rr_scope r)) ` set (sl_reservations L)"

definition scopes_ok :: "sqlite_ledger \<Rightarrow> bool" where
  "scopes_ok L \<longleftrightarrow>
     0 \<le> sl_sequence L \<and> (\<forall>(i, s) \<in> row_scopes L. i \<le> sl_sequence L) \<and>
     (\<forall>(x, j) \<in> set (intent_rows L). j \<le> sl_sequence L \<and>
        (\<forall>(i, s) \<in> row_scopes L. i = j \<longrightarrow> validate_scope s = Inr ()))"

lemma scopes_ok_frame:
  assumes "scopes_ok L" and "sl_intents L' = sl_intents L" and "row_scopes L' \<subseteq> row_scopes L"
    and "sl_sequence L' = sl_sequence L"
  shows "scopes_ok L'"
proof -
  have "intent_rows L' = intent_rows L" using assms(2) by (simp add: intent_rows_def)
  then show ?thesis using assms(1,3,4) unfolding scopes_ok_def by fastforce
qed

lemma row_scopes_simps [simp]:
  "row_scopes (settle_row L i a t) = row_scopes L" "row_scopes (set_phase L x p t) = row_scopes L"
  "row_scopes (L\<lparr>sl_outbox := ob\<rparr>) = row_scopes L"
proof -
  show "row_scopes (settle_row L i a t) = row_scopes L"
    unfolding row_scopes_def settle_row_def
    by (auto simp: image_image intro!: image_cong split: if_split)
qed (simp_all add: row_scopes_def)

lemma scopes_ok_lease:
  assumes ok: "scopes_ok L" and run: "reserve_in_transaction K E L s c now ttl = Inr (Admitted r, L')"
  shows "scopes_ok L'" and "uint (r_id r) = sl_sequence L'"
    and "validate_scope s = Inr () \<Longrightarrow> (sl_sequence L', s') \<in> row_scopes L' \<Longrightarrow> validate_scope s' = Inr ()"
proof -
  note L' = reserve_in_transaction_admitted(4) [OF run]
  have seq: "sl_sequence L' = sl_sequence L + 1" and intents: "intent_rows L' = intent_rows L"
    by (simp_all add: L' intent_rows_def)
  have rows: "row_scopes L' \<subseteq> insert (sl_sequence L + 1, s) (row_scopes L)"
    by (auto simp: row_scopes_def L' new_lease_def reclaim_scope_def)
  have old: "i \<le> sl_sequence L" if "(i, s') \<in> row_scopes L" for i s'
    using ok that by (auto simp: scopes_ok_def)
  show "scopes_ok L'"
    unfolding scopes_ok_def seq intents
  proof (intro conjI ballI)
    show "0 \<le> sl_sequence L + 1" using ok by (simp add: scopes_ok_def)
    fix p
    assume "p \<in> row_scopes L'"
    with rows old show "case p of (i, s) \<Rightarrow> i \<le> sl_sequence L + 1" by (cases p) force
  next
    fix q
    assume q: "q \<in> set (intent_rows L)"
    obtain x j where xj: "q = (x, j)" by fastforce
    have j: "j \<le> sl_sequence L" "\<And>s'. (j, s') \<in> row_scopes L \<Longrightarrow> validate_scope s' = Inr ()"
      using ok q by (auto simp: scopes_ok_def xj)
    with rows show "case q of (x, j) \<Rightarrow> j \<le> sl_sequence L + 1 \<and>
        (\<forall>(i, s) \<in> row_scopes L'. i = j \<longrightarrow> validate_scope s = Inr ())"
      by (auto simp: xj)
  qed
  show "validate_scope s = Inr () \<Longrightarrow> (sl_sequence L', s') \<in> row_scopes L' \<Longrightarrow> validate_scope s' = Inr ()"
    using rows old [of "sl_sequence L + 1" s'] by (auto simp: seq)
  have "0 \<le> sl_sequence L + 1" using ok by (simp add: scopes_ok_def)
  then have "uint (word_of_int (sl_sequence L + 1) :: u64) = sl_sequence L + 1"
    using reserve_in_transaction_admitted(2) [OF run] by (intro uint_word_of_int_eq) simp_all
  then show "uint (r_id r) = sl_sequence L'"
    unfolding seq reserve_in_transaction_admitted(3) [OF run] by simp
qed

lemma scopes_ok_receipt:
  assumes "scopes_ok L" and "settle_receipt E entropy now L s i c = Inr (out, L')"
  shows "scopes_ok L'"
  using assms(2)
  by (cases rule: settle_receipt_Inr) (auto simp: assms(1) add_receipt_def intro!: scopes_ok_frame [OF assms(1)])

lemma scopes_ok_transition:
  assumes "scopes_ok L" and "transition K C E now L s x authorize = Inr ((fence, changed), L')"
  shows "scopes_ok L'"
  using assms(2)
  by (cases rule: transition_Inr) (auto simp: assms(1) intro!: scopes_ok_frame [OF assms(1)])

lemma scopes_ok_intent:
  assumes ok: "scopes_ok L1" and new: "\<And>s'. (sl_sequence L1, s') \<in> row_scopes L1 \<Longrightarrow> validate_scope s' = Inr ()"
  shows "scopes_ok (with_intent L1 x (sl_sequence L1) t prepared request_id)"
proof -
  let ?L = "with_intent L1 x (sl_sequence L1) t prepared request_id"
  have "row_scopes ?L = row_scopes L1" "sl_sequence ?L = sl_sequence L1"
    "intent_rows ?L = intent_rows L1 @ [(x, sl_sequence L1)]"
    by (simp_all add: with_intent_def row_scopes_def intent_rows_def)
  with ok new show ?thesis by (auto simp: scopes_ok_def)
qed

lemma scopes_ok_changes:
  assumes ok: "scopes_ok L" and ch: "changes K C w L call L'"
    and valid: "\<And>s c now ttl m prepared request_id. call = ReserveIntent s c now ttl m prepared request_id \<Longrightarrow>
      validate_scope s = Inr ()"
  shows "scopes_ok L'"
  using ch
proof cases
  case (lease s c now ttl r)
  show ?thesis by (rule scopes_ok_lease(1) [OF ok lease(2)])
next
  case (intent x s c now ttl r L1 prepared m request_id)
  note run = scopes_ok_lease [OF ok intent(4)]
  show ?thesis unfolding intent(2) run(2)
    by (rule scopes_ok_intent [OF run(1) run(3) [OF valid [OF intent(1)]]])
next
  case (terminal s x i settled obs charge out)
  show ?thesis by (rule scopes_ok_receipt [OF ok terminal(6)])
next
  case (evidence i s a out)
  show ?thesis by (rule scopes_ok_receipt [OF ok evidence(4)])
next
  case (claim until pending claims n now lease)
  from claim_each_frame [OF claim(2)] obtain ob where "L' = L\<lparr>sl_outbox := ob\<rparr>" by blast
  then show ?thesis by (intro scopes_ok_frame [OF ok]) simp_all
next
  case (dispatch s x r)
  show ?thesis
    by (rule scopes_ok_transition [OF ok, where fence = "fst r" and changed = "snd r"]) (use dispatch(2) in simp)
next
  case (close s x r)
  show ?thesis
    by (rule scopes_ok_transition [OF ok, where fence = "fst r" and changed = "snd r"]) (use close(2) in simp)
next
  case (settle i a)
  then show ?thesis by (intro scopes_ok_frame [OF ok]) simp_all
next
  case (reclaim now)
  then show ?thesis by (intro scopes_ok_frame [OF ok]) (auto simp: row_scopes_def)
next
  case (reclaim_both now dedup)
  then show ?thesis by (intro scopes_ok_frame [OF ok]) (auto simp: row_scopes_def)
qed (simp_all add: scopes_ok_frame [OF ok] row_scopes_def)

lemma scopes_ok_perform:
  assumes "scopes_ok L"
  shows "scopes_ok (snd (perform K C w L call))"
proof (cases "\<exists>s c now ttl m prepared request_id.
    call = ReserveIntent s c now ttl m prepared request_id \<and> validate_scope s \<noteq> Inr ()")
  case True
  then have "snd (perform K C w L call) = L" by (auto simp: reserve_intent_def validate_scope_def)
  with assms show ?thesis by simp
next
  case False
  then have "validate_scope s = Inr ()" if "call = ReserveIntent s c now ttl m prepared request_id"
    for s c now ttl m prepared request_id
    using that by blast
  with perform_changes [of K C w L call] scopes_ok_changes [OF assms, of K C w call] assms show ?thesis
    by metis
qed

lemma scopes_ok_history: "scopes_ok (snd (history K C (sqlite_open path) calls))"
proof (rule perform_history_inv)
  show "scopes_ok (sqlite_open path)"
    by (simp add: scopes_ok_def row_scopes_def intent_rows_def sqlite_open_def)
qed (rule scopes_ok_perform)

lemma scopes_ok_valid:
  assumes ok: "scopes_ok L" and inv: "evidence_inv K C L"
  shows "valid_scopes L"
  unfolding valid_scopes_def
proof
  fix s
  assume "s \<in> set (scope_list L)"
  then obtain p where p: "p \<in> set (intent_rows L)" "s = the (scope_of L (snd p))"
    by (auto simp: scope_list_def)
  obtain x i where xi: "p = (x, i)" by fastforce
  have "scope_of L (snd p) = Some s" by (rule intent_scope [OF inv p(1)]) (simp add: p(2))
  then obtain r where "map_of (sl_reservations L) i = Some r" "rr_scope r = s"
    by (auto simp: scope_of_def xi)
  then have "(i, s) \<in> row_scopes L" by (force simp: row_scopes_def dest: map_of_SomeD)
  with ok p(1) show "validate_scope s = Inr ()" by (auto simp: scopes_ok_def xi)
qed

lemma history_consistent:
  assumes "codec_ok C" and "\<forall>(w, call) \<in> set calls. world_ok K w"
  shows "evidence_inv K C (snd (history K C (sqlite_open path) calls))"
    and "row_ids (snd (history K C (sqlite_open path) calls))"
    and "valid_scopes (snd (history K C (sqlite_open path) calls))"
proof -
  show inv: "evidence_inv K C (snd (history K C (sqlite_open path) calls))"
    by (rule evidence_history [OF evidence_open assms])
  show "row_ids (snd (history K C (sqlite_open path) calls))"
    by (rule perform_history_inv [OF row_ids_open row_ids_perform])
  show "valid_scopes (snd (history K C (sqlite_open path) calls))"
    by (rule scopes_ok_valid [OF scopes_ok_history inv])
qed

text \<open>The single sweep of a shutdown is enough for fewer than eight executions.\<close>

lemma short_sweep_completes:
  assumes inv: "evidence_inv K C L" "row_ids L" and valid: "valid_scopes L" and codec: "codec_ok C"
    and fresh: "fresh_draws env 8 L" and env: "\<forall>n < 8. undisturbed K True (env n)"
    and idle: "retry_candidate J None = None" and S: "tracked_ledger S = Inr L" and few: "length (sl_intents L) < 8"
  obtains k c' S' where "recover_blocking K C True env c J (Durable S) = (Inr k, c', J, Durable S')"
    and "rv_complete c'" and "sweep_over K C L c' S'"
proof -
  have eight: "0 + 8 \<le> (8 :: nat)" by simp
  obtain k c' S' where r: "recover_loop K C True (map env [0 ..< 0 + 8]) 0 recovery_default J (Durable S) =
      (Inr k, c', J, Durable S')"
    and out: "rv_complete c' \<and> sweep_over K C L c' S' \<or>
      (0 < (8 :: nat) \<longrightarrow> \<not> sweep_done c') \<and>
      (\<exists>visited. 8 \<le> length visited \<and> sweep_at K C L (drawn env (0 + 8)) ([] @ visited) c' S')"
    using loop_done [OF inv(1) valid codec fresh env idle sweep_start [OF inv S] eight, of 0]
    by (elim exE conjE) (rule that)
  have "\<not> 8 \<le> length visited" if "sweep_at K C L U visited c' S'" for U visited
  proof -
    have "length visited \<le> length (agenda L)" using that by (simp add: sweep_at_def)
    then show ?thesis unfolding agenda_perm(2) [OF inv(1) valid] using few by simp
  qed
  with out have "rv_complete c'" "sweep_over K C L c' S'" by auto
  with r that show thesis unfolding shutdown_starts_over by blast
qed

section \<open>Properties\<close>

text \<open>
  C?: Recovery settles everything that can be settled, in a bounded number of calls. Whatever
  calls were made on a tracked ledger before, if it holds \<open>n\<close> executions, no abandoned job is left to
  reconcile and nothing disturbs the rounds, then \<open>n div 8 + 1\<close> calls of the sweep from its initial
  cursor complete it: every execution that was ready is settled with its frozen charge, every other
  execution is in the state it was in, and the count of unresolved executions is exact.
\<close>

theorem recovery_settles_everything:
  assumes codec: "codec_ok C" and worlds: "\<forall>(w, call) \<in> set calls. world_ok K w"
    and L: "L = snd (history K C (sqlite_open path) calls)" and N: "N = length (sl_intents L) div 8 + 1"
    and fresh: "fresh_draws env (8 * N) L" and env: "\<forall>n < 8 * N. undisturbed K False (env n)"
    and idle: "retry_candidate (bu_jobs b) None = None" and admits: "\<forall>m. try_operation (life m) \<noteq> None"
    and S: "tracked_ledger S = Inr L" and start: "bu_recovery b = recovery_default"
  shows "\<exists>c S' L'. recover_calls K C life env N (Some b) (Durable S) =
      (Some (b\<lparr>bu_recovery := c\<rparr>), Durable S') \<and>
    tracked_ledger S' = Inr L' \<and> rv_complete c \<and>
    (\<forall>p \<in> set (intent_rows L). settled_since K C L L' p) \<and>
    rv_unresolved c = length (filter (unresolved K C L) (intent_rows L))"
proof -
  have inv: "evidence_inv K C L" "row_ids L" and valid: "valid_scopes L"
    unfolding L by (rule history_consistent [OF codec worlds])+
  obtain c S' where r: "recover_calls K C life env N (Some b) (Durable S) =
      (Some (b\<lparr>bu_recovery := c\<rparr>), Durable S')"
    and c: "rv_complete c \<and> sweep_over K C L c S' \<or>
      (\<exists>seen. 8 * N \<le> length seen \<and> sweep_at K C L (drawn env (8 * N)) seen c S')"
    using calls_done [OF inv valid codec fresh env idle admits S start order_refl] by blast
  note perm = agenda_perm [OF inv(1) valid]
  have "\<not> 8 * N \<le> length seen" if "sweep_at K C L (drawn env (8 * N)) seen c S'" for seen
  proof -
    have "length seen \<le> length (agenda L)" using that by (simp add: sweep_at_def)
    then show ?thesis unfolding perm(2) by (simp add: N)
  qed
  with c have over: "rv_complete c" "sweep_over K C L c S'" by blast+
  then obtain L' where L': "tracked_ledger S' = Inr L'" "swept K C L (set (agenda L)) L'"
    and un: "rv_unresolved c = length (filter (unresolved K C L) (agenda L))"
    by (auto simp: sweep_over_def)
  have "length (filter (unresolved K C L) (agenda L)) = length (filter (unresolved K C L) (intent_rows L))"
    by (metis mset_filter perm(1) size_mset)
  moreover have "\<forall>p \<in> set (intent_rows L). settled_since K C L L' p"
    using L'(2) agenda_rows(2) [OF inv(1) valid] by (simp add: swept_def)
  ultimately show ?thesis using r L'(1) over(1) un by auto
qed

text \<open>
  C?: A clean shutdown is the truth. If the final sweep of a shutdown reports that accounting is clean,
  then, whatever stopped or delayed its rounds and whatever calls were made before, every execution
  ever admitted to the tracked ledger is settled or was closed before dispatch, and no job is retained.
\<close>

theorem clean_shutdown_is_settled:
  assumes codec: "codec_ok C" and worlds: "\<forall>(w, call) \<in> set calls. world_ok K w"
    and L: "L = snd (history K C (sqlite_open path) calls)"
    and fresh: "fresh_draws env 8 L" and env: "\<forall>n < 8. working K (env n)"
    and idle: "retry_candidate (bu_jobs b) None = None" and S: "tracked_ledger S = Inr L"
    and clean: "finish_shutdown K C life in_time recovery_free still_free env (Some b) (Durable S) =
      (Inr True, owner, P)"
  shows "\<exists>S' L'. P = Durable S' \<and> tracked_ledger S' = Inr L' \<and> retained (bu_jobs b) = 0 \<and>
    (\<forall>p \<in> set (intent_rows L).
       (\<exists>receipt. state_of K C L' p = Inr (Settled receipt)) \<or>
       (\<exists>closure. state_of K C L' p = Inr (ClosedBeforeDispatch closure)))"
proof -
  have inv: "evidence_inv K C L" "row_ids L" and valid: "valid_scopes L"
    unfolding L by (rule history_consistent [OF codec worlds])+
  obtain k c J' where run: "recover_blocking K C True env (bu_recovery b) (bu_jobs b) (Durable S) =
      (Inr k, c, J', P)"
    and clean: "rv_complete c" "rv_unresolved c = 0" "retained J' = 0"
    using clean
    by (auto simp: finish_shutdown_def recover_inner_def split: if_split_asm prod.split_asm sum.split_asm option.split_asm)
  note sound = loop_sound [OF inv(1) valid codec fresh env idle sweep_start [OF inv S] _
      run [unfolded shutdown_starts_over] clean(1)]
  obtain S' where P: "P = Durable S'" and over: "sweep_over K C L c S'" using sound(2) by auto
  have J: "J' = bu_jobs b" using sound(1) by simp
  obtain L' where L': "tracked_ledger S' = Inr L'" "swept K C L (set (agenda L)) L'"
    and un: "filter (unresolved K C L) (agenda L) = []"
    using over clean(2) by (auto simp: sweep_over_def)
  have "(\<exists>receipt. state_of K C L' p = Inr (Settled receipt)) \<or>
      (\<exists>closure. state_of K C L' p = Inr (ClosedBeforeDispatch closure))" if p: "p \<in> set (intent_rows L)" for p
  proof -
    have mem: "p \<in> set (agenda L)" using agenda_rows(2) [OF inv(1) valid] p by simp
    then have "settled_since K C L L' p" using L'(2) p by (simp add: swept_def)
    moreover have "\<not> unresolved K C L p" using un mem by (simp add: filter_empty_conv)
    ultimately show ?thesis
      by (auto simp: settled_since_def unresolved_def split: sum.split_asm recovery_state.split_asm if_split_asm)
  qed
  with P L'(1) J clean(3) show ?thesis by auto
qed

section \<open>Witness\<close>

text \<open>An execution whose usage was recorded and whose settlement was interrupted.\<close>

definition ex_sweep_calls :: "(world \<times> ledger_call) list" where
  "ex_sweep_calls = ex_calls @ [(ex_world, RecordTerminal ''team'' ex_x ex_usage 10000)]"

definition ex_interrupted :: sqlite_ledger where
  "ex_interrupted = with_observation (ex_at 1 (Some 5)) ex_x (observed_row ex_usage 10000 ''final 30 12'' 5)"

definition ex_env :: "nat \<Rightarrow> round_env" where
  "ex_env n = \<lparr>en_elapsed = 0, en_now = 0, en_life = lifecycle_new, en_access = True,
     en_retry_lock = Acquired, en_retry_world = ex_world, en_lock = Acquired,
     en_world = ex_world\<lparr>wo_entropy := (\<lambda>k. Some (of_nat (32 * n + k) # replicate 31 0))\<rparr>\<rparr>"

definition ex_buffered :: buffered where
  "ex_buffered = \<lparr>bu_config = \<lparr>bc_capacity = 4, bc_accounting_wait = 1, bc_transport_timeout = 1\<rparr>,
                  bu_jobs = jobs_new 4, bu_recovery = recovery_default\<rparr>"

definition ex_interrupted_shards :: sharded_ledger where
  "ex_interrupted_shards = \<lparr>sh_shards = [\<lparr>sd_ledger = ex_interrupted, sd_poisoned = False\<rparr>]\<rparr>"

lemma ex_at_facts:
  "evidence_inv ex_calendar ex_codec (ex_at 1 (Some 5))" "row_ids (ex_at 1 (Some 5))"
  "bound (ex_at 1 (Some 5)) ex_x 1 \<lparr>rr_scope = ''team'', rr_ceiling = 60, rr_actual = 0, rr_settled = 0,
     rr_settled_at = None, rr_expires_at = 900\<rparr>" "dispatched (ex_at 1 (Some 5)) ex_x"
  "map_of (sl_observations (ex_at 1 (Some 5))) ex_x = None"
proof -
  have "\<forall>(w, call) \<in> set ex_calls. world_ok ex_calendar w" by (simp add: ex_calls_def ex_world_ok)
  then show "evidence_inv ex_calendar ex_codec (ex_at 1 (Some 5))"
    unfolding ex_calls_ledger [symmetric] by (rule evidence_history [OF evidence_open ex_codec_ok])
  show "row_ids (ex_at 1 (Some 5))"
    unfolding ex_calls_ledger [symmetric] by (rule perform_history_inv [OF row_ids_open row_ids_perform])
qed (simp_all add: bound_def dispatched_def reservation_of_def ex_at_def ex_db_eq sqlite_open_def)

lemma history_append:
  "snd (history K C L (xs @ ys)) = snd (history K C (snd (history K C L xs)) ys)"
  by (induction xs arbitrary: L) (auto simp: Let_def split: prod.split)

lemma ex_recorded:
  "evidence_inv ex_calendar ex_codec ex_interrupted" "row_ids ex_interrupted"
  "bound ex_interrupted ex_x 1 \<lparr>rr_scope = ''team'', rr_ceiling = 60, rr_actual = 0, rr_settled = 0,
     rr_settled_at = None, rr_expires_at = 900\<rparr>" "dispatched ex_interrupted ex_x"
  "stored_receipt ex_interrupted 1 = None"
  "final_charge ex_codec (map_of (sl_observations ex_interrupted) ex_x) = Some 42"
  "snd (history ex_calendar ex_codec (sqlite_open (Some ''ledger.db'')) ex_sweep_calls) = ex_interrupted"
proof -
  let ?r = "\<lparr>rr_scope = ''team'', rr_ceiling = 60, rr_actual = 0, rr_settled = 0, rr_settled_at = None,
    rr_expires_at = 900\<rparr>"
  have final: "u_completeness ex_usage = Final" "u_basis ex_usage = ProviderReported"
    by (simp_all add: ex_usage_def usage_v2_default_def)
  have scope: "validate_scope (rr_scope ?r) = Inr ()" by (simp add: validate_scope_def)
  have charge: "charge_storable ex_usage 10000"
    by (simp add: charge_storable_def frozen_charge_of_def final ex_billable is_some_and_def)
  have engine: "wo_engine ex_world = all_done" and utc: "unix_timestamp (wo_utc ex_world) = 5"
    by (simp_all add: ex_world_def unix_timestamp_def)
  note eff = record_effect [OF ex_at_facts scope ex_encode charge ex_codec_ok ex_world_ok engine,
      unfolded utc, folded ex_interrupted_def]
  show "evidence_inv ex_calendar ex_codec ex_interrupted" "row_ids ex_interrupted"
    "bound ex_interrupted ex_x 1 ?r" "dispatched ex_interrupted ex_x" "stored_receipt ex_interrupted 1 = None"
    by (rule eff)+
  show "final_charge ex_codec (map_of (sl_observations ex_interrupted) ex_x) = Some 42"
    using eff(6) [OF final] by (simp add: ex_billable)
  have "snd (perform ex_calendar ex_codec ex_world (ex_at 1 (Some 5)) (RecordTerminal ''team'' ex_x ex_usage 10000)) =
      ex_interrupted"
    using record_unobserved [OF ex_at_facts(1,3-5) scope ex_encode charge, of "wo_utc ex_world"]
    by (simp add: engine utc ex_interrupted_def)
  then show "snd (history ex_calendar ex_codec (sqlite_open (Some ''ledger.db'')) ex_sweep_calls) = ex_interrupted"
    by (simp add: ex_sweep_calls_def history_append ex_calls_ledger Let_def split_def)
qed

lemma hex_digits_inj: "hex_digits a = hex_digits b \<Longrightarrow> a = b"
proof -
  assume eq: "hex_digits a = hex_digits b"
  have d: "distinct ''0123456789abcdef''" by simp
  have lt: "unat v div 16 < 16" "unat v mod 16 < 16" for v :: u8
    using unat_lt_pow [of v] by auto
  have "unat a div 16 = unat b div 16" "unat a mod 16 = unat b mod 16"
    using eq lt [of a] lt [of b] nth_eq_iff_index_eq [OF d] by (auto simp: hex_digits_def)
  then have "unat a = unat b" by (metis div_mult_mod_eq)
  then show "a = b" by (simp add: word_unat_eq_iff)
qed

lemma ex_draw_bound: "n < 8 \<Longrightarrow> k < 32 \<Longrightarrow> 32 * n + k < (256 :: nat)"
  by simp

lemma ex_draws: "fresh_draws ex_env 8 ex_interrupted"
proof -
  have draw: "receipt_draw ex_env (n, k) = Inr (hex_digits (of_nat (32 * n + k)) @ concat (map hex_digits (replicate 31 0)))" for n k
    by (simp add: ex_env_def opaque_id_def)
  have "inj_on (receipt_draw ex_env) ({0 ..< 8} \<times> {0 ..< 32})"
  proof (rule inj_onI)
    fix p q
    assume p: "p \<in> {0 ..< 8} \<times> {0 ..< (32 :: nat)}" and q: "q \<in> {0 ..< 8} \<times> {0 ..< (32 :: nat)}"
      and eq: "receipt_draw ex_env p = receipt_draw ex_env q"
    obtain n k where nk: "p = (n, k)" "n < 8" "k < 32" using p by auto
    obtain m j where mj: "q = (m, j)" "m < 8" "j < 32" using q by auto
    have "(of_nat (32 * n + k) :: u8) = of_nat (32 * m + j)"
      using eq unfolding nk(1) mj(1) draw by (auto intro: hex_digits_inj)
    then have "unat (of_nat (32 * n + k) :: u8) = unat (of_nat (32 * m + j) :: u8)" by (rule arg_cong)
    moreover have "unat (of_nat a :: u8) = a" if "a < 256" for a
      using that by (simp add: unsigned_of_nat take_bit_nat_eq_self)
    ultimately have "32 * n + k = 32 * m + j" using nk(2,3) mj(2,3) by (metis ex_draw_bound)
    then have "n = m \<and> k = j" using nk(3) mj(3) by presburger
    then show "p = q" by (simp add: nk mj)
  qed
  moreover have "sl_outbox ex_interrupted = []"
    by (simp add: ex_interrupted_def with_observation_def ex_at_def ex_db_eq sqlite_open_def)
  ultimately show ?thesis using draw unfolding fresh_draws_def by auto
qed

lemma ex_interrupted_facts:
  "tracked_ledger ex_interrupted_shards = Inr ex_interrupted"
  "sl_intents ex_interrupted = [(ex_x, \<lparr>in_reservation_id = 1, in_created_at = 0\<rparr>)]"
  "state_of ex_calendar ex_codec ex_interrupted (ex_x, 1) = Inr ReadyToSettle"
  "\<forall>(w, call) \<in> set ex_sweep_calls. world_ok ex_calendar w"
  "retry_candidate (bu_jobs ex_buffered) None = None" "bu_recovery ex_buffered = recovery_default"
proof -
  show "tracked_ledger ex_interrupted_shards = Inr ex_interrupted"
    by (simp add: tracked_ledger_def ex_interrupted_shards_def is_file_backed_def ex_interrupted_def
        with_observation_def ex_at_def ex_db_eq sqlite_open_def is_some_and_def)
  show "sl_intents ex_interrupted = [(ex_x, \<lparr>in_reservation_id = 1, in_created_at = 0\<rparr>)]"
    by (simp add: ex_interrupted_def with_observation_def ex_at_def)
  show "\<forall>(w, call) \<in> set ex_sweep_calls. world_ok ex_calendar w"
    by (simp add: ex_sweep_calls_def ex_calls_def ex_world_ok)
  have "scope_of ex_interrupted 1 = Some ''team''"
    using ex_recorded(3) by (simp add: bound_def scope_of_def)
  then show "state_of ex_calendar ex_codec ex_interrupted (ex_x, 1) = Inr ReadyToSettle"
    using recovery_state_dispatched [OF ex_recorded(1,3,4)] ex_recorded(5,6)
    by (auto simp: reported_state_def final_charge_def split: option.split_asm)
qed (simp_all add: ex_buffered_def jobs_new_def retry_candidate_def)

lemma ex_env_ok: "undisturbed ex_calendar shutdown (ex_env n)" "working ex_calendar (ex_env n)"
  using ex_world_ok
  by (auto simp: undisturbed_def working_def ex_env_def sweep_stops_def is_running_def remaining_def
      lifecycle_new_def world_ok_def ex_world_def)

theorem recovery_settles_everything_witness:
  "\<exists>c S' L' rc. recover_calls ex_calendar ex_codec (\<lambda>_. lifecycle_new) ex_env 1 (Some ex_buffered)
      (Durable ex_interrupted_shards) = (Some (ex_buffered\<lparr>bu_recovery := c\<rparr>), Durable S') \<and>
    tracked_ledger S' = Inr L' \<and> rv_complete c \<and>
    state_of ex_calendar ex_codec L' (ex_x, 1) = Inr (Settled rc) \<and> sr_charged_tokens rc = 42"
proof -
  obtain c S' L' where r: "recover_calls ex_calendar ex_codec (\<lambda>_. lifecycle_new) ex_env 1 (Some ex_buffered)
      (Durable ex_interrupted_shards) = (Some (ex_buffered\<lparr>bu_recovery := c\<rparr>), Durable S')"
    "tracked_ledger S' = Inr L'" "rv_complete c"
    "\<forall>p \<in> set (intent_rows ex_interrupted). settled_since ex_calendar ex_codec ex_interrupted L' p"
    using recovery_settles_everything [OF ex_codec_ok ex_interrupted_facts(4) ex_recorded(7) [symmetric], of 1 ex_env
        ex_buffered "\<lambda>_. lifecycle_new" ex_interrupted_shards] ex_draws ex_env_ok ex_interrupted_facts
    by (auto simp: try_operation_def lifecycle_new_def)
  have "settled_since ex_calendar ex_codec ex_interrupted L' (ex_x, 1)"
    using r(4) by (simp add: intent_rows_def ex_interrupted_facts(2))
  then obtain rc where "state_of ex_calendar ex_codec L' (ex_x, 1) = Inr (Settled rc)" "sr_charged_tokens rc = 42"
    using ex_interrupted_facts(3) ex_recorded(6) by (auto simp: settled_since_def)
  with r(1-3) show ?thesis by blast
qed

text \<open>The shutdown of a proxy whose last settlement was interrupted.\<close>

definition ex_quiescing :: lifecycle where
  "ex_quiescing = snd (begin_quiesce 0 1000000000 lifecycle_new)"

lemma ex_shutdown:
  "\<exists>owner P. finish_shutdown ex_calendar ex_codec ex_quiescing True True True
     ex_env (Some ex_buffered) (Durable ex_interrupted_shards) = (Inr True, owner, P)"
proof -
  note facts = history_consistent [OF ex_codec_ok ex_interrupted_facts(4), of "Some ''ledger.db''",
      unfolded ex_recorded(7)]
  have few: "length (sl_intents ex_interrupted) < 8" by (simp add: ex_interrupted_facts(2))
  obtain k c S' where r: "recover_blocking ex_calendar ex_codec True ex_env (bu_recovery ex_buffered)
      (bu_jobs ex_buffered) (Durable ex_interrupted_shards) = (Inr k, c, bu_jobs ex_buffered, Durable S')"
    "rv_complete c" "sweep_over ex_calendar ex_codec ex_interrupted c S'"
    using short_sweep_completes [OF facts ex_codec_ok ex_draws _ ex_interrupted_facts(5,1) few] ex_env_ok by blast
  have "set (agenda ex_interrupted) = {(ex_x, 1)}"
    using agenda_rows(2) [OF facts(1,3)] by (simp add: intent_rows_def ex_interrupted_facts(2))
  then have "filter (unresolved ex_calendar ex_codec ex_interrupted) (agenda ex_interrupted) = []"
    using ex_interrupted_facts(3) by (simp add: filter_empty_conv unresolved_def)
  then have "rv_unresolved c = 0" using r(3) by (simp add: sweep_over_def)
  with r show ?thesis
    by (simp add: finish_shutdown_def recover_inner_def ex_quiescing_def begin_quiesce_def lifecycle_new_def
        is_running_def active_operations_def Let_def ex_buffered_def retained_def jobs_new_def)
qed

theorem clean_shutdown_is_settled_witness:
  "\<exists>owner S' L'. finish_shutdown ex_calendar ex_codec ex_quiescing
      True True True ex_env (Some ex_buffered) (Durable ex_interrupted_shards) = (Inr True, owner, Durable S') \<and>
    tracked_ledger S' = Inr L' \<and>
    ((\<exists>receipt. state_of ex_calendar ex_codec L' (ex_x, 1) = Inr (Settled receipt)) \<or>
     (\<exists>closure. state_of ex_calendar ex_codec L' (ex_x, 1) = Inr (ClosedBeforeDispatch closure)))"
proof -
  obtain owner P where run: "finish_shutdown ex_calendar ex_codec ex_quiescing True True True ex_env
      (Some ex_buffered) (Durable ex_interrupted_shards) = (Inr True, owner, P)"
    using ex_shutdown by blast
  have env: "\<forall>n < 8. working ex_calendar (ex_env n)" using ex_env_ok(2) by blast
  have "(ex_x, 1) \<in> set (intent_rows ex_interrupted)" by (simp add: intent_rows_def ex_interrupted_facts(2))
  with clean_shutdown_is_settled [OF ex_codec_ok ex_interrupted_facts(4) ex_recorded(7) [symmetric] ex_draws env
      ex_interrupted_facts(5,1) run] run show ?thesis by blast
qed

end
