(* ===== verification/Resilience.thy ===== *)
theory Resilience
  imports Usage
begin

text \<open>
  \<^verbatim>\<open>crates/sandhi-providers/src/resilience.rs\<close> with the deadlines of
  \<^verbatim>\<open>deadline.rs\<close>: the circuit breaker, the bounded retries of a call and of a stream
  setup, and the idle timeout of a stream. The wrapped provider is a parameter: the answer of its
  n-th call at an instant and the instant at which that answer is ready, or \<^const>\<open>None\<close> for a
  call that never answers. Timers fire at the instant they are set for.
\<close>

section \<open>Errors and configuration\<close>

type_synonym u16 = "16 word"

datatype provider_error =
    InvalidRequest string
  | Auth
  | RateLimited
  | Upstream u16 "string option" "string option"
  | Transport string
  | CircuitOpen
  | Timeout duration

record provider_response =
  pr_status :: u16
  pr_body :: jvalue
  pr_usage :: parsed_usage
  pr_attempts :: u32

record stream_chunk =
  ck_data :: "u8 list"
  ck_usage :: "parsed_usage option"
  ck_usage_running :: "parsed_usage option"
  ck_cache_read_observation :: "cache_read_observation option"
  ck_attempts :: u32
  ck_terminal :: bool

record retry_config =
  rt_max_retries :: u32
  rt_base_backoff :: duration

record timeout_config =
  tm_complete :: duration
  tm_stream_setup :: duration
  tm_idle :: "duration option"

abbreviation from_secs :: "int \<Rightarrow> duration" where
  "from_secs s \<equiv> s * 1000000000"

definition retry_default :: retry_config where
  "retry_default = \<lparr>rt_max_retries = 0, rt_base_backoff = 200000000\<rparr>"

definition timeout_default :: timeout_config where
  "timeout_default = \<lparr>tm_complete = from_secs 120, tm_stream_setup = from_secs 90,
                      tm_idle = Some (from_secs 90)\<rparr>"

record buffered_deadline =
  bd_at :: instant
  bd_timeout :: duration

definition deadline_new :: "instant \<Rightarrow> duration \<Rightarrow> buffered_deadline" where
  "deadline_new now timeout = \<lparr>bd_at = now + timeout, bd_timeout = timeout\<rparr>"

record streaming_deadline =
  sd_setup :: buffered_deadline
  sd_idle :: duration

definition streaming_deadline_new :: "instant \<Rightarrow> duration \<Rightarrow> duration \<Rightarrow> streaming_deadline" where
  "streaming_deadline_new now setup idle = \<lparr>sd_setup = deadline_new now setup, sd_idle = idle\<rparr>"

section \<open>The circuit breaker\<close>

record circuit_breaker =
  cb_threshold :: u32
  cb_cooldown :: duration
  cb_consecutive_failures :: u32
  cb_opened_at :: "instant option"

definition breaker_new :: "u32 \<Rightarrow> duration \<Rightarrow> circuit_breaker" where
  "breaker_new threshold cooldown =
     \<lparr>cb_threshold = max threshold 1, cb_cooldown = cooldown, cb_consecutive_failures = 0,
      cb_opened_at = None\<rparr>"

definition allow :: "instant \<Rightarrow> circuit_breaker \<Rightarrow> bool" where
  "allow now b =
     (case cb_opened_at b of
        Some opened \<Rightarrow> max 0 (now - opened) \<ge> cb_cooldown b
      | None \<Rightarrow> True)"

definition record_success :: "circuit_breaker \<Rightarrow> circuit_breaker" where
  "record_success b = b\<lparr>cb_consecutive_failures := 0, cb_opened_at := None\<rparr>"

definition record_failure :: "instant \<Rightarrow> circuit_breaker \<Rightarrow> circuit_breaker" where
  "record_failure now b =
     (let b = b\<lparr>cb_consecutive_failures := cb_consecutive_failures b + 1\<rparr> in
      if cb_consecutive_failures b \<ge> cb_threshold b then b\<lparr>cb_opened_at := Some now\<rparr> else b)"

definition is_open :: "instant \<Rightarrow> circuit_breaker \<Rightarrow> bool" where
  "is_open now b \<longleftrightarrow> \<not> allow now b"

section \<open>Retries\<close>

fun is_retryable :: "provider_error \<Rightarrow> bool" where
  "is_retryable (Transport _) = True"
| "is_retryable RateLimited = True"
| "is_retryable (Timeout _) = True"
| "is_retryable (Upstream status _ _) = (status \<ge> 500)"
| "is_retryable (InvalidRequest _) = False"
| "is_retryable Auth = False"
| "is_retryable CircuitOpen = False"

definition duration_max :: duration where
  "duration_max = (2 ^ 64 - 1) * 1000000000 + 999999999"

definition saturating_pow2 :: "u32 \<Rightarrow> int" where
  "saturating_pow2 n = min (2 ^ unat n) (2 ^ 32 - 1)"

definition backoff :: "duration \<Rightarrow> u32 \<Rightarrow> duration" where
  "backoff base attempt =
     (let factor = saturating_pow2 (sat_sub attempt 1) in
      min (min (base * factor) duration_max) (from_secs 30))"

text \<open>A call of the wrapped provider: its answer and when it is ready.\<close>

type_synonym 'a call_answer_at = "instant \<Rightarrow> ((provider_error + 'a) \<times> instant) option"

definition bounded_until ::
  "buffered_deadline \<Rightarrow> instant \<Rightarrow> 'a call_answer_at \<Rightarrow> (provider_error + 'a) \<times> instant" where
  "bounded_until bound now call =
     (if bd_at bound \<le> now then (Inl (Timeout (bd_timeout bound)), now)
      else
        (case call now of
           Some (r, ready) \<Rightarrow>
             if ready \<le> bd_at bound then (r, ready)
             else (Inl (Timeout (bd_timeout bound)), bd_at bound)
         | None \<Rightarrow> (Inl (Timeout (bd_timeout bound)), bd_at bound)))"

lemma next_attempt: "(n :: u32) < m \<Longrightarrow> unat (n + 1) = unat n + 1"
  using unat_add_exact [of n 1] unat_lt_pow [of m] by (simp add: word_less_nat_alt)

text \<open>
  The loop of \<^verbatim>\<open>complete\<close> and of \<^verbatim>\<open>stream\<close>. Besides the answer (a success with the
  number of attempts) and the instant of the return it gives the results of the attempts in order.
\<close>

function attempt_loop ::
  "(u32 \<Rightarrow> 'a call_answer_at) \<Rightarrow> retry_config \<Rightarrow> duration \<Rightarrow> buffered_deadline option \<Rightarrow> instant \<Rightarrow> u32 \<Rightarrow>
     (provider_error + 'a \<times> u32) \<times> instant \<times> (provider_error + 'a) list" where
  "attempt_loop inner retry timeout deadline now attempt =
     (let bound = unwrap_or deadline (deadline_new now timeout) in
      case bounded_until bound now (inner attempt) of
        (Inr a, now) \<Rightarrow> (Inr (a, sat_add attempt 1), now, [Inr a])
      | (Inl e, now) \<Rightarrow>
          if is_retryable e \<and> attempt < rt_max_retries retry then
            let wake = now + backoff (rt_base_backoff retry) (attempt + 1) in
            (case deadline of
               Some d \<Rightarrow>
                 if wake > now \<and> wake > bd_at d
                 then (Inl (Timeout (bd_timeout d)), max now (bd_at d), [Inl e])
                 else
                   (case attempt_loop inner retry timeout deadline wake (attempt + 1) of
                      (r, now, rs) \<Rightarrow> (r, now, Inl e # rs))
             | None \<Rightarrow>
                 (case attempt_loop inner retry timeout deadline wake (attempt + 1) of
                    (r, now, rs) \<Rightarrow> (r, now, Inl e # rs)))
          else (Inl e, now, [Inl e]))"
  by pat_completeness auto

termination
  by (relation "measure (\<lambda>(inner, retry, timeout, deadline, now, attempt).
      unat (rt_max_retries retry) - unat attempt)")
    (auto simp: next_attempt word_less_nat_alt)

declare attempt_loop.simps [simp del]

definition record_result :: "instant \<Rightarrow> provider_error + 'a \<Rightarrow> circuit_breaker \<Rightarrow> circuit_breaker" where
  "record_result now r b =
     (case r of Inr _ \<Rightarrow> record_success b | Inl _ \<Rightarrow> record_failure now b)"

record resilient_provider =
  rs_retry :: retry_config
  rs_timeouts :: timeout_config

definition complete ::
  "(u32 \<Rightarrow> provider_response call_answer_at) \<Rightarrow> resilient_provider \<Rightarrow> buffered_deadline option \<Rightarrow>
     instant \<Rightarrow> circuit_breaker \<Rightarrow> (provider_error + provider_response) \<times> instant \<times> circuit_breaker" where
  "complete inner p deadline now b =
     (if \<not> allow now b then (Inl CircuitOpen, now, b)
      else
        (case attempt_loop inner (rs_retry p) (tm_complete (rs_timeouts p)) deadline now 0 of
           (r, now, _) \<Rightarrow>
             (map_sum (\<lambda>e. e) (\<lambda>(resp, attempts). resp\<lparr>pr_attempts := attempts\<rparr>) r, now,
              record_result now r b)))"

section \<open>Streams\<close>

text \<open>What polling a stream gives.\<close>

datatype 'a polled = Pending | Ready 'a

type_synonym stream_item = "(provider_error + stream_chunk) option"

text \<open>\<^verbatim>\<open>AttemptCountStream\<close>: the count is written on every chunk.\<close>

definition count_attempts :: "u32 \<Rightarrow> stream_item polled \<Rightarrow> stream_item polled" where
  "count_attempts attempts item =
     (case item of
        Ready (Some (Inr chunk)) \<Rightarrow> Ready (Some (Inr (chunk\<lparr>ck_attempts := attempts\<rparr>)))
      | other \<Rightarrow> other)"

record idle_timeout =
  it_inner :: bool
  it_idle :: duration
  it_sleep :: instant
  it_expired :: bool

definition idle_new :: "instant \<Rightarrow> duration \<Rightarrow> idle_timeout" where
  "idle_new now idle =
     \<lparr>it_inner = True, it_idle = idle, it_sleep = now + idle, it_expired = False\<rparr>"

text \<open>One poll at an instant, with what polling the inner stream gives at that instant.\<close>

definition idle_poll ::
  "instant \<Rightarrow> stream_item polled \<Rightarrow> idle_timeout \<Rightarrow> stream_item polled \<times> idle_timeout" where
  "idle_poll now inner s =
     (if it_expired s then (Ready None, s)
      else
        (case inner of
           Ready item \<Rightarrow> (Ready item, s\<lparr>it_sleep := now + it_idle s\<rparr>)
         | Pending \<Rightarrow>
             if it_sleep s \<le> now
             then (Ready (Some (Inl (Timeout (it_idle s)))), s\<lparr>it_inner := False, it_expired := True\<rparr>)
             else (Pending, s)))"

text \<open>
  The setup of a stream. The answer of the inner provider stands for the stream it opened; the
  wrappers of the result are the attempt count and, where an idle limit applies, its timeout.
\<close>

definition stream_setup ::
  "(u32 \<Rightarrow> 's call_answer_at) \<Rightarrow> resilient_provider \<Rightarrow> streaming_deadline option \<Rightarrow> instant \<Rightarrow>
     circuit_breaker \<Rightarrow>
     (provider_error + 's \<times> u32 \<times> idle_timeout option) \<times> instant \<times> circuit_breaker" where
  "stream_setup inner p deadline now b =
     (if \<not> allow now b then (Inl CircuitOpen, now, b)
      else
        (case attempt_loop inner (rs_retry p) (tm_stream_setup (rs_timeouts p))
                (map_option sd_setup deadline) now 0 of
           (r, now, _) \<Rightarrow>
             (map_sum (\<lambda>e. e)
                (\<lambda>(s, attempts).
                   (s, attempts,
                    map_option (idle_new now)
                      (case deadline of Some d \<Rightarrow> Some (sd_idle d) | None \<Rightarrow> tm_idle (rs_timeouts p)))) r,
              now, record_result now r b)))"

section \<open>The loop\<close>

text \<open>A provider answers after it is asked.\<close>

definition causal :: "(u32 \<Rightarrow> 'a call_answer_at) \<Rightarrow> bool" where
  "causal inner \<longleftrightarrow> (\<forall>n t r ready. inner n t = Some (r, ready) \<longrightarrow> t \<le> ready)"

lemma bounded_until_time:
  assumes "causal inner" and "bounded_until bound now (inner n) = (r, t)"
  shows "now \<le> t" and "t \<le> max now (bd_at bound)"
  using assms by (auto simp: bounded_until_def causal_def split: if_split_asm option.split_asm prod.split_asm)

lemma bounded_until_answer:
  assumes "bounded_until bound now call = (Inr a, t)"
  shows "\<exists>t0 ready. call t0 = Some (Inr a, ready)"
  using assms by (auto simp: bounded_until_def split: if_split_asm option.split_asm prod.split_asm)

lemma backoff_range: "0 \<le> base \<Longrightarrow> 0 \<le> backoff base n \<and> backoff base n \<le> from_secs 30"
  by (auto simp: backoff_def Let_def saturating_pow2_def duration_max_def)

text \<open>One iteration of the loop.\<close>

lemma attempt_loop_cases:
  fixes attempt :: u32
  assumes "attempt_loop inner retry timeout deadline now attempt = (r, end, rs)"
  obtains
    (success) a where
      "bounded_until (unwrap_or deadline (deadline_new now timeout)) now (inner attempt) = (Inr a, end)"
      "r = Inr (a, sat_add attempt 1)" "rs = [Inr a]"
  | (failed) e where
      "bounded_until (unwrap_or deadline (deadline_new now timeout)) now (inner attempt) = (Inl e, end)"
      "r = Inl e" "rs = [Inl e]" "\<not> is_retryable e \<or> \<not> attempt < rt_max_retries retry"
  | (expired) e t d where
      "bounded_until (unwrap_or deadline (deadline_new now timeout)) now (inner attempt) = (Inl e, t)"
      "deadline = Some d" "r = Inl (Timeout (bd_timeout d))" "end = max t (bd_at d)" "rs = [Inl e]"
      "is_retryable e" "attempt < rt_max_retries retry"
      "bd_at d < t + backoff (rt_base_backoff retry) (attempt + 1)"
  | (again) e t rs' where
      "bounded_until (unwrap_or deadline (deadline_new now timeout)) now (inner attempt) = (Inl e, t)"
      "is_retryable e" "attempt < rt_max_retries retry"
      "attempt_loop inner retry timeout deadline
         (t + backoff (rt_base_backoff retry) (attempt + 1)) (attempt + 1) = (r, end, rs')"
      "rs = Inl e # rs'"
      "\<And>d. deadline = Some d \<Longrightarrow>
         t + backoff (rt_base_backoff retry) (attempt + 1) \<le> max t (bd_at d)"
proof -
  let ?bound = "unwrap_or deadline (deadline_new now timeout)"
  obtain q t where q: "bounded_until ?bound now (inner attempt) = (q, t)"
    by (cases "bounded_until ?bound now (inner attempt)")
  show thesis
  proof (cases q)
    case (Inr a)
    with assms q show thesis by (intro success [of a]) (simp_all add: attempt_loop.simps Let_def)
  next
    case (Inl e)
    let ?wake = "t + backoff (rt_base_backoff retry) (attempt + 1)"
    obtain r' end' rs' where rest: "attempt_loop inner retry timeout deadline ?wake (attempt + 1) = (r', end', rs')"
      by (cases "attempt_loop inner retry timeout deadline ?wake (attempt + 1)")
    show thesis
    proof (cases "is_retryable e \<and> attempt < rt_max_retries retry")
      case False
      with assms q Inl show thesis
        by (intro failed [of e]) (auto simp: attempt_loop.simps [of inner retry timeout deadline now] Let_def)
    next
      case True
      show thesis
      proof (cases "\<exists>d. deadline = Some d \<and> ?wake > t \<and> ?wake > bd_at d")
        case expire: True
        then obtain d where d: "deadline = Some d" "?wake > t" "?wake > bd_at d" by blast
        with True assms q Inl show thesis
          by (intro expired [of e t d])
            (simp_all add: attempt_loop.simps [of inner retry timeout "Some d" now] Let_def)
      next
        case keep: False
        with True assms q Inl rest show thesis
          by (intro again [of e t rs'])
            (auto simp: attempt_loop.simps [of inner retry timeout deadline now] Let_def
              split: option.split_asm)
      qed
    qed
  qed
qed

lemma attempt_loop_time:
  assumes "causal inner" and "0 \<le> timeout" and "0 \<le> rt_base_backoff retry"
    and "attempt_loop inner retry timeout deadline now attempt = (r, end, rs)"
    and "attempt \<le> rt_max_retries retry"
  shows "now \<le> end"
    and "deadline = Some d \<Longrightarrow> end \<le> max now (bd_at d)"
    and "deadline = None \<Longrightarrow> end \<le> now + int (length rs) * timeout + (int (length rs) - 1) * from_secs 30"
    and "unat attempt + length rs \<le> unat (rt_max_retries retry) + 1"
proof -
  have "now \<le> end \<and> (\<forall>d. deadline = Some d \<longrightarrow> end \<le> max now (bd_at d)) \<and>
      (deadline = None \<longrightarrow>
         end \<le> now + int (length rs) * timeout + (int (length rs) - 1) * from_secs 30) \<and>
      unat attempt + length rs \<le> unat (rt_max_retries retry) + 1"
    using assms(4,5)
  proof (induction "unat (rt_max_retries retry) - unat attempt" arbitrary: now attempt rs rule: less_induct)
    case less
    from less.prems(1) show ?case
    proof (cases rule: attempt_loop_cases)
      case (success a)
      with bounded_until_time [OF assms(1) success(1)] assms(2) less.prems(2) show ?thesis
        by (auto simp: deadline_new_def word_le_nat_alt split: option.split_asm)
    next
      case (failed e)
      with bounded_until_time [OF assms(1) failed(1)] assms(2) less.prems(2) show ?thesis
        by (auto simp: deadline_new_def word_le_nat_alt)
    next
      case (expired e t d)
      with bounded_until_time [OF assms(1) expired(1)] less.prems(2) show ?thesis
        by (auto simp: word_le_nat_alt)
    next
      case (again e t rs')
      let ?wake = "t + backoff (rt_base_backoff retry) (attempt + 1)"
      have n: "unat (attempt + 1) = unat attempt + 1" by (rule next_attempt [OF again(3)])
      have b: "0 \<le> backoff (rt_base_backoff retry) (attempt + 1)"
        "backoff (rt_base_backoff retry) (attempt + 1) \<le> from_secs 30"
        using backoff_range [OF assms(3)] by auto
      have "attempt + 1 \<le> rt_max_retries retry"
        and "unat (rt_max_retries retry) - unat (attempt + 1) < unat (rt_max_retries retry) - unat attempt"
        using n again(3) by (auto simp: word_le_nat_alt word_less_nat_alt)
      from less.hyps [OF this(2) again(4) this(1)]
      have ih: "?wake \<le> end" "\<forall>d. deadline = Some d \<longrightarrow> end \<le> max ?wake (bd_at d)"
        "deadline = None \<longrightarrow> end \<le> ?wake + int (length rs') * timeout + (int (length rs') - 1) * from_secs 30"
        "unat (attempt + 1) + length rs' \<le> unat (rt_max_retries retry) + 1" by auto
      note t = bounded_until_time [OF assms(1) again(1)]
      have "deadline = Some d \<Longrightarrow> end \<le> max now (bd_at d)" for d
        using ih(2) t(2) again(6) [of d] by fastforce
      moreover have "end \<le> now + int (length rs) * timeout + (int (length rs) - 1) * from_secs 30"
        if "deadline = None"
      proof -
        have "t \<le> now + timeout" using t(2) that assms(2) by (simp add: deadline_new_def)
        with ih(3) that b(2) show ?thesis by (simp add: again(5) algebra_simps)
      qed
      ultimately show ?thesis using ih(1,4) t(1) b(1) n again(5) by auto
    qed
  qed
  then show "now \<le> end"
    and "deadline = Some d \<Longrightarrow> end \<le> max now (bd_at d)"
    and "deadline = None \<Longrightarrow> end \<le> now + int (length rs) * timeout + (int (length rs) - 1) * from_secs 30"
    and "unat attempt + length rs \<le> unat (rt_max_retries retry) + 1"
    by auto
qed

text \<open>What the results of the attempts say about the answer.\<close>

definition retry_trace ::
  "u32 \<Rightarrow> u32 \<Rightarrow> buffered_deadline option \<Rightarrow> (provider_error + 'a) list \<Rightarrow> provider_error + 'a \<times> u32 \<Rightarrow> bool" where
  "retry_trace max_retries attempt deadline rs r \<longleftrightarrow>
     rs \<noteq> [] \<and> unat attempt + length rs \<le> unat max_retries + 1 \<and>
     (\<forall>q \<in> set (butlast rs). \<exists>e. q = Inl e \<and> is_retryable e) \<and>
     (case r of
        Inr (a, n) \<Rightarrow> last rs = Inr a \<and> unat n = min (unat attempt + length rs) (2 ^ 32 - 1)
      | Inl e \<Rightarrow>
          last rs = Inl e \<and>
            (\<not> is_retryable e \<or> unat attempt + length rs = unat max_retries + 1) \<or>
          (\<exists>d e'. deadline = Some d \<and> e = Timeout (bd_timeout d) \<and> last rs = Inl e' \<and> is_retryable e'))"

lemma attempt_loop_trace:
  assumes "attempt_loop inner retry timeout deadline now attempt = (r, end, rs)"
    and "attempt \<le> rt_max_retries retry"
  shows "retry_trace (rt_max_retries retry) attempt deadline rs r"
  using assms
proof (induction "unat (rt_max_retries retry) - unat attempt" arbitrary: now attempt rs rule: less_induct)
  case less
  from less.prems(1) show ?case
  proof (cases rule: attempt_loop_cases)
    case (success a)
    moreover have "unat (sat_add attempt 1) = min (unat attempt + 1) (2 ^ 32 - 1)"
      by (simp add: word_nat)
    ultimately show ?thesis using less.prems(2) by (simp add: retry_trace_def word_le_nat_alt)
  next
    case (failed e)
    with less.prems(2) show ?thesis by (auto simp: retry_trace_def word_le_nat_alt word_less_nat_alt)
  next
    case (expired e t d)
    then show ?thesis by (auto simp: retry_trace_def word_less_nat_alt)
  next
    case (again e t rs')
    have n: "unat (attempt + 1) = unat attempt + 1" by (rule next_attempt [OF again(3)])
    have "attempt + 1 \<le> rt_max_retries retry"
      and "unat (rt_max_retries retry) - unat (attempt + 1) < unat (rt_max_retries retry) - unat attempt"
      using n again(3) by (auto simp: word_le_nat_alt word_less_nat_alt)
    from less.hyps [OF this(2) again(4) this(1)] again(2) show ?thesis
      by (cases r) (auto simp: retry_trace_def again(5) n)
  qed
qed

section \<open>The breaker\<close>

text \<open>The results recorded by the callers, in the order the mutex serialises them.\<close>

type_synonym breaker_event = "bool \<times> instant"

definition breaker_run :: "circuit_breaker \<Rightarrow> breaker_event list \<Rightarrow> circuit_breaker" where
  "breaker_run b h =
     fold (\<lambda>(ok, now) b. if ok then record_success b else record_failure now b) h b"

definition failures_since :: "breaker_event list \<Rightarrow> nat" where
  "failures_since h = length (takeWhile (\<lambda>(ok, _). \<not> ok) (rev h))"

lemma failures_since_snoc [simp]:
  "failures_since [] = 0"
  "failures_since (h @ [(ok, t)]) = (if ok then 0 else failures_since h + 1)"
  by (simp_all add: failures_since_def)

lemma failures_since_le: "failures_since h \<le> length h"
  unfolding failures_since_def using length_takeWhile_le [of _ "rev h"] by simp

lemma breaker_run_state:
  assumes "length h < 2 ^ 32"
  shows "breaker_run (breaker_new threshold cooldown) h =
    \<lparr>cb_threshold = max threshold 1, cb_cooldown = cooldown,
     cb_consecutive_failures = word_of_nat (failures_since h),
     cb_opened_at = (if failures_since h \<ge> unat (max threshold 1) then Some (snd (last h)) else None)\<rparr>"
  using assms
proof (induction h rule: rev_induct)
  case Nil
  have "0 < unat (max threshold 1)"
    by (auto simp: max_def word_le_nat_alt)
  then show ?case by (simp add: breaker_run_def breaker_new_def)
next
  case (snoc x h)
  obtain ok t where x: "x = (ok, t)" by (cases x)
  have "failures_since h + 1 < 2 ^ 32" using failures_since_le [of h] snoc.prems by simp
  then have n: "unat (word_of_nat (failures_since h) + 1 :: u32) = failures_since h + 1"
    by (simp add: unat_word_ariths unat_of_nat)
  have pos: "0 < unat (max threshold 1)" by (auto simp: max_def word_le_nat_alt)
  have "breaker_run (breaker_new threshold cooldown) (h @ [x]) =
      (if ok then record_success else record_failure t) (breaker_run (breaker_new threshold cooldown) h)"
    by (simp add: breaker_run_def x)
  moreover note snoc.IH snoc.prems
  ultimately show ?case
    using n pos
    by (auto simp: x record_success_def record_failure_def Let_def word_le_nat_alt add.commute)
qed

section \<open>Idle streams\<close>

fun idle_run :: "idle_timeout \<Rightarrow> (instant \<times> stream_item polled) list \<Rightarrow> stream_item polled list" where
  "idle_run s [] = []"
| "idle_run s ((now, inner) # ps) =
     (case idle_poll now inner s of (out, s) \<Rightarrow> out # idle_run s ps)"

lemma idle_run_expired: "it_expired s \<Longrightarrow> idle_run s ps = replicate (length ps) (Ready None)"
  by (induction ps) (auto simp: idle_poll_def)

text \<open>Whether the gap before a poll is longer than the limit.\<close>

fun idle_gap :: "duration \<Rightarrow> instant \<Rightarrow> (instant \<times> stream_item polled) list \<Rightarrow> nat option" where
  "idle_gap idle last_item [] = None"
| "idle_gap idle last_item ((now, inner) # ps) =
     (case inner of
        Ready _ \<Rightarrow> map_option Suc (idle_gap idle now ps)
      | Pending \<Rightarrow> if last_item + idle \<le> now then Some 0 else map_option Suc (idle_gap idle last_item ps))"

lemma idle_run_cut:
  assumes "\<not> it_expired s" and "it_sleep s = last_item + it_idle s"
  shows "idle_run s ps =
    (case idle_gap (it_idle s) last_item ps of
       None \<Rightarrow> map snd ps
     | Some k \<Rightarrow> map snd (take k ps) @ Ready (Some (Inl (Timeout (it_idle s)))) #
                 replicate (length ps - Suc k) (Ready None))"
  using assms
proof (induction ps arbitrary: s last_item)
  case (Cons p ps)
  obtain now inner where p: "p = (now, inner)" by (cases p)
  show ?case
  proof (cases inner)
    case Pending
    show ?thesis
    proof (cases "last_item + it_idle s \<le> now")
      case True
      with Pending Cons.prems show ?thesis by (simp add: p idle_poll_def idle_run_expired)
    next
      case False
      with Pending Cons.prems Cons.IH [of s last_item] show ?thesis
        by (auto simp: p idle_poll_def split: option.split)
    qed
  next
    case (Ready item)
    with Cons.prems Cons.IH [of "s\<lparr>it_sleep := now + it_idle s\<rparr>" now] show ?thesis
      by (auto simp: p idle_poll_def split: option.split)
  qed
qed simp

section \<open>Properties\<close>

text \<open>
  C23: A resilient call always returns, and in time. Whatever the wrapped provider does, including
  never answering, a call made at an instant returns: with a call deadline, no later than that
  deadline (or at once when it has passed); without one, within one timeout per attempt and thirty
  seconds of back-off per retry. At most the configured retries are made after the first attempt.
\<close>

theorem complete_returns_in_time:
  assumes "causal inner" and "0 \<le> tm_complete (rs_timeouts p)" and "0 \<le> rt_base_backoff (rs_retry p)"
  shows "\<exists>r end b'. complete inner p deadline now b = (r, end, b') \<and> now \<le> end \<and>
    (case deadline of
       Some d \<Rightarrow> end \<le> max now (bd_at d)
     | None \<Rightarrow> end \<le> now + (uint (rt_max_retries (rs_retry p)) + 1) * tm_complete (rs_timeouts p) +
                      uint (rt_max_retries (rs_retry p)) * from_secs 30)"
proof (cases "allow now b")
  case False
  with assms(2) show ?thesis
    by (auto simp: complete_def split: option.split)
next
  case True
  let ?n = "rt_max_retries (rs_retry p)" and ?t = "tm_complete (rs_timeouts p)"
  obtain r "end" rs where loop: "attempt_loop inner (rs_retry p) ?t deadline now 0 = (r, end, rs)"
    by (cases "attempt_loop inner (rs_retry p) ?t deadline now 0") auto
  have zero: "0 \<le> ?n" by simp
  note time = attempt_loop_time [OF assms(1-3) loop zero]
  have len: "int (length rs) \<le> uint ?n + 1"
  proof -
    have "int (length rs) \<le> int (unat ?n) + 1" using time(4) by linarith
    then show ?thesis by simp
  qed
  have "end \<le> now + (uint ?n + 1) * ?t + uint ?n * from_secs 30" if "deadline = None"
  proof -
    have "int (length rs) * ?t \<le> (uint ?n + 1) * ?t"
      using len assms(2) by (rule mult_right_mono)
    with time(3) [OF that] len show ?thesis by simp
  qed
  with loop time(1,2) True show ?thesis
    by (auto simp: complete_def split: option.split)
qed

text \<open>A provider that never answers: one retry, one second per attempt.\<close>

definition ex_silent :: "u32 \<Rightarrow> provider_response call_answer_at" where
  "ex_silent n now = None"

definition ex_resilient :: resilient_provider where
  "ex_resilient = \<lparr>rs_retry = \<lparr>rt_max_retries = 1, rt_base_backoff = 200000000\<rparr>,
                   rs_timeouts = timeout_default\<lparr>tm_complete := from_secs 1\<rparr>\<rparr>"

theorem complete_returns_in_time_witness:
  "\<exists>r end b'. complete ex_silent ex_resilient None 0 (breaker_new 5 (from_secs 30)) = (r, end, b') \<and>
     end \<le> from_secs 32"
  using complete_returns_in_time [of ex_silent ex_resilient None 0 "breaker_new 5 (from_secs 30)"]
  by (auto simp: causal_def ex_silent_def ex_resilient_def)

lemma attempt_loop_answers:
  assumes "attempt_loop inner retry timeout deadline now attempt = (r, end, rs)"
    and "Inr a \<in> set rs"
  shows "\<exists>n t ready. inner n t = Some (Inr a, ready)"
  using assms
proof (induction "unat (rt_max_retries retry) - unat attempt" arbitrary: now attempt rs rule: less_induct)
  case less
  from less.prems(1) show ?case
  proof (cases rule: attempt_loop_cases)
    case (success x)
    then show ?thesis using less.prems(2) bounded_until_answer [OF success(1)] by auto
  next
    case (again e t rs')
    have "unat (rt_max_retries retry) - unat (attempt + 1) < unat (rt_max_retries retry) - unat attempt"
      using next_attempt [OF again(3)] again(3) by (simp add: word_less_nat_alt)
    from less.hyps [OF this again(4)] again(5) less.prems(2) show ?thesis by auto
  qed (use less.prems(2) in auto)
qed




end
