(* ===== verification/Stats.thy ===== *)
theory Stats
  imports Event
begin

text \<open>
  \<^verbatim>\<open>crates/sandhi-core/src/stats.rs\<close>: the aggregate of usage events, the cost tree of an
  agent run and the bounded per-key aggregator. A \<^verbatim>\<open>BTreeMap\<close> is an association list in
  key order. Counters are added with wrap-around.
\<close>

section \<open>Dimensions\<close>

datatype dimension =
    DimSubject | DimGroup | DimProvider | DimModel | DimVirtualKey | DimSession | DimRun | DimTotal

definition dimension_parse :: "string \<Rightarrow> dimension option" where
  "dimension_parse name =
     (let t = ascii_lower (trim name) in
      if t = ''subject'' \<or> t = ''user'' then Some DimSubject
      else if t = ''group'' then Some DimGroup
      else if t = ''provider'' then Some DimProvider
      else if t = ''model'' then Some DimModel
      else if t = ''key'' \<or> t = ''virtual_key'' then Some DimVirtualKey
      else if t = ''session'' then Some DimSession
      else if t = ''run'' then Some DimRun
      else if t = ''total'' then Some DimTotal
      else None)"

fun dimension_as_str :: "dimension \<Rightarrow> string" where
  "dimension_as_str DimSubject = ''subject''"
| "dimension_as_str DimGroup = ''group''"
| "dimension_as_str DimProvider = ''provider''"
| "dimension_as_str DimModel = ''model''"
| "dimension_as_str DimVirtualKey = ''virtual_key''"
| "dimension_as_str DimSession = ''session''"
| "dimension_as_str DimRun = ''run''"
| "dimension_as_str DimTotal = ''total''"

definition NONE_KEY :: string where "NONE_KEY = ''(none)''"
definition TOTAL_KEY :: string where "TOTAL_KEY = ''total''"
definition OVERFLOW_KEY :: string where "OVERFLOW_KEY = ''(overflow)''"

fun key_of :: "dimension \<Rightarrow> usage_event \<Rightarrow> string option" where
  "key_of DimSubject e = ev_subject_id e"
| "key_of DimGroup e = ev_group_id e"
| "key_of DimProvider e = Some (ev_provider e)"
| "key_of DimModel e = Some (ev_model e)"
| "key_of DimVirtualKey e = ev_virtual_key_id e"
| "key_of DimSession e = ev_session_id e"
| "key_of DimRun e = ev_run_id e"
| "key_of DimTotal e = Some TOTAL_KEY"

section \<open>Aggregates\<close>

record latency_summary =
  ls_samples :: u64
  ls_p50_ms :: u64
  ls_p95_ms :: u64
  ls_ttft_p50_ms :: "u64 option"

record usage_aggregate =
  ag_key :: string
  ag_calls :: u64
  ag_tokens_in :: u64
  ag_tokens_out :: u64
  ag_cache_creation_tokens :: u64
  ag_cache_read_tokens :: u64
  ag_cache_read_coverage :: "cache_read_coverage option"
  ag_reasoning_tokens :: u64
  ag_billable_tokens :: u64
  ag_latency :: "latency_summary option"

definition agg_empty :: "string \<Rightarrow> usage_aggregate" where
  "agg_empty key =
     \<lparr>ag_key = key, ag_calls = 0, ag_tokens_in = 0, ag_tokens_out = 0, ag_cache_creation_tokens = 0,
      ag_cache_read_tokens = 0, ag_cache_read_coverage = None, ag_reasoning_tokens = 0,
      ag_billable_tokens = 0, ag_latency = None\<rparr>"

definition agg_add :: "usage_aggregate \<Rightarrow> usage_event \<Rightarrow> usage_aggregate" where
  "agg_add a e =
     (let coverage = unwrap_or (ag_cache_read_coverage a) (coverage_unknown (ag_calls a));
          coverage = coverage_normalized coverage (ag_calls a);
          coverage = coverage_add coverage (ev_cache_read_observation e) in
      a\<lparr>ag_cache_read_coverage := Some coverage,
        ag_calls := ag_calls a + 1,
        ag_tokens_in := ag_tokens_in a + ev_tokens_in e,
        ag_tokens_out := ag_tokens_out a + ev_tokens_out e,
        ag_cache_creation_tokens := ag_cache_creation_tokens a + ev_cache_creation_tokens e,
        ag_cache_read_tokens := ag_cache_read_tokens a + ev_cache_read_tokens e,
        ag_reasoning_tokens := ag_reasoning_tokens a + unwrap_or (ev_reasoning_tokens e) 0,
        ag_billable_tokens := ag_billable_tokens a +
          billable_parts_with_reasoning (ev_tokens_in e) (ev_cache_creation_tokens e)
            (ev_cache_read_tokens e) (ev_tokens_out e) (unwrap_or (ev_reasoning_tokens e) 0)
            (ev_reasoning_included e)\<rparr>)"

definition agg_merge :: "usage_aggregate \<Rightarrow> usage_aggregate \<Rightarrow> usage_aggregate" where
  "agg_merge a other =
     (let other_coverage =
            coverage_normalized (unwrap_or (ag_cache_read_coverage other) coverage_default) (ag_calls other);
          coverage = unwrap_or (ag_cache_read_coverage a) (coverage_unknown (ag_calls a));
          coverage = coverage_normalized coverage (ag_calls a);
          coverage = coverage_merge coverage other_coverage in
      a\<lparr>ag_cache_read_coverage := Some coverage,
        ag_calls := ag_calls a + ag_calls other,
        ag_tokens_in := ag_tokens_in a + ag_tokens_in other,
        ag_tokens_out := ag_tokens_out a + ag_tokens_out other,
        ag_cache_creation_tokens := ag_cache_creation_tokens a + ag_cache_creation_tokens other,
        ag_cache_read_tokens := ag_cache_read_tokens a + ag_cache_read_tokens other,
        ag_reasoning_tokens := ag_reasoning_tokens a + ag_reasoning_tokens other,
        ag_billable_tokens := ag_billable_tokens a + ag_billable_tokens other\<rparr>)"

section \<open>Ordered maps\<close>

text \<open>\<^verbatim>\<open>entry(k).or_insert(d)\<close> followed by an update.\<close>

fun upsert :: "'k::linorder \<Rightarrow> 'v \<Rightarrow> ('v \<Rightarrow> 'v) \<Rightarrow> ('k \<times> 'v) list \<Rightarrow> ('k \<times> 'v) list" where
  "upsert k d f [] = [(k, f d)]"
| "upsert k d f ((k', v) # xs) =
     (if k = k' then (k', f v) # xs
      else if k < k' then (k, f d) # (k', v) # xs
      else (k', v) # upsert k d f xs)"

section \<open>The cost tree of a run\<close>

type_synonym step_key = "string \<times> string option"

datatype run_usage_node =
  RunNode (rn_step_id: string) (rn_parent_id: "string option") (rn_own: usage_aggregate)
    (rn_rollup: usage_aggregate) (rn_children: "run_usage_node list")

record run_cost_tree =
  rt_run_id :: string
  rt_total :: usage_aggregate
  rt_roots :: "run_usage_node list"

definition step_key_of :: "usage_event \<Rightarrow> step_key" where
  "step_key_of e = (unwrap_or (ev_step_id e) NONE_KEY, ev_parent_id e)"

definition own_rows :: "usage_event list \<Rightarrow> (step_key \<times> usage_aggregate) list" where
  "own_rows events =
     fold (\<lambda>e own. upsert (step_key_of e) (agg_empty (fst (step_key_of e))) (\<lambda>a. agg_add a e) own)
       events []"

definition children_index :: "step_key list \<Rightarrow> (string \<times> step_key list) list" where
  "children_index keys =
     fold (\<lambda>key idx. case snd key of
             Some parent \<Rightarrow> upsert parent [] (\<lambda>ks. ks @ [key]) idx
           | None \<Rightarrow> idx) keys []"

text \<open>The keys still to place.\<close>

definition unvisited :: "(step_key \<times> usage_aggregate) list \<Rightarrow> step_key set \<Rightarrow> nat" where
  "unvisited own visited = card (fst ` set own - visited)"

lemma unvisited_mono: "visited \<subseteq> visited' \<Longrightarrow> unvisited own visited' \<le> unvisited own visited"
  unfolding unvisited_def by (rule card_mono) auto

lemma unvisited_insert:
  assumes "key \<in> fst ` set own" and "key \<notin> visited" and "insert key visited \<subseteq> visited'"
  shows "unvisited own visited' < unvisited own visited"
  unfolding unvisited_def by (rule psubset_card_mono) (use assms in auto)

lemma map_of_in_keys: "map_of own key = Some row \<Longrightarrow> key \<in> fst ` set own"
  by (force dest: map_of_SomeD)

text \<open>
  \<^verbatim>\<open>build\<close> and its loop over the children. The visited set a call returns contains the one
  it was given (\<open>build_visited\<close> below), so the unions are the sets returned.
\<close>

function build ::
  "(step_key \<times> usage_aggregate) list \<Rightarrow> (string \<times> step_key list) list \<Rightarrow> step_key \<Rightarrow> step_key set \<Rightarrow>
     run_usage_node option \<times> step_key set"
and build_children ::
  "(step_key \<times> usage_aggregate) list \<Rightarrow> (string \<times> step_key list) list \<Rightarrow> step_key list \<Rightarrow>
     usage_aggregate \<Rightarrow> step_key set \<Rightarrow> usage_aggregate \<times> run_usage_node list \<times> step_key set" where
  "build own idx key visited =
     (if key \<in> visited then (None, visited)
      else
        (case map_of own key of
           None \<Rightarrow> (None, insert key visited)
         | Some row \<Rightarrow>
             (case build_children own idx (unwrap_or (map_of idx (fst key)) []) row (insert key visited) of
                (rollup, children, visited) \<Rightarrow>
                  (Some (RunNode (fst key) (snd key) row rollup children), visited))))"
| "build_children own idx [] rollup visited = (rollup, [], visited)"
| "build_children own idx (child # cs) rollup visited =
     (case build own idx child visited of
        (None, visited') \<Rightarrow> build_children own idx cs rollup (visited \<union> visited')
      | (Some node, visited') \<Rightarrow>
          (case build_children own idx cs (agg_merge rollup (rn_rollup node)) (visited \<union> visited') of
             (rollup, nodes, visited) \<Rightarrow> (rollup, node # nodes, visited)))"
  by pat_completeness auto

termination
proof (relation "measures
    [\<lambda>x. case x of Inl (own, idx, key, visited) \<Rightarrow> unvisited own visited
               | Inr (own, idx, cs, rollup, visited) \<Rightarrow> unvisited own visited,
     \<lambda>x. case x of Inl _ \<Rightarrow> 0 | Inr (own, idx, cs, rollup, visited) \<Rightarrow> Suc (length cs)]", goal_cases)
  case 1
  show ?case by simp
next
  case (2 own idx key visited row)
  then show ?case using unvisited_insert [OF map_of_in_keys, of own key row visited] by auto
next
  case (3 own idx child cs rollup visited)
  show ?case by simp
next
  case (4 own idx child cs rollup visited x visited')
  then show ?case using unvisited_mono [of visited "visited \<union> visited'" own] by (auto simp: le_less)
next
  case (5 own idx child cs rollup visited x visited' node)
  then show ?case using unvisited_mono [of visited "visited \<union> visited'" own] by (auto simp: le_less)
qed

declare build.simps [simp del]

lemma build_visited:
  "build own idx key visited = (r, visited') \<Longrightarrow> insert key visited \<subseteq> visited'"
  "build_children own idx cs rollup visited = (rollup', nodes, visited') \<Longrightarrow> visited \<subseteq> visited'"
proof (induction own idx key visited and own idx cs rollup visited
    arbitrary: r visited' and rollup' nodes visited' rule: build_build_children.induct)
  case (1 own idx key visited)
  then show ?case
    by (auto simp: build.simps [of own idx key visited] split: if_split_asm option.split_asm prod.split_asm)
next
  case (3 own idx child cs rollup visited)
  then show ?case by (auto split: option.split_asm prod.split_asm)
qed auto

text \<open>The loop over the natural roots.\<close>

fun build_roots ::
  "(step_key \<times> usage_aggregate) list \<Rightarrow> (string \<times> step_key list) list \<Rightarrow> step_key list \<Rightarrow> step_key set \<Rightarrow>
     run_usage_node list \<times> step_key set" where
  "build_roots own idx [] visited = ([], visited)"
| "build_roots own idx (key # keys) visited =
     (case build own idx key visited of
        (node, visited) \<Rightarrow>
          (case build_roots own idx keys visited of
             (nodes, visited) \<Rightarrow> ((case node of Some n \<Rightarrow> n # nodes | None \<Rightarrow> nodes), visited)))"

lemma promote_progress:
  assumes "find (\<lambda>key. key \<notin> visited) (map fst own) = Some key"
    and "build own idx key visited = (node, visited')"
  shows "unvisited own visited' < unvisited own visited"
proof (rule unvisited_insert)
  show "key \<in> fst ` set own" and "key \<notin> visited"
    using assms(1) by (auto simp: find_Some_iff in_set_conv_nth) (metis nth_mem image_eqI)
  show "insert key visited \<subseteq> visited'" by (rule build_visited(1) [OF assms(2)])
qed

text \<open>The loop that promotes the smallest key still unvisited until none is left.\<close>

function promote_cycles ::
  "(step_key \<times> usage_aggregate) list \<Rightarrow> (string \<times> step_key list) list \<Rightarrow> step_key set \<Rightarrow>
     run_usage_node list" where
  "promote_cycles own idx visited =
     (case find (\<lambda>key. key \<notin> visited) (map fst own) of
        None \<Rightarrow> []
      | Some key \<Rightarrow>
          (case build own idx key visited of
             (node, visited') \<Rightarrow>
               (case node of
                  Some n \<Rightarrow> n # promote_cycles own idx visited'
                | None \<Rightarrow> promote_cycles own idx visited')))"
  by pat_completeness auto

termination
  by (relation "measure (\<lambda>(own, idx, visited). unvisited own visited)")
    (auto intro: promote_progress promote_progress [OF _ sym])

declare promote_cycles.simps [simp del]

definition natural_roots :: "step_key list \<Rightarrow> step_key list" where
  "natural_roots keys =
     filter (\<lambda>(_, p). case p of None \<Rightarrow> True | Some p \<Rightarrow> p \<notin> fst ` set keys) keys"

definition from_events :: "string \<Rightarrow> usage_event list \<Rightarrow> run_cost_tree" where
  "from_events run_id events =
     (let total = fold (\<lambda>e a. agg_add a e) events (agg_empty run_id);
          own = own_rows events;
          keys = map fst own;
          idx = children_index keys in
      case build_roots own idx (natural_roots keys) {} of
        (roots, visited) \<Rightarrow>
          \<lparr>rt_run_id = run_id, rt_total = total,
           rt_roots = roots @ promote_cycles own idx visited\<rparr>)"

section \<open>The bounded aggregator\<close>

definition DEFAULT_CARDINALITY_CAP :: nat where "DEFAULT_CARDINALITY_CAP = 1024"

record usage_aggregator =
  ua_dimension :: dimension
  ua_cap :: nat
  ua_rows :: "(string \<times> usage_aggregate) list"
  ua_durations :: "(string \<times> u64 list) list"
  ua_ttfts :: "(string \<times> u64 list) list"
  ua_total :: usage_aggregate
  ua_total_durations :: "u64 list"
  ua_total_ttfts :: "u64 list"

definition with_cap :: "dimension \<Rightarrow> nat \<Rightarrow> usage_aggregator" where
  "with_cap dimension cap =
     \<lparr>ua_dimension = dimension, ua_cap = cap, ua_rows = [], ua_durations = [], ua_ttfts = [],
      ua_total = agg_empty TOTAL_KEY, ua_total_durations = [], ua_total_ttfts = []\<rparr>"

definition aggregator_new :: "dimension \<Rightarrow> usage_aggregator" where
  "aggregator_new dimension = with_cap dimension DEFAULT_CARDINALITY_CAP"

definition row_key :: "usage_aggregator \<Rightarrow> usage_event \<Rightarrow> string" where
  "row_key u e =
     (let raw = unwrap_or (key_of (ua_dimension u) e) NONE_KEY in
      if map_of (ua_rows u) raw \<noteq> None \<or> length (ua_rows u) < ua_cap u then raw else OVERFLOW_KEY)"

definition aggregator_add :: "usage_aggregator \<Rightarrow> usage_event \<Rightarrow> usage_aggregator" where
  "aggregator_add u e =
     (let key = row_key u e;
          u = u\<lparr>ua_rows := upsert key (agg_empty key) (\<lambda>a. agg_add a e) (ua_rows u),
                ua_total := agg_add (ua_total u) e\<rparr>;
          u = (case ev_duration_ms e of
                 Some d \<Rightarrow> u\<lparr>ua_durations := upsert key [] (\<lambda>ds. ds @ [d]) (ua_durations u),
                             ua_total_durations := ua_total_durations u @ [d]\<rparr>
               | None \<Rightarrow> u) in
      case ev_time_to_first_token_ms e of
        Some t \<Rightarrow> u\<lparr>ua_ttfts := upsert key [] (\<lambda>ts. ts @ [t]) (ua_ttfts u),
                    ua_total_ttfts := ua_total_ttfts u @ [t]\<rparr>
      | None \<Rightarrow> u)"

text \<open>
  The nearest rank. The source multiplies two doubles and takes the ceiling; for the percentiles
  it is called with (50 and 95) and fewer than \<open>2 ^ 48\<close> samples the rounded product lies between
  the same integers as the exact one.
\<close>

definition percentile :: "u64 list \<Rightarrow> nat \<Rightarrow> u64" where
  "percentile xs p =
     (let rank = (p * length xs + 99) div 100 in
      xs ! min (rank - 1) (length xs - 1))"

definition from_samples :: "u64 list \<Rightarrow> u64 list \<Rightarrow> latency_summary option" where
  "from_samples durations ttfts =
     (if durations = [] then None
      else
        let d = sort durations; t = sort ttfts in
        Some \<lparr>ls_samples = word_of_nat (length d), ls_p50_ms = percentile d 50,
              ls_p95_ms = percentile d 95,
              ls_ttft_p50_ms = (if t \<noteq> [] then Some (percentile t 50) else None)\<rparr>)"

definition aggregator_rows :: "usage_aggregator \<Rightarrow> usage_aggregate list" where
  "aggregator_rows u =
     sort_key (\<lambda>r. (- uint (ag_billable_tokens r), ag_key r))
       (map (\<lambda>(k, row).
          row\<lparr>ag_latency := from_samples (unwrap_or (map_of (ua_durations u) k) [])
                              (unwrap_or (map_of (ua_ttfts u) k) [])\<rparr>) (ua_rows u))"

definition aggregator_total :: "usage_aggregator \<Rightarrow> usage_aggregate" where
  "aggregator_total u =
     (ua_total u)\<lparr>ag_latency := from_samples (ua_total_durations u) (ua_total_ttfts u)\<rparr>"

section \<open>Trees count every step once\<close>

fun node_rows :: "run_usage_node \<Rightarrow> (step_key \<times> usage_aggregate) list" where
  "node_rows (RunNode step parent own rollup children) =
     ((step, parent), own) # concat (map node_rows children)"

abbreviation forest_rows :: "run_usage_node list \<Rightarrow> (step_key \<times> usage_aggregate) list" where
  "forest_rows nodes \<equiv> concat (map node_rows nodes)"

text \<open>The rows of a part of the tree built between two visited sets.\<close>

definition covers ::
  "(step_key \<times> usage_aggregate) list \<Rightarrow> step_key set \<Rightarrow> step_key set \<Rightarrow>
     (step_key \<times> usage_aggregate) list \<Rightarrow> bool" where
  "covers own visited visited' rows \<longleftrightarrow>
     distinct (map fst rows) \<and> fst ` set rows = visited' - visited \<and> visited \<subseteq> visited' \<and>
     (\<forall>(k, a) \<in> set rows. map_of own k = Some a)"

lemma covers_Nil [simp]: "covers own visited visited []"
  by (simp add: covers_def)

lemma covers_append:
  "covers own a b xs \<Longrightarrow> covers own b c ys \<Longrightarrow> covers own a c (xs @ ys)"
  unfolding covers_def set_append image_Un map_append distinct_append set_map by blast

lemma covers_Cons:
  assumes "covers own (insert k visited) visited' rows" and "k \<notin> visited" and "map_of own k = Some a"
  shows "covers own visited visited' ((k, a) # rows)"
  using assms by (auto simp: covers_def)

definition additive :: "(usage_aggregate \<Rightarrow> u64) \<Rightarrow> bool" where
  "additive f \<longleftrightarrow> (\<forall>a b. f (agg_merge a b) = f a + f b)"

definition row_sum :: "(usage_aggregate \<Rightarrow> u64) \<Rightarrow> (step_key \<times> usage_aggregate) list \<Rightarrow> u64" where
  "row_sum f rows = sum_list (map (\<lambda>(_, a). f a) rows)"

lemma row_sum_simps [simp]: "row_sum f [] = 0" "row_sum f ((k, a) # rows) = f a + row_sum f rows"
  "row_sum f (xs @ ys) = row_sum f xs + row_sum f ys"
  by (simp_all add: row_sum_def)

definition index_ok :: "(step_key \<times> usage_aggregate) list \<Rightarrow> (string \<times> step_key list) list \<Rightarrow> bool" where
  "index_ok own idx \<longleftrightarrow> (\<forall>p ks. map_of idx p = Some ks \<longrightarrow> set ks \<subseteq> fst ` set own)"

lemma key_has_row: "key \<in> fst ` set own \<Longrightarrow> \<exists>row. map_of own key = Some row"
  by (metis map_of_eq_None_iff not_None_eq)

lemma build_covers:
  "build own idx key visited = (r, visited') \<Longrightarrow> index_ok own idx \<Longrightarrow> key \<in> fst ` set own \<Longrightarrow>
     covers own visited visited' (case r of None \<Rightarrow> [] | Some n \<Rightarrow> node_rows n) \<and>
     (\<forall>n. r = Some n \<longrightarrow> additive f \<longrightarrow> f (rn_rollup n) = row_sum f (node_rows n))"
  "build_children own idx cs rollup visited = (rollup', nodes, visited') \<Longrightarrow> index_ok own idx \<Longrightarrow>
     set cs \<subseteq> fst ` set own \<Longrightarrow>
     covers own visited visited' (forest_rows nodes) \<and>
     (additive f \<longrightarrow> f rollup' = f rollup + row_sum f (forest_rows nodes))"
proof (induction own idx key visited and own idx cs rollup visited
    arbitrary: r visited' and rollup' nodes visited' rule: build_build_children.induct)
  case (1 own idx key visited)
  show ?case
  proof (cases "key \<in> visited")
    case True
    with 1 show ?thesis by (auto simp: build.simps [of own idx key visited])
  next
    case False
    obtain row where row: "map_of own key = Some row" using key_has_row [OF "1.prems"(3)] by blast
    let ?cs = "unwrap_or (map_of idx (fst key)) []"
    obtain rollup nodes v where c: "build_children own idx ?cs row (insert key visited) = (rollup, nodes, v)"
      by (cases "build_children own idx ?cs row (insert key visited)") auto
    have "set ?cs \<subseteq> fst ` set own"
      using "1.prems"(2) by (cases "map_of idx (fst key)") (auto simp: index_ok_def)
    from "1.IH" [OF False row c "1.prems"(2) this]
    have "covers own (insert key visited) v (forest_rows nodes)"
      and "additive f \<longrightarrow> f rollup = f row + row_sum f (forest_rows nodes)" by auto
    moreover have "r = Some (RunNode (fst key) (snd key) row rollup nodes)" "visited' = v"
      using "1.prems"(1) False row c by (auto simp: build.simps [of own idx key visited])
    ultimately show ?thesis using covers_Cons [OF _ False row] by auto
  qed
next
  case (2 own idx rollup visited)
  then show ?case by auto
next
  case (3 own idx child cs rollup visited)
  obtain q v where b: "build own idx child visited = (q, v)" by (cases "build own idx child visited")
  have mono: "visited \<union> v = v" using build_visited(1) [OF b] by auto
  have child: "child \<in> fst ` set own" and cs: "set cs \<subseteq> fst ` set own" using "3.prems"(3) by auto
  note head = "3.IH"(1) [OF b "3.prems"(2) child]
  show ?case
  proof (cases q)
    case None
    with "3.prems"(1) b mono have "build_children own idx cs rollup v = (rollup', nodes, visited')" by simp
    with "3.IH"(2) [OF b [symmetric] None] mono "3.prems"(2) cs have
      "covers own v visited' (forest_rows nodes)"
      "additive f \<longrightarrow> f rollup' = f rollup + row_sum f (forest_rows nodes)" by auto
    with head None show ?thesis using covers_append [of own visited v "[]"] by auto
  next
    case (Some n)
    obtain nodes' where rest: "build_children own idx cs (agg_merge rollup (rn_rollup n)) v =
        (rollup', nodes', visited')" and nodes: "nodes = n # nodes'"
      using "3.prems"(1) b mono Some by (auto split: prod.split_asm)
    with "3.IH"(3) [OF b [symmetric] Some] mono "3.prems"(2) cs have
      "covers own v visited' (forest_rows nodes')"
      "additive f \<longrightarrow> f rollup' = f (agg_merge rollup (rn_rollup n)) + row_sum f (forest_rows nodes')"
      by auto
    with head Some show ?thesis
      using covers_append [of own visited v "node_rows n" visited' "forest_rows nodes'"]
      by (auto simp: nodes additive_def)
  qed
qed

lemma build_roots_covers:
  assumes "index_ok own idx" and "set keys \<subseteq> fst ` set own"
    and "build_roots own idx keys visited = (nodes, visited')"
  shows "covers own visited visited' (forest_rows nodes)" and "set keys \<subseteq> visited'"
    and "additive f \<Longrightarrow> sum_list (map (\<lambda>n. f (rn_rollup n)) nodes) = row_sum f (forest_rows nodes)"
proof -
  have "covers own visited visited' (forest_rows nodes) \<and> set keys \<subseteq> visited' \<and>
      (additive f \<longrightarrow> sum_list (map (\<lambda>n. f (rn_rollup n)) nodes) = row_sum f (forest_rows nodes))"
    using assms(2,3)
  proof (induction keys arbitrary: visited nodes)
    case (Cons key keys)
    obtain q v where b: "build own idx key visited = (q, v)" by (cases "build own idx key visited")
    obtain nodes' where rest: "build_roots own idx keys v = (nodes', visited')"
      and nodes: "nodes = (case q of Some n \<Rightarrow> n # nodes' | None \<Rightarrow> nodes')"
      using Cons.prems(2) b by (auto split: prod.split_asm)
    have head: "covers own visited v (case q of None \<Rightarrow> [] | Some n \<Rightarrow> node_rows n)"
      "\<forall>n. q = Some n \<longrightarrow> additive f \<longrightarrow> f (rn_rollup n) = row_sum f (node_rows n)"
      using build_covers(1) [OF b assms(1), of f] Cons.prems(1) by auto
    have tail: "covers own v visited' (forest_rows nodes')" "set keys \<subseteq> visited'"
      "additive f \<longrightarrow> sum_list (map (\<lambda>n. f (rn_rollup n)) nodes') = row_sum f (forest_rows nodes')"
      using Cons.IH [OF _ rest] Cons.prems(1) by auto
    have "key \<in> visited'" using build_visited(1) [OF b] tail(1) by (auto simp: covers_def)
    moreover have "covers own visited visited' (forest_rows nodes)"
      using covers_append [OF head(1) tail(1)] by (cases q) (simp_all add: nodes)
    ultimately show ?case using head(2) tail(2,3) by (cases q) (simp_all add: nodes)
  qed simp
  then show "covers own visited visited' (forest_rows nodes)" and "set keys \<subseteq> visited'"
    and "additive f \<Longrightarrow> sum_list (map (\<lambda>n. f (rn_rollup n)) nodes) = row_sum f (forest_rows nodes)"
    by auto
qed

lemma promote_covers:
  assumes "index_ok own idx"
  shows "(\<exists>visited'. covers own visited visited' (forest_rows (promote_cycles own idx visited)) \<and>
      fst ` set own \<subseteq> visited') \<and>
    (additive f \<longrightarrow> sum_list (map (\<lambda>n. f (rn_rollup n)) (promote_cycles own idx visited)) =
       row_sum f (forest_rows (promote_cycles own idx visited)))"
  using assms
proof (induction own idx visited rule: promote_cycles.induct)
  case (1 own idx visited)
  show ?case
  proof (cases "find (\<lambda>key. key \<notin> visited) (map fst own)")
    case None
    then have "fst ` set own \<subseteq> visited" by (auto simp: find_None_iff)
    with None show ?thesis by (auto simp: promote_cycles.simps [of own idx visited] intro: covers_Nil)
  next
    case (Some key)
    obtain q v where b: "build own idx key visited = (q, v)" by (cases "build own idx key visited")
    have "key \<in> fst ` set own"
      using Some by (auto simp: find_Some_iff in_set_conv_nth) (metis nth_mem image_eqI)
    then have head: "covers own visited v (case q of None \<Rightarrow> [] | Some n \<Rightarrow> node_rows n)"
      "\<forall>n. q = Some n \<longrightarrow> additive f \<longrightarrow> f (rn_rollup n) = row_sum f (node_rows n)"
      using build_covers(1) [OF b "1.prems", of f] by auto
    have ih: "(\<exists>visited'. covers own v visited' (forest_rows (promote_cycles own idx v)) \<and>
        fst ` set own \<subseteq> visited') \<and>
      (additive f \<longrightarrow> sum_list (map (\<lambda>n. f (rn_rollup n)) (promote_cycles own idx v)) =
         row_sum f (forest_rows (promote_cycles own idx v)))"
      using "1.IH" [OF Some b [symmetric]] "1.prems" by (cases q) auto
    then obtain visited' where tail: "covers own v visited' (forest_rows (promote_cycles own idx v))"
      "fst ` set own \<subseteq> visited'" by blast
    from covers_append [OF head(1) tail(1)] tail(2) ih head(2) show ?thesis
      by (cases q) (auto simp: promote_cycles.simps [of own idx visited] Some b)
  qed
qed

section \<open>Ordered maps\<close>

abbreviation ordered :: "('k::linorder \<times> 'v) list \<Rightarrow> bool" where
  "ordered xs \<equiv> sorted_wrt (<) (map fst xs)"

lemma upsert_keys: "fst ` set (upsert k d f xs) = insert k (fst ` set xs)"
  by (induction xs rule: upsert.induct) auto

lemma upsert_ordered: "ordered xs \<Longrightarrow> ordered (upsert k d f xs)"
proof (induction k d f xs rule: upsert.induct)
  case (2 k d f k' v xs)
  have "set (map fst (upsert k d f xs)) = insert k (fst ` set xs)" using upsert_keys by simp
  with 2 show ?case by auto
qed simp

lemma ordered_distinct: "ordered xs \<Longrightarrow> distinct (map fst xs)"
  by (simp add: strict_sorted_iff)

lemma map_of_upsert:
  "ordered xs \<Longrightarrow> map_of (upsert k d f xs) j =
     (if j = k then Some (f (unwrap_or (map_of xs k) d)) else map_of xs j)"
proof (induction k d f xs rule: upsert.induct)
  case (2 k d f k' v xs)
  have "k < k' \<Longrightarrow> map_of xs k = None" using 2 by (auto simp: map_of_eq_None_iff)
  with 2 show ?case by auto
qed simp

lemma upsert_sum:
  assumes "\<And>a. h (f a) = h a + (x :: u64)" and "h d = 0"
  shows "sum_list (map (\<lambda>(_, a). h a) (upsert k d f xs)) = sum_list (map (\<lambda>(_, a). h a) xs) + x"
  using assms by (induction k d f xs rule: upsert.induct) (auto simp: ac_simps)

lemma upsert_length: "length (upsert k d f xs) \<le> Suc (length xs)"
  by (induction k d f xs rule: upsert.induct) auto

lemma own_rows_snoc: "own_rows (es @ [e]) =
    upsert (step_key_of e) (agg_empty (fst (step_key_of e))) (\<lambda>a. agg_add a e) (own_rows es)"
  by (simp add: own_rows_def)

lemma own_rows_ordered: "ordered (own_rows es)"
  by (induction es rule: rev_induct) (simp add: own_rows_def, simp add: own_rows_snoc upsert_ordered)

definition fold_events :: "string \<Rightarrow> usage_event list \<Rightarrow> usage_aggregate" where
  "fold_events key es = fold (\<lambda>e a. agg_add a e) es (agg_empty key)"

lemma own_rows_lookup:
  "map_of (own_rows es) k =
     (let mine = filter (\<lambda>e. step_key_of e = k) es in
      if mine = [] then None else Some (fold_events (fst k) mine))"
proof (induction es rule: rev_induct)
  case Nil
  show ?case by (simp add: own_rows_def)
next
  case (snoc e es)
  then show ?case
    by (auto simp: own_rows_snoc map_of_upsert [OF own_rows_ordered] Let_def fold_events_def)
qed

lemma children_index_ok: "index_ok own (children_index (map fst own))"
proof -
  have "ordered (children_index ks) \<and>
      (\<forall>p cs. map_of (children_index ks) p = Some cs \<longrightarrow> set cs \<subseteq> set ks)" for ks
  proof (induction ks rule: rev_induct)
    case Nil
    show ?case by (simp add: children_index_def)
  next
    case (snoc key ks)
    have step: "children_index (ks @ [key]) = (case snd key of
        Some parent \<Rightarrow> upsert parent [] (\<lambda>ks. ks @ [key]) (children_index ks)
      | None \<Rightarrow> children_index ks)"
      by (simp add: children_index_def split: option.split)
    show ?case
    proof (cases "snd key")
      case None
      with snoc step show ?thesis by auto
    next
      case (Some parent)
      have "set (unwrap_or (map_of (children_index ks) parent) []) \<subseteq> set ks"
        using snoc by (cases "map_of (children_index ks) parent") auto
      with snoc step Some show ?thesis
        by (auto simp: upsert_ordered map_of_upsert split: if_split_asm)
    qed
  qed
  from this [of "map fst own"] show ?thesis by (simp add: index_ok_def)
qed

section \<open>Counters\<close>

definition counters :: "(usage_aggregate \<Rightarrow> u64) list" where
  "counters = [ag_calls, ag_tokens_in, ag_tokens_out, ag_cache_creation_tokens, ag_cache_read_tokens,
     ag_reasoning_tokens, ag_billable_tokens]"

definition measures_of :: "(usage_event \<Rightarrow> u64) list" where
  "measures_of = [\<lambda>_. 1, ev_tokens_in, ev_tokens_out, ev_cache_creation_tokens, ev_cache_read_tokens,
     \<lambda>e. unwrap_or (ev_reasoning_tokens e) 0, billable_tokens]"

definition counts :: "(usage_aggregate \<Rightarrow> u64) \<Rightarrow> (usage_event \<Rightarrow> u64) \<Rightarrow> bool" where
  "counts f g \<longleftrightarrow> additive f \<and> (\<forall>a e. f (agg_add a e) = f a + g e) \<and> (\<forall>k. f (agg_empty k) = 0)"

lemma counters_count: "list_all2 counts counters measures_of"
  by (simp add: counters_def measures_of_def counts_def additive_def agg_add_def agg_merge_def
      agg_empty_def Let_def billable_tokens_def)

lemma fold_events_count:
  assumes "counts f g"
  shows "f (fold_events key es) = sum_list (map g es)"
  using assms by (induction es rule: rev_induct) (simp_all add: fold_events_def counts_def)

lemma own_rows_count:
  assumes "counts f g"
  shows "row_sum f (own_rows es) = sum_list (map g es)"
proof (induction es rule: rev_induct)
  case Nil
  show ?case by (simp add: own_rows_def)
next
  case (snoc e es)
  with assms show ?case
    by (simp add: own_rows_snoc row_sum_def counts_def upsert_sum)
qed

lemma covers_all:
  assumes "covers own {} visited rows" and "fst ` set own \<subseteq> visited" and "distinct (map fst own)"
  shows "mset rows = mset own"
proof -
  have "set rows = set own"
  proof
    show "set rows \<subseteq> set own"
    proof
      fix x assume "x \<in> set rows"
      with assms(1) have "map_of own (fst x) = Some (snd x)" by (auto simp: covers_def)
      then show "x \<in> set own" using map_of_SomeD by fastforce
    qed
    show "set own \<subseteq> set rows"
    proof
      fix x assume x: "x \<in> set own"
      obtain k a where ka: "x = (k, a)" by (cases x)
      with x assms(2) have "k \<in> visited" by force
      then have "k \<in> fst ` set rows" using assms(1) by (simp add: covers_def)
      then obtain b where b: "(k, b) \<in> set rows" by auto
      with assms(1) have "map_of own k = Some b" by (auto simp: covers_def)
      moreover have "map_of own k = Some a" using x ka assms(3) by simp
      ultimately show "x \<in> set rows" using b ka by simp
    qed
  qed
  moreover have "distinct rows" "distinct own"
    using assms(1,3) by (auto simp: covers_def distinct_map)
  ultimately show ?thesis by (simp add: set_eq_iff_mset_eq_distinct)
qed

lemma sum_list_mset: "mset xs = mset ys \<Longrightarrow> sum_list (map f xs) = (sum_list (map f ys) :: u64)"
  by (metis mset_map sum_mset_sum_list)

lemma row_sum_mset: "mset xs = mset ys \<Longrightarrow> row_sum f xs = row_sum f ys"
  unfolding row_sum_def by (rule sum_list_mset)

lemma from_events_tree:
  fixes run_id :: string and es :: "usage_event list"
  defines "t \<equiv> from_events run_id es"
  shows "mset (forest_rows (rt_roots t)) = mset (own_rows es)"
    and "rt_total t = fold_events run_id es"
    and "additive f \<Longrightarrow>
      sum_list (map (\<lambda>n. f (rn_rollup n)) (rt_roots t)) = row_sum f (own_rows es)"
proof -
  define own where "own = own_rows es"
  define idx where "idx = children_index (map fst own)"
  obtain roots visited where roots: "build_roots own idx (natural_roots (map fst own)) {} = (roots, visited)"
    by (cases "build_roots own idx (natural_roots (map fst own)) {}")
  have idx: "index_ok own idx" unfolding idx_def by (rule children_index_ok)
  have sub: "set (natural_roots (map fst own)) \<subseteq> fst ` set own" by (auto simp: natural_roots_def)
  note first = build_roots_covers [OF idx sub roots]
  obtain visited' where rest: "covers own visited visited' (forest_rows (promote_cycles own idx visited))"
    "fst ` set own \<subseteq> visited'"
    using promote_covers [OF idx] by blast
  have t: "rt_roots t = roots @ promote_cycles own idx visited" "rt_total t = fold_events run_id es"
    using roots by (simp_all add: t_def from_events_def own_def idx_def fold_events_def Let_def)
  have "covers own {} visited' (forest_rows (rt_roots t))"
    using covers_append [OF first(1) rest(1)] t(1) by simp
  then show rows: "mset (forest_rows (rt_roots t)) = mset (own_rows es)"
    using covers_all rest(2) ordered_distinct [OF own_rows_ordered] own_def by blast
  show "rt_total t = fold_events run_id es" by (rule t(2))
  show "sum_list (map (\<lambda>n. f (rn_rollup n)) (rt_roots t)) = row_sum f (own_rows es)" if "additive f"
    using first(3) [OF that] promote_covers [OF idx, where f = f] that t(1) row_sum_mset [OF rows, of f]
    by simp
qed

lemma aggregator_fields:
  "ua_rows (aggregator_add u e) =
     upsert (row_key u e) (agg_empty (row_key u e)) (\<lambda>a. agg_add a e) (ua_rows u)"
  "ua_total (aggregator_add u e) = agg_add (ua_total u) e"
  "ua_cap (aggregator_add u e) = ua_cap u" "ua_dimension (aggregator_add u e) = ua_dimension u"
  by (simp_all add: aggregator_add_def Let_def split: option.split)

definition aggregate_all :: "dimension \<Rightarrow> nat \<Rightarrow> usage_event list \<Rightarrow> usage_aggregator" where
  "aggregate_all dm cap es = fold (\<lambda>e u. aggregator_add u e) es (with_cap dm cap)"

lemma aggregate_all_snoc:
  "aggregate_all dm cap (es @ [e]) = aggregator_add (aggregate_all dm cap es) e"
  by (simp add: aggregate_all_def)

lemma upsert_length_present: "ordered xs \<Longrightarrow> map_of xs k \<noteq> None \<Longrightarrow> length (upsert k d f xs) = length xs"
proof (induction k d f xs rule: upsert.induct)
  case (2 k d f k' v xs)
  have "k < k' \<Longrightarrow> map_of xs k = None" using 2 by (auto simp: map_of_eq_None_iff)
  with 2 show ?case by (auto split: if_split_asm)
qed simp

definition aggregator_ok :: "dimension \<Rightarrow> nat \<Rightarrow> usage_event list \<Rightarrow> usage_aggregator \<Rightarrow> bool" where
  "aggregator_ok dm cap es u \<longleftrightarrow>
     ua_dimension u = dm \<and> ua_cap u = cap \<and> ordered (ua_rows u) \<and>
     (length (ua_rows u) \<le> cap \<or>
        length (ua_rows u) = Suc cap \<and> map_of (ua_rows u) OVERFLOW_KEY \<noteq> None) \<and>
     ua_total u = fold_events TOTAL_KEY es"

lemma aggregate_all_ok: "aggregator_ok dm cap es (aggregate_all dm cap es)"
proof (induction es rule: rev_induct)
  case Nil
  show ?case by (simp add: aggregator_ok_def aggregate_all_def with_cap_def fold_events_def)
next
  case (snoc e es)
  define u where "u = aggregate_all dm cap es"
  define k where "k = row_key u e"
  have u: "ua_dimension u = dm" "ua_cap u = cap" "ordered (ua_rows u)"
    "length (ua_rows u) \<le> cap \<or> length (ua_rows u) = Suc cap \<and> map_of (ua_rows u) OVERFLOW_KEY \<noteq> None"
    "ua_total u = fold_events TOTAL_KEY es"
    using snoc by (auto simp: aggregator_ok_def u_def)
  let ?rows = "upsert k (agg_empty k) (\<lambda>a. agg_add a e) (ua_rows u)"
  have k: "map_of (ua_rows u) k \<noteq> None \<or> length (ua_rows u) < cap \<or> k = OVERFLOW_KEY"
    using u(2) by (auto simp: k_def row_key_def Let_def)
  have "length ?rows \<le> cap \<or> length ?rows = Suc cap \<and> map_of ?rows OVERFLOW_KEY \<noteq> None"
  proof (cases "map_of (ua_rows u) k = None")
    case False
    then show ?thesis
      using u(3,4) upsert_length_present [OF u(3), of k] by (auto simp: map_of_upsert [OF u(3)])
  next
    case True
    with k u(4) have "length (ua_rows u) < cap \<or> k = OVERFLOW_KEY \<and> length (ua_rows u) \<le> cap" by auto
    then show ?thesis
      using upsert_length [of k "agg_empty k" "\<lambda>a. agg_add a e" "ua_rows u"]
      by (auto simp: map_of_upsert [OF u(3)] le_Suc_eq)
  qed
  with u show ?case
    by (simp add: aggregator_ok_def aggregate_all_snoc aggregator_fields flip: u_def k_def)
      (simp add: upsert_ordered fold_events_def)
qed

lemma aggregate_rows_count:
  assumes "counts f g"
  shows "sum_list (map (\<lambda>(_, a). f a) (ua_rows (aggregate_all dm cap es))) = sum_list (map g es)"
proof (induction es rule: rev_induct)
  case Nil
  show ?case by (simp add: aggregate_all_def with_cap_def)
next
  case (snoc e es)
  with assms show ?case
    by (simp add: aggregate_all_snoc aggregator_fields counts_def upsert_sum)
qed

lemma latency_counters: "f \<in> set counters \<Longrightarrow> f (a\<lparr>ag_latency := l\<rparr>) = f a"
  by (auto simp: counters_def)

lemma aggregator_rows_count:
  assumes "f \<in> set counters"
  shows "sum_list (map f (aggregator_rows u)) = sum_list (map (\<lambda>(_, a). f a) (ua_rows u))"
proof -
  let ?rows = "map (\<lambda>(k, row). row\<lparr>ag_latency := from_samples (unwrap_or (map_of (ua_durations u) k) [])
      (unwrap_or (map_of (ua_ttfts u) k) [])\<rparr>) (ua_rows u)"
  have "mset (aggregator_rows u) = mset ?rows" by (simp add: aggregator_rows_def)
  then have "sum_list (map f (aggregator_rows u)) = sum_list (map f ?rows)"
    by (rule sum_list_mset)
  also have "map f ?rows = map (\<lambda>(_, a). f a) (ua_rows u)"
    by (simp add: latency_counters [OF assms] comp_def case_prod_unfold)
  finally show ?thesis .
qed

section \<open>Properties\<close>

lemma map2_counters:
  assumes "\<And>f g. f \<in> set counters \<Longrightarrow> counts f g \<Longrightarrow> F f = G g"
  shows "map F counters = map G measures_of"
  using counters_count assms
  by (simp add: list_all2_conv_all_nth list_eq_iff_nth_eq)

text \<open>
  C26: The cost tree of a run accounts for every event exactly once. For any list of events,
  with orphaned parents, self-parented steps and parent cycles, the tree is built, its nodes are
  exactly the steps that occur, each once, a node's own row is the fold of the events of that step,
  and each of the seven counters summed over the rollups of the roots is the run's total, which is
  the sum over the events (modulo \<open>2 ^ 64\<close>).
\<close>

theorem run_tree_conserves:
  "mset (map fst (forest_rows (rt_roots (from_events run_id es)))) =
     mset_set (step_key_of ` set es) \<and>
   set (forest_rows (rt_roots (from_events run_id es))) =
     (\<lambda>k. (k, fold_events (fst k) (filter (\<lambda>e. step_key_of e = k) es))) ` step_key_of ` set es \<and>
   map (\<lambda>f. f (rt_total (from_events run_id es))) counters =
     map (\<lambda>f. sum_list (map (\<lambda>n. f (rn_rollup n)) (rt_roots (from_events run_id es)))) counters \<and>
   map (\<lambda>f. f (rt_total (from_events run_id es))) counters = map (\<lambda>g. sum_list (map g es)) measures_of"
proof -
  let ?t = "from_events run_id es"
  have keys: "fst ` set (own_rows es) = step_key_of ` set es"
  proof -
    have "k \<in> fst ` set (own_rows es) \<longleftrightarrow> k \<in> step_key_of ` set es" for k
    proof -
      have "k \<in> fst ` set (own_rows es) \<longleftrightarrow> map_of (own_rows es) k \<noteq> None"
        by (simp add: map_of_eq_None_iff)
      also have "\<dots> \<longleftrightarrow> k \<in> step_key_of ` set es"
        by (auto simp: own_rows_lookup Let_def filter_empty_conv image_iff)
      finally show ?thesis .
    qed
    then show ?thesis by blast
  qed
  have dist: "distinct (map fst (own_rows es))" by (rule ordered_distinct [OF own_rows_ordered])
  have own: "set (own_rows es) =
      (\<lambda>k. (k, fold_events (fst k) (filter (\<lambda>e. step_key_of e = k) es))) ` step_key_of ` set es"
    (is "_ = ?row ` _")
  proof -
    have "x = ?row (fst x)" if x: "x \<in> set (own_rows es)" for x
    proof -
      obtain k a where ka: "x = (k, a)" by fastforce
      have "map_of (own_rows es) k = Some a" using x dist by (simp add: ka)
      then show ?thesis by (simp add: ka own_rows_lookup Let_def split: if_split_asm)
    qed
    then have "set (own_rows es) = ?row ` fst ` set (own_rows es)" by force
    then show ?thesis unfolding keys .
  qed
  have "mset (map fst (forest_rows (rt_roots ?t))) = mset (map fst (own_rows es))"
    using from_events_tree(1) [of run_id es] by (metis mset_map)
  also have "\<dots> = mset_set (step_key_of ` set es)"
    using mset_set_set [OF dist] keys by simp
  finally have "mset (map fst (forest_rows (rt_roots ?t))) = mset_set (step_key_of ` set es)" .
  moreover have "set (forest_rows (rt_roots ?t)) = set (own_rows es)"
    using from_events_tree(1) [of run_id es] by (metis set_mset_mset)
  moreover have total: "map (\<lambda>f. f (rt_total ?t)) counters = map (\<lambda>g. sum_list (map g es)) measures_of"
    by (rule map2_counters) (simp add: from_events_tree(2) fold_events_count)
  moreover have "map (\<lambda>f. sum_list (map (\<lambda>n. f (rn_rollup n)) (rt_roots ?t))) counters =
      map (\<lambda>g. sum_list (map g es)) measures_of"
    by (rule map2_counters) (simp add: from_events_tree(3) own_rows_count counts_def)
  ultimately show ?thesis using own by simp
qed

text \<open>
  C27: The bounded aggregator loses detail, never the sum. After any events it holds at most one row
  more than its capacity, the extra one being the overflow row; the rows it reports and its total
  agree in all seven counters with the sum over the events (modulo \<open>2 ^ 64\<close>).
\<close>

theorem aggregator_exact:
  "(length (aggregator_rows (aggregate_all dm cap es)) \<le> cap \<or>
    length (aggregator_rows (aggregate_all dm cap es)) = Suc cap \<and>
    OVERFLOW_KEY \<in> fst ` set (ua_rows (aggregate_all dm cap es))) \<and>
   map (\<lambda>f. sum_list (map f (aggregator_rows (aggregate_all dm cap es)))) counters =
     map (\<lambda>g. sum_list (map g es)) measures_of \<and>
   map (\<lambda>f. f (aggregator_total (aggregate_all dm cap es))) counters =
     map (\<lambda>g. sum_list (map g es)) measures_of"
proof -
  let ?u = "aggregate_all dm cap es"
  have ok: "length (ua_rows ?u) \<le> cap \<or> length (ua_rows ?u) = Suc cap \<and> map_of (ua_rows ?u) OVERFLOW_KEY \<noteq> None"
    "ua_total ?u = fold_events TOTAL_KEY es"
    using aggregate_all_ok [of dm cap es] by (auto simp: aggregator_ok_def)
  moreover have "length (aggregator_rows ?u) = length (ua_rows ?u)" by (simp add: aggregator_rows_def)
  moreover have "map (\<lambda>f. sum_list (map f (aggregator_rows ?u))) counters = map (\<lambda>g. sum_list (map g es)) measures_of"
    by (rule map2_counters) (simp add: aggregator_rows_count aggregate_rows_count)
  moreover have "map (\<lambda>f. f (aggregator_total ?u)) counters = map (\<lambda>g. sum_list (map g es)) measures_of"
    by (rule map2_counters) (simp add: aggregator_total_def latency_counters ok(2) fold_events_count)
  ultimately show ?thesis by (auto simp: map_of_eq_None_iff)
qed

text \<open>Dimension names read back, and a percentile is an observed value.\<close>

lemma dimension_round_trip: "dimension_parse (dimension_as_str d) = Some d"
  by (cases d) (simp_all add: dimension_parse_def, code_simp+)

lemma percentile_observed: "xs \<noteq> [] \<Longrightarrow> percentile xs p \<in> set xs"
  by (auto simp: percentile_def Let_def min_less_iff_disj intro!: nth_mem)

end
