(* ===== verification/Spec2Isabelle.thy ===== *)
theory Spec2Isabelle
  imports Core_Ledger Budget Line_Split Usage Allowance Keys Alerts Sink Permit Job_Runs Sweep_Runs
    Resilience Stats
begin

text \<open>
  \<^bold>\<open>Sandhi: a verification library.\<close>
\<close>

end
